(* ===== verification/Prelude.thy ===== *)
theory Prelude
  imports Complex_Main "HOL-Library.Word"
begin

text \<open>
  Shared vocabulary of the development: the C integer types of \<^verbatim>\<open>common.h\<close>, the ways a run can
  stop (a call of \<^verbatim>\<open>exit\<close> or undefined behaviour of C), sequencing of fallible operations, and
  the generic list facts the components share.  The platform fixed throughout is LP64 with
  little-endian byte order (x86-64 Linux): \<^verbatim>\<open>int\<close> and \<^verbatim>\<open>u32\<close> have 32 bits, \<^verbatim>\<open>long\<close>, pointers
  and \<^verbatim>\<open>u64\<close> have 64.
\<close>

section \<open>Machine integers\<close>

type_synonym u64 = "64 word"
type_synonym u32 = "32 word"
type_synonym c_int = "32 word"
type_synonym c_long = "64 word"

section \<open>How a run can stop\<close>

datatype ub = NullDeref | OutOfBounds | Uninitialised

datatype stop = Exit int | Undefined ub

type_synonym 'a res = "stop + 'a"

definition bindR :: "'a res \<Rightarrow> ('a \<Rightarrow> 'b res) \<Rightarrow> 'b res" where
  "bindR r f = (case r of Inl e \<Rightarrow> Inl e | Inr x \<Rightarrow> f x)"

named_theorems res_simps \<open>computation rules for fallible operations\<close>
named_theorems inv_intros \<open>an operation keeps an invariant\<close>

lemma bindR_Inl [simp, res_simps]: "bindR (Inl e) f = Inl e"
  by (simp add: bindR_def)

lemma bindR_Inr [simp, res_simps]: "bindR (Inr x) f = f x"
  by (simp add: bindR_def)

lemma bindR_eq_Inr: "bindR r f = Inr y \<longleftrightarrow> (\<exists>x. r = Inr x \<and> f x = Inr y)"
  by (cases r) auto

lemma bindR_assoc: "bindR (bindR r f) g = bindR r (\<lambda>x. bindR (f x) g)"
  by (cases r) auto

lemma bindR_cong: "r = r' \<Longrightarrow> (\<And>x. r' = Inr x \<Longrightarrow> f x = g x) \<Longrightarrow> bindR r f = bindR r' g"
  by (cases r') auto

lemma bindR_InrE:
  assumes "bindR r f = Inr y"
  obtains x where "r = Inr x" and "f x = Inr y"
  using assms by (auto simp: bindR_eq_Inr)

text \<open>A loop over a list whose body may stop the program.\<close>

fun foldR :: "('a \<Rightarrow> 's \<Rightarrow> 's res) \<Rightarrow> 'a list \<Rightarrow> 's \<Rightarrow> 's res" where
  "foldR f [] s = Inr s"
| "foldR f (x # xs) s = bindR (f x s) (foldR f xs)"

lemma foldR_append: "foldR f (xs @ ys) s = bindR (foldR f xs s) (foldR f ys)"
  by (induction xs arbitrary: s) (auto simp: bindR_assoc intro: bindR_cong)

lemma foldR_invariant:
  assumes step: "\<And>x s s'. x \<in> set xs \<Longrightarrow> P s \<Longrightarrow> f x s = Inr s' \<Longrightarrow> P s'"
    and init: "P s" and run: "foldR f xs s = Inr t"
  shows "P t"
  using assms
proof (induction xs arbitrary: s)
  case Nil
  then show ?case by simp
next
  case (Cons x xs)
  from Cons.prems(3) obtain u where u: "f x s = Inr u" "foldR f xs u = Inr t"
    by (auto elim: bindR_InrE)
  have "P u" using Cons.prems(1) [of x s u] Cons.prems(2) u(1) by simp
  then show ?case using u(2) by (rule Cons.IH [rotated]) (use Cons.prems(1) in auto)
qed

lemma foldR_total:
  assumes "\<And>x s. x \<in> set xs \<Longrightarrow> \<exists>s'. f x s = Inr s'"
  shows "\<exists>t. foldR f xs s = Inr t"
  using assms
proof (induction xs arbitrary: s)
  case Nil
  then show ?case by simp
next
  case (Cons x xs)
  obtain u where "f x s = Inr u" using Cons.prems [of x s] by auto
  then show ?case using Cons.IH [of u] Cons.prems by simp
qed

section \<open>Lists\<close>

lemma take_eq_prefix: "take n xs = k \<Longrightarrow> length k = n \<Longrightarrow> xs = k @ drop n xs"
  by (metis append_take_drop_id)

lemma sum_list_filter_le:
  fixes f :: "'a \<Rightarrow> nat"
  shows "sum_list (map f (filter P xs)) \<le> sum_list (map f xs)"
  by (induction xs) auto

end
