(* ===== verification/CFloat.thy ===== *)
theory CFloat
  imports Prelude "HOL-Library.Log_Nat"
begin

text \<open>
  The C types \<^verbatim>\<open>float\<close> and \<^verbatim>\<open>double\<close> as IEEE 754 binary32 and binary64, round-to-nearest-even,
  every operation rounded to the format of its C type (FLT_EVAL_METHOD 0, as on x86-64).
  A value is NaN, an infinity or an exact rational.  The two zeros are one value: the program
  never divides by a zero that could be negative, and compares and prints them alike.
\<close>

section \<open>Formats and rounding\<close>

record fmt =
  prec :: nat   \<comment> \<open>bits of the significand\<close>
  qexp :: nat   \<comment> \<open>the least positive value is 1 / 2 ^ qexp\<close>
  etop :: nat   \<comment> \<open>finite values are below 2 ^ etop\<close>

definition f32 :: fmt where "f32 = \<lparr>prec = 24, qexp = 149, etop = 128\<rparr>"
definition f64 :: fmt where "f64 = \<lparr>prec = 53, qexp = 1074, etop = 1024\<rparr>"

text \<open>Round a rational to the nearest integer, ties to even.\<close>

definition rhe :: "rat \<Rightarrow> int" where
  "rhe x = (let f = \<lfloor>x\<rfloor>; d = x - of_int f in
     if d < 1/2 \<or> (d = 1/2 \<and> even f) then f else f + 1)"

text \<open>
  A nonnegative value counted in units of the least positive one: keep \<^term>\<open>prec\<close> significant
  bits, so the step is \<open>2 ^ s\<close> units.
\<close>

definition rshift :: "nat \<Rightarrow> rat \<Rightarrow> nat" where
  "rshift p y = floorlog 2 (nat \<lfloor>y\<rfloor>) - p"

definition rnd_units :: "nat \<Rightarrow> rat \<Rightarrow> int" where
  "rnd_units p y = (let s = rshift p y in rhe (y / 2 ^ s) * 2 ^ s)"

datatype fp = NaN | PInf | NInf | Fin rat

definition fl_pos :: "fmt \<Rightarrow> rat \<Rightarrow> fp" where
  "fl_pos F x = (let k = rnd_units (prec F) (x * 2 ^ qexp F) in
     if k \<ge> 2 ^ (qexp F + etop F) then PInf else Fin (of_int k / 2 ^ qexp F))"

fun fneg :: "fp \<Rightarrow> fp" where
  "fneg NaN = NaN"
| "fneg PInf = NInf"
| "fneg NInf = PInf"
| "fneg (Fin x) = Fin (- x)"

definition fl :: "fmt \<Rightarrow> rat \<Rightarrow> fp" where
  "fl F x = (if x < 0 then fneg (fl_pos F (- x)) else fl_pos F x)"

section \<open>Arithmetic and comparison\<close>

fun fadd :: "fmt \<Rightarrow> fp \<Rightarrow> fp \<Rightarrow> fp" where
  "fadd F NaN b = NaN"
| "fadd F a NaN = NaN"
| "fadd F PInf NInf = NaN"
| "fadd F NInf PInf = NaN"
| "fadd F PInf b = PInf"
| "fadd F a PInf = PInf"
| "fadd F NInf b = NInf"
| "fadd F a NInf = NInf"
| "fadd F (Fin x) (Fin y) = fl F (x + y)"

definition fsub :: "fmt \<Rightarrow> fp \<Rightarrow> fp \<Rightarrow> fp" where
  "fsub F a b = fadd F a (fneg b)"

text \<open>An infinity with the sign of a nonzero rational; \<open>0 * Inf\<close> is not a number.\<close>

definition finf :: "rat \<Rightarrow> fp" where
  "finf x = (if x > 0 then PInf else if x < 0 then NInf else NaN)"

fun fmul :: "fmt \<Rightarrow> fp \<Rightarrow> fp \<Rightarrow> fp" where
  "fmul F NaN b = NaN"
| "fmul F a NaN = NaN"
| "fmul F PInf PInf = PInf"
| "fmul F PInf NInf = NInf"
| "fmul F NInf PInf = NInf"
| "fmul F NInf NInf = PInf"
| "fmul F PInf (Fin y) = finf y"
| "fmul F NInf (Fin y) = finf (- y)"
| "fmul F (Fin x) PInf = finf x"
| "fmul F (Fin x) NInf = finf (- x)"
| "fmul F (Fin x) (Fin y) = fl F (x * y)"

text \<open>Division; a zero divisor counts as positive zero.\<close>

fun fdiv :: "fmt \<Rightarrow> fp \<Rightarrow> fp \<Rightarrow> fp" where
  "fdiv F NaN b = NaN"
| "fdiv F a NaN = NaN"
| "fdiv F (Fin x) (Fin y) = (if y = 0 then finf x else fl F (x / y))"
| "fdiv F (Fin x) b = Fin 0"
| "fdiv F PInf (Fin y) = (if y < 0 then NInf else PInf)"
| "fdiv F NInf (Fin y) = (if y < 0 then PInf else NInf)"
| "fdiv F a b = NaN"

text \<open>Conversion to a format: from another format, and from an integer.\<close>

fun fcast :: "fmt \<Rightarrow> fp \<Rightarrow> fp" where
  "fcast F (Fin x) = fl F x"
| "fcast F a = a"

definition fofint :: "fmt \<Rightarrow> int \<Rightarrow> fp" where
  "fofint F i = fl F (of_int i)"

instantiation fp :: "{ord, zero}"
begin

definition zero_fp :: fp where "zero_fp = Fin 0"

fun less_eq_fp :: "fp \<Rightarrow> fp \<Rightarrow> bool" where
  "less_eq_fp NaN b = False"
| "less_eq_fp a NaN = False"
| "less_eq_fp NInf b = True"
| "less_eq_fp a PInf = True"
| "less_eq_fp (Fin x) (Fin y) = (x \<le> y)"
| "less_eq_fp a b = False"

definition less_fp :: "fp \<Rightarrow> fp \<Rightarrow> bool" where
  "less_fp a b \<longleftrightarrow> a \<le> b \<and> \<not> b \<le> a"

instance ..

end

section \<open>Rounding: integers are kept, order is kept\<close>

lemma rhe_bounds: "\<lfloor>x\<rfloor> \<le> rhe x" "rhe x \<le> \<lfloor>x\<rfloor> + 1"
  by (auto simp: rhe_def Let_def)

lemma rhe_of_int [simp]: "rhe (of_int k) = k"
  by (simp add: rhe_def)

lemma rhe_mono:
  assumes "x \<le> y"
  shows "rhe x \<le> rhe y"
proof (cases "\<lfloor>x\<rfloor> = \<lfloor>y\<rfloor>")
  case True
  then show ?thesis using assms by (auto simp: rhe_def Let_def)
next
  case False
  with floor_mono [OF assms] have "\<lfloor>x\<rfloor> + 1 \<le> \<lfloor>y\<rfloor>" by simp
  then show ?thesis using rhe_bounds(2) [of x] rhe_bounds(1) [of y] by linarith
qed

lemma rhe_nonneg: "0 \<le> x \<Longrightarrow> 0 \<le> rhe x"
  using rhe_mono [of 0 x] rhe_of_int [of 0] by simp

lemma rhe_le_of_int: "x \<le> of_int k \<Longrightarrow> rhe x \<le> k"
  using rhe_mono [of x "of_int k"] by simp

lemma of_int_le_rhe: "of_int k \<le> x \<Longrightarrow> k \<le> rhe x"
  using rhe_mono [of "of_int k" x] by simp

lemma rat_pow2: "(2::rat) ^ n = of_int (2 ^ n)"
  by simp

text \<open>Rounding in units: a step of \<open>2 ^ s\<close> leaves at most \<open>prec\<close> bits.\<close>

lemma rshift_mono: "y \<le> z \<Longrightarrow> rshift p y \<le> rshift p z"
  unfolding rshift_def by (intro diff_le_mono floorlog_mono nat_mono floor_mono)

lemma rshift_upper:
  assumes "0 \<le> y"
  shows "y < 2 ^ (p + rshift p y)"
proof -
  let ?b = "floorlog 2 (nat \<lfloor>y\<rfloor>)"
  have "nat \<lfloor>y\<rfloor> < 2 ^ ?b"
  proof (cases "nat \<lfloor>y\<rfloor> = 0")
    case False
    then show ?thesis using floorlog_bounds [of "nat \<lfloor>y\<rfloor>" 2] by linarith
  qed simp
  then have "nat \<lfloor>y\<rfloor> < 2 ^ (p + rshift p y)"
    by (rule less_le_trans) (auto simp: rshift_def intro: power_increasing)
  then have "\<lfloor>y\<rfloor> < int (2 ^ (p + rshift p y))"
    using assms by (simp add: nat_less_iff)
  then have "\<lfloor>y\<rfloor> < 2 ^ (p + rshift p y)" by simp
  then show ?thesis by (simp only: floor_less_iff rat_pow2)
qed

lemma rshift_lower:
  assumes "rshift p y \<noteq> 0"
  shows "2 ^ (p + rshift p y - 1) \<le> y"
proof -
  let ?b = "floorlog 2 (nat \<lfloor>y\<rfloor>)"
  have b: "?b = p + rshift p y" and "?b \<noteq> 0" using assms by (auto simp: rshift_def)
  then have pos: "0 < nat \<lfloor>y\<rfloor>" by (cases "nat \<lfloor>y\<rfloor>") (auto simp: floorlog_def)
  have "2 ^ (?b - 1) \<le> nat \<lfloor>y\<rfloor>" using pos by (intro floorlog_bounds [THEN conjunct1]) auto
  then have "int (2 ^ (?b - 1)) \<le> \<lfloor>y\<rfloor>" using pos by (metis nat_0_iff le_nat_iff not_less0 nle_le)
  then have "2 ^ (?b - 1) \<le> \<lfloor>y\<rfloor>" by simp
  then show ?thesis using b by (simp add: le_floor_iff)
qed

lemma rnd_units_nonneg: "0 \<le> y \<Longrightarrow> 0 \<le> rnd_units p y"
  by (simp add: rnd_units_def Let_def rhe_nonneg)

lemma rnd_units_mono:
  assumes "0 \<le> y" and "y \<le> z" and "0 < p"
  shows "rnd_units p y \<le> rnd_units p z"
proof (cases "rshift p y = rshift p z")
  case True
  have "rhe (y / 2 ^ rshift p z) \<le> rhe (z / 2 ^ rshift p z)"
    using assms(2) by (intro rhe_mono divide_right_mono) auto
  then show ?thesis using True by (simp add: rnd_units_def Let_def)
next
  case False
  let ?s = "rshift p y" and ?t = "rshift p z"
  have st: "?s < ?t" using rshift_mono [OF assms(2), of p] False by simp
  have "y / 2 ^ ?s \<le> of_int (2 ^ p)"
    using rshift_upper [OF assms(1), of p] by (simp add: divide_le_eq power_add)
  then have "rhe (y / 2 ^ ?s) \<le> 2 ^ p" by (rule rhe_le_of_int)
  then have up: "rnd_units p y \<le> 2 ^ p * 2 ^ ?s"
    by (simp add: rnd_units_def Let_def)
  obtain q where Suc: "p = Suc q" using assms(3) by (cases p) auto
  have "2 ^ (q + ?t) \<le> z" using rshift_lower [of p z] st Suc by simp
  then have "of_int (2 ^ q) \<le> z / 2 ^ ?t" by (simp add: le_divide_eq power_add)
  then have "2 ^ q \<le> rhe (z / 2 ^ ?t)" by (rule of_int_le_rhe)
  then have lo: "2 ^ q * 2 ^ ?t \<le> rnd_units p z" by (simp add: rnd_units_def Let_def)
  have "(2::int) ^ (p + ?s) \<le> 2 ^ (q + ?t)" using st Suc by (intro power_increasing) auto
  then show ?thesis using up lo by (simp add: power_add)
qed

text \<open>The numbers a format can hold are multiples of a power of two with at most \<open>p\<close> bits.\<close>

definition few_bits :: "nat \<Rightarrow> int \<Rightarrow> bool" where
  "few_bits p k \<longleftrightarrow> (\<exists>m s. k = m * 2 ^ s \<and> 0 \<le> m \<and> m < 2 ^ p)"

lemma few_bits_nonneg: "few_bits p k \<Longrightarrow> 0 \<le> k"
  by (auto simp: few_bits_def)

lemma rnd_units_few_bits:
  assumes "0 \<le> y" and "0 < p"
  shows "few_bits p (rnd_units p y)"
proof -
  let ?s = "rshift p y" and ?m = "rhe (y / 2 ^ rshift p y)"
  have "y / 2 ^ ?s \<le> of_int (2 ^ p)"
    using rshift_upper [OF assms(1), of p] by (simp add: divide_le_eq power_add)
  then have m: "0 \<le> ?m" "?m \<le> 2 ^ p"
    using assms(1) by (auto intro: rhe_le_of_int rhe_nonneg)
  show ?thesis
  proof (cases "?m = 2 ^ p")
    case True
    then have "rnd_units p y = 1 * 2 ^ (p + ?s)"
      by (simp add: rnd_units_def Let_def power_add)
    then show ?thesis unfolding few_bits_def using assms(2)
      by (intro exI [of _ 1] exI [of _ "p + ?s"]) simp
  next
    case False
    then show ?thesis using m unfolding few_bits_def rnd_units_def Let_def
      by (intro exI [of _ ?m] exI [of _ ?s]) simp
  qed
qed

lemma rnd_units_exact:
  assumes "few_bits p k"
  shows "rnd_units p (of_int k) = k"
proof -
  from assms obtain m s where k: "k = m * 2 ^ s" "0 \<le> m" "m < 2 ^ p"
    by (auto simp: few_bits_def)
  define t where "t = rshift p (of_int k)"
  have le: "t \<le> s"
  proof (cases "t = 0")
    case False
    then have "2 ^ (p + t - 1) \<le> (of_int k :: rat)" unfolding t_def by (rule rshift_lower)
    then have "2 ^ (p + t - 1) \<le> k" by (simp only: rat_pow2 of_int_le_iff)
    also have "k < 2 ^ (p + s)" using k by (simp add: power_add)
    finally have "p + t - 1 < p + s" by (simp add: power_strict_increasing_iff)
    then show ?thesis by linarith
  qed simp
  from le obtain d where d: "s = d + t" using le_Suc_ex by (metis add.commute)
  have "of_int k / 2 ^ t = (of_int (m * 2 ^ (s - t)) :: rat)"
  proof -
    have "(2::rat) ^ s = 2 ^ d * 2 ^ t" by (subst d) (simp add: power_add)
    then have "(of_int k :: rat) = of_int m * (2 ^ d * 2 ^ t)" by (simp add: k(1))
    moreover have "s - t = d" using d by simp
    ultimately show ?thesis by simp
  qed
  then have "rhe (of_int k / 2 ^ t) = m * 2 ^ (s - t)" by (simp only: rhe_of_int)
  then have "rnd_units p (of_int k) = m * (2 ^ (s - t) * 2 ^ t)"
    by (simp add: rnd_units_def Let_def mult.assoc t_def)
  also have "\<dots> = k" using le k(1) by (simp flip: power_add)
  finally show ?thesis .
qed

section \<open>Nonnegative values of a format\<close>

text \<open>
  The quantities the program adds up (energies, powers, rates) are never negative.  \<open>fnn F v\<close>:
  \<open>v\<close> is a nonnegative value of the format \<open>F\<close>, infinity included and NaN excluded.
\<close>

definition fmt_ok :: "fmt \<Rightarrow> bool" where
  "fmt_ok F \<longleftrightarrow> 0 < prec F"

lemma fmt_ok_f32 [simp]: "fmt_ok f32" and fmt_ok_f64 [simp]: "fmt_ok f64"
  by (simp_all add: fmt_ok_def f32_def f64_def)

definition fnn :: "fmt \<Rightarrow> fp \<Rightarrow> bool" where
  "fnn F v \<longleftrightarrow> v = PInf \<or>
     (\<exists>k. v = Fin (of_int k / 2 ^ qexp F) \<and> few_bits (prec F) k \<and> k < 2 ^ (qexp F + etop F))"

named_theorems fnn_intros \<open>operations that keep values nonnegative\<close>

lemma fp_zero_le: "Fin 0 \<le> v \<longleftrightarrow> (v = PInf \<or> (\<exists>x\<ge>0. v = Fin x))"
  by (cases v) auto

lemma fnn_ge_zero: "fnn F v \<Longrightarrow> Fin 0 \<le> v"
  by (auto simp: fnn_def fp_zero_le dest: few_bits_nonneg)

lemma fnn_PInf [simp]: "fnn F PInf"
  by (simp add: fnn_def)

lemma fl_nonneg: "0 \<le> x \<Longrightarrow> fl F x = fl_pos F x"
  by (simp add: fl_def)

lemma fl_fnn [fnn_intros]:
  assumes "0 \<le> x" and "fmt_ok F"
  shows "fnn F (fl F x)"
proof -
  have "few_bits (prec F) (rnd_units (prec F) (x * 2 ^ qexp F))"
    using assms by (intro rnd_units_few_bits) (auto simp: fmt_ok_def)
  then show ?thesis using assms(1)
    by (auto simp: fl_nonneg fl_pos_def Let_def fnn_def)
qed

lemma fl_mono:
  assumes "0 \<le> x" and "x \<le> y" and "fmt_ok F"
  shows "fl F x \<le> fl F y"
proof -
  have "rnd_units (prec F) (x * 2 ^ qexp F) \<le> rnd_units (prec F) (y * 2 ^ qexp F)"
    using assms by (intro rnd_units_mono) (auto simp: fmt_ok_def)
  then show ?thesis using assms
    by (auto simp: fl_nonneg fl_pos_def Let_def divide_right_mono)
qed

lemma fl_exact:
  assumes "few_bits (prec F) k" and "k < 2 ^ (qexp F + etop F)"
  shows "fl F (of_int k / 2 ^ qexp F) = Fin (of_int k / 2 ^ qexp F)"
  using assms rnd_units_exact [of "prec F" k] few_bits_nonneg [of "prec F" k]
  by (simp add: fl_nonneg fl_pos_def)

lemma few_bits_int:
  assumes "0 \<le> i" and "i < 2 ^ p"
  shows "few_bits p (i * 2 ^ q)"
  using assms unfolding few_bits_def by blast

lemma fl_exact_int:
  assumes "0 \<le> i" and "i < 2 ^ prec F" and "prec F \<le> etop F"
  shows "fl F (of_int i) = Fin (of_int i)"
proof -
  have "i < 2 ^ etop F" using assms(2,3) by (meson less_le_trans one_le_numeral power_increasing)
  then have "i * 2 ^ qexp F < 2 ^ (qexp F + etop F)" by (simp add: power_add mult.commute)
  from fl_exact [OF few_bits_int [OF assms(1,2)] this] show ?thesis by simp
qed

lemma fnn_fl_id: "fnn F (Fin x) \<Longrightarrow> fl F x = Fin x"
  by (auto simp: fnn_def fl_exact)

lemma fl_zero [simp]: "fl F 0 = Fin 0"
  using fl_exact [of F 0] by (simp add: few_bits_def exI [of _ 0])

lemma fnn_zero [simp]: "fnn F (Fin 0)"
  unfolding fnn_def by (intro disjI2 exI [of _ 0]) (simp add: few_bits_def exI [of _ 0])

lemma fofint_fnn [fnn_intros]: "0 \<le> i \<Longrightarrow> fmt_ok F \<Longrightarrow> fnn F (fofint F i)"
  by (simp add: fofint_def fl_fnn)

text \<open>Sums of nonnegative values stay nonnegative and never drop below a summand.\<close>

lemma fadd_fnn [fnn_intros]:
  assumes "Fin 0 \<le> a" and "Fin 0 \<le> b" and "fmt_ok F"
  shows "fnn F (fadd F a b)"
  using assms by (auto simp: fp_zero_le intro!: fl_fnn)

lemma fadd_ge_left:
  assumes "fnn F a" and "Fin 0 \<le> b" and "fmt_ok F"
  shows "a \<le> fadd F a b"
proof (cases a)
  case (Fin x)
  show ?thesis
  proof (cases b)
    case (Fin y)
    have "fl F x \<le> fl F (x + y)"
      using assms fnn_ge_zero [OF assms(1)] \<open>a = Fin x\<close> Fin by (intro fl_mono) auto
    then show ?thesis using assms(1) \<open>a = Fin x\<close> Fin by (simp add: fnn_fl_id)
  qed (use assms Fin in auto)
qed (use assms in \<open>auto simp: fnn_def fp_zero_le\<close>)

lemma fmul_fnn [fnn_intros]:
  assumes "Fin 0 \<le> Fin x" and "Fin 0 \<le> Fin y" and "fmt_ok F"
  shows "fnn F (fmul F (Fin x) (Fin y))"
  using assms by (auto intro: fl_fnn)

lemma fmul_pos_fnn [fnn_intros]:
  assumes "0 < x" and "Fin 0 \<le> b" and "fmt_ok F"
  shows "fnn F (fmul F (Fin x) b)"
  using assms by (auto simp: fp_zero_le finf_def intro!: fl_fnn)

text \<open>Rounding stays between bounds the format can hold, halves of small integers among them.\<close>

lemma fl_exact_half:
  assumes "0 \<le> i" and "i < 2 ^ prec F" and "prec F \<le> etop F" and "0 < qexp F"
  shows "fl F (of_int i / 2) = Fin (of_int i / 2)"
proof -
  obtain q where q: "qexp F = Suc q" using assms(4) by (cases "qexp F") auto
  have "i < 2 ^ etop F" using assms(2,3) by (meson less_le_trans one_le_numeral power_increasing)
  then have "i * 2 ^ q < 2 ^ etop F * 2 ^ q" by simp
  also have "\<dots> \<le> 2 ^ (qexp F + etop F)" by (simp add: q power_add)
  finally have "i * 2 ^ q < 2 ^ (qexp F + etop F)" .
  from fl_exact [OF few_bits_int [OF assms(1,2)] this] show ?thesis
    by (simp add: q)
qed

lemma fl_exact_dyadic:
  assumes "0 \<le> i" and "i < 2 ^ prec F" and "prec F \<le> etop F" and "s \<le> qexp F"
  shows "fl F (of_int i / 2 ^ s) = Fin (of_int i / 2 ^ s)"
proof -
  obtain q where q: "qexp F = s + q" using assms(4) le_Suc_ex by blast
  have "i < 2 ^ etop F" using assms(2,3) by (meson less_le_trans one_le_numeral power_increasing)
  then have "i * 2 ^ q < 2 ^ etop F * 2 ^ q" by simp
  also have "\<dots> \<le> 2 ^ (qexp F + etop F)" by (simp add: q power_add)
  finally have "i * 2 ^ q < 2 ^ (qexp F + etop F)" .
  from fl_exact [OF few_bits_int [OF assms(1,2)] this] show ?thesis
    by (simp add: q power_add)
qed

text \<open>A power of two is exact as long as it is in range.\<close>

lemma fl_pow2:
  assumes "k < etop F" and "fmt_ok F"
  shows "fl F (2 ^ k) = Fin (2 ^ k)"
proof -
  have "(1::int) < 2 ^ prec F" using assms(2) by (simp add: fmt_ok_def)
  then have fb: "few_bits (prec F) (2 ^ (k + qexp F))"
    unfolding few_bits_def by (intro exI [of _ 1] exI [of _ "k + qexp F"]) simp
  have "(2::int) ^ (k + qexp F) < 2 ^ (qexp F + etop F)" using assms(1) by simp
  from fl_exact [OF fb this] show ?thesis by (simp add: power_add)
qed

lemma fl_between:
  assumes "0 \<le> x" "x \<le> y" "y \<le> z" "fmt_ok F" "fl F x = Fin x" "fl F z = Fin z"
  obtains w where "fl F y = Fin w" "x \<le> w" "w \<le> z"
proof -
  have "fl F x \<le> fl F y" "fl F y \<le> fl F z" using assms(1-4) by (auto intro: fl_mono)
  then show ?thesis using that assms(5,6) by (cases "fl F y") auto
qed

lemma fmul_pos_fnn' [fnn_intros]:
  assumes "0 < x" and "Fin 0 \<le> b" and "fmt_ok F"
  shows "fnn F (fmul F b (Fin x))"
  using assms by (auto simp: fp_zero_le finf_def intro!: fl_fnn)

text \<open>A float is a double.\<close>

lemma fnn_f32_f64: "fnn f32 v \<Longrightarrow> fnn f64 v"
proof -
  assume v: "fnn f32 v"
  show ?thesis
  proof (cases "v = PInf")
    case False
    then obtain k where k: "v = Fin (of_int k / 2 ^ qexp f32)" "few_bits (prec f32) k"
      "k < 2 ^ (qexp f32 + etop f32)" using v by (auto simp: fnn_def)
    obtain m s where m: "k = m * 2 ^ s" "0 \<le> m" "m < 2 ^ prec f32" using k(2) by (auto simp: few_bits_def)
    let ?d = "qexp f64 - qexp f32"
    have d: "qexp f64 = qexp f32 + ?d" by (simp add: f32_def f64_def)
    have "(2::rat) ^ qexp f64 = 2 ^ qexp f32 * 2 ^ ?d" using d by (metis power_add)
    then have "v = Fin (of_int (k * 2 ^ ?d) / 2 ^ qexp f64)" unfolding k(1) by simp
    moreover have "few_bits (prec f64) (k * 2 ^ ?d)"
      unfolding few_bits_def using m
      by (intro exI [of _ m] exI [of _ "s + ?d"]) (auto simp: power_add f32_def f64_def)
    moreover have "k * 2 ^ ?d < 2 ^ (qexp f64 + etop f64)"
    proof -
      have "k * 2 ^ ?d < 2 ^ (qexp f32 + etop f32) * 2 ^ ?d" using k(3) by simp
      also have "\<dots> \<le> 2 ^ (qexp f64 + etop f64)"
        by (simp only: power_add [symmetric]) (intro power_increasing, simp_all add: f32_def f64_def)
      finally show ?thesis .
    qed
    ultimately show ?thesis unfolding fnn_def by blast
  qed simp
qed

lemma fdiv_fnn [fnn_intros]:
  assumes "Fin 0 \<le> a" and "0 < y" and "fmt_ok F"
  shows "fnn F (fdiv F a (Fin y))"
  using assms by (auto simp: fp_zero_le intro!: fl_fnn)

lemma fcast_fnn [fnn_intros]:
  assumes "Fin 0 \<le> a" and "fmt_ok F"
  shows "fnn F (fcast F a)"
  using assms by (auto simp: fp_zero_le intro: fl_fnn)

lemma fp_le_trans: "(a :: fp) \<le> b \<Longrightarrow> b \<le> c \<Longrightarrow> a \<le> c"
  by (cases a; cases b; cases c) auto

lemma fp_le_refl: "a \<noteq> NaN \<Longrightarrow> (a :: fp) \<le> a"
  by (cases a) auto

end
