(* ===== verification/CLib.thy ===== *)
theory CLib
  imports CFloat "HOL-Library.Sublist"
begin

text \<open>
  What the program uses of the C library on text: buffers and C strings, \<^verbatim>\<open>fgets\<close>, \<^verbatim>\<open>strncmp\<close>,
  the \<^verbatim>\<open>scanf\<close> conversions, \<^verbatim>\<open>atoi\<close>, \<^verbatim>\<open>atol\<close>, \<^verbatim>\<open>atof\<close> and the \<^verbatim>\<open>printf\<close> conversions.  A file is the
  list of its bytes.  A buffer is a list of bytes too, stale contents included: \<^verbatim>\<open>fgets\<close> writes a
  line and a terminator over its beginning and leaves the rest.  Conversions follow glibc on
  LP64: an integer is read with \<^verbatim>\<open>strtol\<close> or \<^verbatim>\<open>strtoul\<close>, which saturate, and then cut to the
  width of the argument.
\<close>

section \<open>Buffers, C strings and fgets\<close>

type_synonym buf = "char list"

abbreviation nul :: char where "nul \<equiv> CHR 0x00"
abbreviation newline :: char where "newline \<equiv> CHR 0x0A"

definition cstr :: "buf \<Rightarrow> string" where
  "cstr b = takeWhile (\<lambda>c. c \<noteq> nul) b"

text \<open>The bytes one \<^verbatim>\<open>fgets\<close> call takes when it may take \<open>n\<close>: through the first newline.\<close>

fun fgets_chunk :: "nat \<Rightarrow> char list \<Rightarrow> char list \<times> char list" where
  "fgets_chunk 0 f = ([], f)"
| "fgets_chunk (Suc n) [] = ([], [])"
| "fgets_chunk (Suc n) (c # f) =
     (if c = newline then ([c], f)
      else (case fgets_chunk n f of (l, r) \<Rightarrow> (c # l, r)))"

definition store :: "char list \<Rightarrow> buf \<Rightarrow> buf" where
  "store l b = l @ nul # drop (Suc (length l)) b"

definition fgets :: "nat \<Rightarrow> char list \<Rightarrow> buf \<Rightarrow> (buf \<times> char list) option" where
  "fgets n f b = (if f = [] then None
     else (case fgets_chunk (n - 1) f of (l, r) \<Rightarrow> Some (store l b, r)))"

lemma fgets_chunk_append: "fgets_chunk n f = (l, r) \<Longrightarrow> f = l @ r"
  by (induction n f arbitrary: l r rule: fgets_chunk.induct) (auto split: if_splits prod.splits)

lemma fgets_chunk_length: "fgets_chunk n f = (l, r) \<Longrightarrow> length l \<le> n"
  by (induction n f arbitrary: l r rule: fgets_chunk.induct) (auto split: if_splits prod.splits)

lemma fgets_chunk_nonempty: "fgets_chunk (Suc n) (c # f) = (l, r) \<Longrightarrow> l \<noteq> []"
  by (auto split: if_splits prod.splits)

lemma fgets_chunk_shrinks:
  assumes "f \<noteq> []" and "\<not> n < 2" and "(l, r) = fgets_chunk (n - 1) f"
  shows "length r < length f"
proof -
  obtain m c f' where "n - 1 = Suc m" "f = c # f'"
    using assms(1,2) by (cases f; cases "n - 1") auto
  then have "l \<noteq> []" using assms(3) fgets_chunk_nonempty by metis
  then show ?thesis using fgets_chunk_append [OF assms(3) [symmetric]] by simp
qed

text \<open>All the lines a loop \<^verbatim>\<open>while (fgets(buf, n, fp) != NULL)\<close> sees, in order.\<close>

function fgets_all :: "nat \<Rightarrow> char list \<Rightarrow> char list list" where
  "fgets_all n f = (if f = [] \<or> n < 2 then []
     else (case fgets_chunk (n - 1) f of (l, r) \<Rightarrow> l # fgets_all n r))"
  by pat_completeness auto
termination
  by (relation "measure (\<lambda>(n, f). length f)") (auto intro: fgets_chunk_shrinks)

declare fgets_all.simps [simp del]

lemma fgets_all_Nil [simp]: "fgets_all n [] = []"
  by (simp add: fgets_all.simps)

lemma fgets_all_concat: "2 \<le> n \<Longrightarrow> concat (fgets_all n f) = f"
proof (induction n f rule: fgets_all.induct)
  case (1 n f)
  show ?case
  proof (cases "f = []")
    case False
    obtain l r where c: "fgets_chunk (n - 1) f = (l, r)" by fastforce
    have "concat (fgets_all n r) = r" using "1.IH" [OF _ c [symmetric]] False "1.prems" by simp
    then show ?thesis
      using False "1.prems" c fgets_chunk_append [OF c] by (subst fgets_all.simps) auto
  qed simp
qed

lemma fgets_all_length: "l \<in> set (fgets_all n f) \<Longrightarrow> length l < n"
proof (induction n f rule: fgets_all.induct)
  case (1 n f)
  then have ne: "\<not> (f = [] \<or> n < 2)" by (metis empty_iff empty_set fgets_all.simps)
  obtain k r where c: "fgets_chunk (n - 1) f = (k, r)" by fastforce
  have "l = k \<or> l \<in> set (fgets_all n r)"
    using "1.prems" ne c by (subst (asm) fgets_all.simps) auto
  then show ?case
    using "1.IH" [OF ne c [symmetric]] fgets_chunk_length [OF c] ne by auto
qed

text \<open>The loop itself: the body sees the buffer after each read.\<close>

fun line_loop :: "(buf \<Rightarrow> 's \<Rightarrow> 's) \<Rightarrow> char list list \<Rightarrow> buf \<Rightarrow> 's \<Rightarrow> 's" where
  "line_loop body [] b s = s"
| "line_loop body (l # ls) b s = line_loop body ls (store l b) (body (store l b) s)"

definition while_fgets :: "nat \<Rightarrow> (buf \<Rightarrow> 's \<Rightarrow> 's) \<Rightarrow> char list \<Rightarrow> buf \<Rightarrow> 's \<Rightarrow> 's" where
  "while_fgets n body f b s = line_loop body (fgets_all n f) b s"

text \<open>\<^verbatim>\<open>strncmp(a, key, strlen(key)) == 0\<close> for a C string in a buffer.\<close>

definition has_key :: "buf \<Rightarrow> string \<Rightarrow> bool" where
  "has_key b key \<longleftrightarrow> take (length key) (cstr b) = key"

text \<open>The C string that starts \<open>k\<close> bytes into a buffer.\<close>

definition str_at :: "buf \<Rightarrow> nat \<Rightarrow> string" where
  "str_at b k = cstr (drop k b)"

lemma takeWhile_terminated: "nul \<notin> set l \<Longrightarrow> takeWhile (\<lambda>c. c \<noteq> nul) (l @ nul # r) = l"
  by (induction l) auto

lemma cstr_store [simp]: "nul \<notin> set l \<Longrightarrow> cstr (store l b) = l"
  by (simp add: cstr_def store_def takeWhile_terminated)

lemma str_at_store: "nul \<notin> set l \<Longrightarrow> k \<le> length l \<Longrightarrow> str_at (store l b) k = drop k l"
  by (auto simp: str_at_def cstr_def store_def dest: in_set_dropD intro: takeWhile_terminated)

lemma has_key_store: "nul \<notin> set l \<Longrightarrow> has_key (store l b) key \<longleftrightarrow> prefix key l"
  unfolding has_key_def by (simp add: prefix_def) (metis append_eq_conv_conj take_eq_prefix)

section \<open>Integers in text\<close>

definition is_space :: "char \<Rightarrow> bool" where
  "is_space c \<longleftrightarrow> c = CHR '' '' \<or> (9 \<le> (of_char c :: nat) \<and> (of_char c :: nat) \<le> 13)"

definition isdigit :: "char \<Rightarrow> bool" where
  "isdigit c \<longleftrightarrow> 48 \<le> (of_char c :: nat) \<and> (of_char c :: nat) \<le> 57"

definition digit_val :: "char \<Rightarrow> nat" where
  "digit_val c = of_char c - 48"

definition digit_char :: "nat \<Rightarrow> char" where
  "digit_char d = char_of (48 + d)"

definition skip_ws :: "string \<Rightarrow> string" where
  "skip_ws s = dropWhile is_space s"

fun digits_val :: "nat \<Rightarrow> string \<Rightarrow> nat" where
  "digits_val a [] = a"
| "digits_val a (c # s) = digits_val (10 * a + digit_val c) s"

text \<open>An optional sign and at least one digit, after white space: sign, magnitude, rest.\<close>

definition scan_num :: "string \<Rightarrow> (bool \<times> nat \<times> string) option" where
  "scan_num s =
    (let t = skip_ws s;
         neg = (t \<noteq> [] \<and> hd t = CHR ''-'');
         u = (if t \<noteq> [] \<and> (hd t = CHR ''-'' \<or> hd t = CHR ''+'') then tl t else t);
         ds = takeWhile isdigit u
     in if ds = [] then None else Some (neg, digits_val 0 ds, dropWhile isdigit u))"

text \<open>The 64-bit results of \<^verbatim>\<open>strtoul\<close> and \<^verbatim>\<open>strtol\<close>.\<close>

definition strtoul_val :: "bool \<Rightarrow> nat \<Rightarrow> u64" where
  "strtoul_val neg m = (if m \<ge> 2 ^ 64 then - 1 else if neg then - of_nat m else of_nat m)"

definition strtol_val :: "bool \<Rightarrow> nat \<Rightarrow> u64" where
  "strtol_val neg m =
     (if neg then (if m > 2 ^ 63 then of_int (- (2 ^ 63)) else - of_nat m)
      else (if m \<ge> 2 ^ 63 then of_nat (2 ^ 63 - 1) else of_nat m))"

datatype sign = Signed | Unsigned

definition scan_int :: "sign \<Rightarrow> string \<Rightarrow> (u64 \<times> string) option" where
  "scan_int sg s = map_option (\<lambda>(neg, m, r).
     (if sg = Signed then strtol_val neg m else strtoul_val neg m, r)) (scan_num s)"

definition atol :: "string \<Rightarrow> c_long" where
  "atol s = (case scan_int Signed s of None \<Rightarrow> 0 | Some (v, r) \<Rightarrow> v)"

definition atoi :: "string \<Rightarrow> c_int" where
  "atoi s = ucast (atol s)"

section \<open>scanf\<close>

text \<open>
  A format is a list of directives: white space, a literal character, an integer conversion
  and a string conversion with a maximal width; a conversion marked \<open>False\<close> is suppressed
  (\<^verbatim>\<open>%*\<close>).  The result is the list of values assigned before the first failure.
\<close>

datatype directive = Ws | Lit char | IntC bool sign | StrC bool "nat option"

datatype sval = IntV u64 | StrV string

definition scan_str :: "nat option \<Rightarrow> string \<Rightarrow> (string \<times> string) option" where
  "scan_str w s =
    (let t = skip_ws s; all = takeWhile (\<lambda>c. \<not> is_space c) t;
         v = (case w of None \<Rightarrow> all | Some k \<Rightarrow> take k all)
     in if v = [] then None else Some (v, drop (length v) t))"

fun scanf :: "directive list \<Rightarrow> string \<Rightarrow> sval list" where
  "scanf [] s = []"
| "scanf (Ws # ds) s = scanf ds (skip_ws s)"
| "scanf (Lit c # ds) s =
     (case s of [] \<Rightarrow> [] | d # t \<Rightarrow> if c = d then scanf ds t else [])"
| "scanf (IntC asg sg # ds) s =
     (case scan_int sg s of None \<Rightarrow> []
      | Some (v, t) \<Rightarrow> (if asg then [IntV v] else []) @ scanf ds t)"
| "scanf (StrC asg w # ds) s =
     (case scan_str w s of None \<Rightarrow> []
      | Some (v, t) \<Rightarrow> (if asg then [StrV v] else []) @ scanf ds t)"

text \<open>\<open>n\<close> integer conversions one after the other: the values read before the first failure.\<close>

fun scan_ints :: "nat \<Rightarrow> sign \<Rightarrow> string \<Rightarrow> u64 list" where
  "scan_ints 0 sg s = []"
| "scan_ints (Suc n) sg s =
     (case scan_int sg s of None \<Rightarrow> [] | Some (v, t) \<Rightarrow> v # scan_ints n sg t)"

text \<open>
  An argument of a \<^verbatim>\<open>scanf\<close> call keeps its old value when the call did not get that far:
  the \<open>i\<close>-th assigned value, or the old one.
\<close>

definition arg :: "'a list \<Rightarrow> nat \<Rightarrow> 'a \<Rightarrow> 'a" where
  "arg vs i old = (if i < length vs then vs ! i else old)"

lemma arg_simps [simp]:
  "arg [] i old = old"
  "arg (v # vs) 0 old = v"
  "arg (v # vs) (Suc i) old = arg vs i old"
  by (simp_all add: arg_def)

text \<open>One conversion into a variable: \<^verbatim>\<open>%u\<close> and \<^verbatim>\<open>%d\<close> into 32 bits, \<^verbatim>\<open>%llu\<close> into 64.\<close>

definition scan_u32 :: "string \<Rightarrow> u32 \<Rightarrow> u32" where
  "scan_u32 s old = (case scan_int Unsigned s of None \<Rightarrow> old | Some (v, r) \<Rightarrow> ucast v)"

definition scan_d32 :: "string \<Rightarrow> u32 \<Rightarrow> u32" where
  "scan_d32 s old = (case scan_int Signed s of None \<Rightarrow> old | Some (v, r) \<Rightarrow> ucast v)"

definition scan_u64 :: "string \<Rightarrow> u64 \<Rightarrow> u64" where
  "scan_u64 s old = (case scan_int Unsigned s of None \<Rightarrow> old | Some (v, r) \<Rightarrow> v)"

section \<open>Decimal output\<close>

fun show_nat :: "nat \<Rightarrow> string" where
  "show_nat n = (if n < 10 then [digit_char n] else show_nat (n div 10) @ [digit_char (n mod 10)])"

declare show_nat.simps [simp del]

definition show_int :: "int \<Rightarrow> string" where
  "show_int i = (if i < 0 then CHR ''-'' # show_nat (nat (- i)) else show_nat (nat i))"

definition show_unsigned :: "'a::len word \<Rightarrow> string" where
  "show_unsigned w = show_nat (unat w)"

definition show_signed :: "'a::len word \<Rightarrow> string" where
  "show_signed w = show_int (sint w)"

definition pad_left :: "nat \<Rightarrow> char \<Rightarrow> string \<Rightarrow> string" where
  "pad_left w c s = replicate (w - length s) c @ s"

text \<open>\<^verbatim>\<open>%-Ws\<close>, and \<^verbatim>\<open>%*s\<close> with its width as an argument: a negative one pads on the right.\<close>

definition pad_right :: "nat \<Rightarrow> string \<Rightarrow> string" where
  "pad_right w s = s @ replicate (w - length s) (CHR '' '')"

definition pad_arg :: "int \<Rightarrow> string \<Rightarrow> string" where
  "pad_arg w s = (if w < 0 then pad_right (nat (- w)) s else pad_left (nat w) (CHR '' '') s)"

lemma length_pad_right [simp]: "length (pad_right w s) = max w (length s)"
  by (simp add: pad_right_def)

lemma length_pad_arg [simp]: "length (pad_arg w s) = max (nat \<bar>w\<bar>) (length s)"
  by (cases "w < 0") (auto simp: pad_arg_def pad_left_def)

text \<open>A format with at most one conversion \<open>%c\<close>, and the text its argument gives.\<close>

fun fmt1 :: "char \<Rightarrow> string \<Rightarrow> string \<Rightarrow> string" where
  "fmt1 c t [] = []"
| "fmt1 c t (a # s) = (if a = CHR ''%'' \<and> s \<noteq> [] \<and> hd s = c then t @ tl s else a # fmt1 c t s)"

text \<open>\<^verbatim>\<open>%W.Pf\<close>: the exact value rounded to \<open>p\<close> decimals, ties to even.\<close>

definition show_fixed :: "nat \<Rightarrow> rat \<Rightarrow> string" where
  "show_fixed p x =
    (let k = nat (rhe (\<bar>x\<bar> * 10 ^ p))
     in (if x < 0 then ''-'' else []) @ show_nat (k div 10 ^ p) @
        (if p = 0 then [] else ''.'' @ pad_left p (CHR ''0'') (show_nat (k mod 10 ^ p))))"

fun show_fp :: "nat \<Rightarrow> nat \<Rightarrow> fp \<Rightarrow> string" where
  "show_fp w p NaN = pad_left w (CHR '' '') ''-nan''"
| "show_fp w p PInf = pad_left w (CHR '' '') ''inf''"
| "show_fp w p NInf = pad_left w (CHR '' '') ''-inf''"
| "show_fp w p (Fin x) = pad_left w (CHR '' '') (show_fixed p x)"

section \<open>atof\<close>

text \<open>
  \<^verbatim>\<open>strtod\<close> on decimal texts: sign, digits, fraction, exponent.  The texts are columns of MySQL
  results, which are decimal; hexadecimal texts and the words for infinities are not read.
\<close>

definition scan_exp :: "string \<Rightarrow> int" where
  "scan_exp s =
    (if s \<noteq> [] \<and> (hd s = CHR ''e'' \<or> hd s = CHR ''E'')
       \<and> tl s \<noteq> [] \<and> \<not> is_space (hd (tl s))
     then (case scan_num (tl s) of None \<Rightarrow> 0 | Some (neg, m, r) \<Rightarrow> if neg then - int m else int m)
     else 0)"

definition dec_value :: "string \<Rightarrow> rat" where
  "dec_value s =
    (let t = skip_ws s;
         neg = (t \<noteq> [] \<and> hd t = CHR ''-'');
         u = (if t \<noteq> [] \<and> (hd t = CHR ''-'' \<or> hd t = CHR ''+'') then tl t else t);
         ip = takeWhile isdigit u; r = dropWhile isdigit u;
         fpart = (if r \<noteq> [] \<and> hd r = CHR ''.'' then takeWhile isdigit (tl r) else []);
         r' = (if r \<noteq> [] \<and> hd r = CHR ''.'' then dropWhile isdigit (tl r) else r);
         e = scan_exp r' - int (length fpart);
         m = of_nat (digits_val 0 (ip @ fpart));
         v = (if e < 0 then m / 10 ^ nat (- e) else m * 10 ^ nat e)
     in if ip @ fpart = [] then 0 else if neg then - v else v)"

definition atof :: "string \<Rightarrow> fp" where
  "atof s = fl f64 (dec_value s)"

section \<open>Reading back what was printed\<close>

lemma digit_char_facts:
  assumes "d < 10"
  shows "isdigit (digit_char d)" and "digit_val (digit_char d) = d"
    and "digit_char d \<noteq> CHR ''-''" and "digit_char d \<noteq> CHR ''+''" and "\<not> is_space (digit_char d)"
    and "digit_char d \<noteq> nul" and "digit_char d \<noteq> newline"
proof -
  have v: "(of_char (digit_char d) :: nat) = 48 + d" using assms by (simp add: digit_char_def)
  show "isdigit (digit_char d)" and "digit_val (digit_char d) = d"
    using v assms by (simp_all add: isdigit_def digit_val_def)
  have ne: "c \<noteq> digit_char d" if "(of_char c :: nat) < 48" for c using that v by auto
  show "digit_char d \<noteq> CHR ''-''" and "digit_char d \<noteq> CHR ''+''"
    and "digit_char d \<noteq> nul" and "digit_char d \<noteq> newline"
    using ne [of "CHR ''-''"] ne [of "CHR ''+''"] ne [of nul] ne [of newline] by auto
  show "\<not> is_space (digit_char d)"
    using v ne [of "CHR '' ''"] by (auto simp: is_space_def)
qed

lemma digit_char_vals [simp]:
  "digit_char 0 = CHR ''0''" "digit_char (Suc 0) = CHR ''1''" "digit_char 1 = CHR ''1''"
  "digit_char 2 = CHR ''2''" "digit_char 3 = CHR ''3''" "digit_char 4 = CHR ''4''"
  "digit_char 5 = CHR ''5''" "digit_char 6 = CHR ''6''" "digit_char 7 = CHR ''7''"
  "digit_char 8 = CHR ''8''" "digit_char 9 = CHR ''9''"
  by (simp_all add: digit_char_def char_of_def bit_Suc_0_iff)

lemma show_nat_nonempty [simp]: "show_nat n \<noteq> []"
  by (subst show_nat.simps) simp

lemma show_nat_set: "c \<in> set (show_nat n) \<Longrightarrow> \<exists>d<10. c = digit_char d"
proof (induction n rule: show_nat.induct)
  case (1 n)
  show ?case
  proof (cases "n < 10")
    case True
    then show ?thesis using "1.prems" by (subst (asm) show_nat.simps) auto
  next
    case False
    then show ?thesis using "1.prems" "1.IH"
      by (subst (asm) show_nat.simps) (auto intro: exI [of _ "n mod 10"])
  qed
qed

lemma show_nat_chars:
  assumes "c \<in> set (show_nat n)"
  shows "isdigit c" "c \<noteq> CHR ''-''" "c \<noteq> CHR ''+''" "\<not> is_space c" "c \<noteq> nul" "c \<noteq> newline"
  using show_nat_set [OF assms] digit_char_facts by auto

lemma digits_val_append: "digits_val a (s @ t) = digits_val (digits_val a s) t"
  by (induction s arbitrary: a) auto

lemma digits_val_show_nat [simp]: "digits_val 0 (show_nat n) = n"
proof (induction n rule: show_nat.induct)
  case (1 n)
  show ?case
  proof (cases "n < 10")
    case True
    then show ?thesis by (subst show_nat.simps) (simp add: digit_char_facts)
  next
    case False
    have "n mod 10 < 10" by simp
    with False "1.IH" show ?thesis
      by (subst show_nat.simps) (simp add: digits_val_append digit_char_facts)
  qed
qed

lemma show_nat_hd: "hd (show_nat n) \<in> set (show_nat n)"
  by (rule hd_in_set) simp

lemma takeWhile_show_nat:
  assumes "r = [] \<or> \<not> isdigit (hd r)"
  shows "takeWhile isdigit (show_nat n @ r) = show_nat n"
    and "dropWhile isdigit (show_nat n @ r) = r"
proof -
  have all: "\<And>c. c \<in> set (show_nat n) \<Longrightarrow> isdigit c" by (rule show_nat_chars)
  show "takeWhile isdigit (show_nat n @ r) = show_nat n"
    using all assms by (cases r) (auto simp: takeWhile_append2)
  show "dropWhile isdigit (show_nat n @ r) = r"
    using all assms by (cases r) (auto simp: dropWhile_append2)
qed

lemma skip_ws_append [simp]: "(\<And>c. c \<in> set ws \<Longrightarrow> is_space c) \<Longrightarrow> skip_ws (ws @ s) = skip_ws s"
  by (simp add: skip_ws_def dropWhile_append2)

lemma skip_ws_nonspace: "s = [] \<or> \<not> is_space (hd s) \<Longrightarrow> skip_ws s = s"
  by (cases s) (auto simp: skip_ws_def)

lemma scan_num_show_nat:
  assumes ws: "\<And>c. c \<in> set ws \<Longrightarrow> is_space c" and r: "r = [] \<or> \<not> isdigit (hd r)"
  shows "scan_num (ws @ show_nat n @ r) = Some (False, n, r)"
proof -
  let ?s = "show_nat n @ r"
  have hd: "hd ?s = hd (show_nat n)" by simp
  have "skip_ws (ws @ ?s) = ?s"
    using ws show_nat_chars(4) [OF show_nat_hd] by (simp add: skip_ws_nonspace hd)
  then show ?thesis
    using show_nat_chars(2,3) [OF show_nat_hd, of n] takeWhile_show_nat [OF r]
    by (simp add: scan_num_def Let_def hd)
qed

theorem scan_unsigned_show:
  fixes w :: u64
  assumes "\<And>c. c \<in> set ws \<Longrightarrow> is_space c" and "r = [] \<or> \<not> isdigit (hd r)"
  shows "scan_int Unsigned (ws @ show_unsigned w @ r) = Some (w, r)"
proof -
  have "unat w < 2 ^ LENGTH(64)" by (rule unsigned_less)
  then show ?thesis using scan_num_show_nat [OF assms, where n = "unat w"]
    by (simp add: scan_int_def show_unsigned_def strtoul_val_def)
qed

lemma scan_num_show_int:
  assumes ws: "\<And>c. c \<in> set ws \<Longrightarrow> is_space c" and r: "r = [] \<or> \<not> isdigit (hd r)" and "i < 0"
  shows "scan_num (ws @ show_int i @ r) = Some (True, nat (- i), r)"
proof -
  have "skip_ws (ws @ show_int i @ r) = show_int i @ r"
    using ws assms(3) by (subst skip_ws_append) (auto simp: show_int_def skip_ws_def is_space_def)
  then show ?thesis
    using takeWhile_show_nat [OF r] assms(3) by (simp add: scan_num_def Let_def show_int_def)
qed

theorem scan_signed_show:
  fixes w :: u64
  assumes "\<And>c. c \<in> set ws \<Longrightarrow> is_space c" and "r = [] \<or> \<not> isdigit (hd r)"
  shows "scan_int Signed (ws @ show_signed w @ r) = Some (w, r)"
proof -
  have b: "- (2 ^ 63) \<le> sint w" "sint w < 2 ^ 63"
    using sint_ge [of w] sint_lt [of w] by simp_all
  show ?thesis
  proof (cases "sint w < 0")
    case True
    have "of_int (sint w) = w" by simp
    then have "- (of_nat (nat (- sint w)) :: u64) = w" using True by simp
    moreover have "\<not> 2 ^ 63 < nat (- sint w)" using b by simp
    ultimately show ?thesis
      using scan_num_show_int [OF assms True]
      by (auto simp: scan_int_def show_signed_def strtol_val_def)
  next
    case False
    have "of_int (sint w) = w" by simp
    then have "(of_nat (nat (sint w)) :: u64) = w" using False by simp
    moreover have "\<not> 2 ^ 63 \<le> nat (sint w)" using b by simp
    ultimately show ?thesis
      using scan_num_show_nat [OF assms, where n = "nat (sint w)"] False
      by (simp add: scan_int_def show_signed_def show_int_def strtol_val_def)
  qed
qed

end
