(* ===== verification/ProcFile.thy ===== *)
theory ProcFile
  imports CLib
begin

text \<open>
  The text files of \<^verbatim>\<open>/proc\<close> and how they are read: files made of short lines, lines of the form
  \<^verbatim>\<open>Key: value rest\<close>, and rows of numbers.  The readers of \<^verbatim>\<open>/proc/meminfo\<close>, \<^verbatim>\<open>/proc/<pid>/smaps\<close>,
  \<^verbatim>\<open>/proc/<pid>/status\<close> and \<^verbatim>\<open>/proc/<pid>/io\<close> share one loop; the locale \<open>field_reader\<close> states what
  its body promises and derives what the whole loop computes.
\<close>

section \<open>Lines\<close>

definition unlines :: "string list \<Rightarrow> char list" where
  "unlines ls = concat (map (\<lambda>l. l @ [newline]) ls)"

text \<open>A line that one \<^verbatim>\<open>fgets\<close> of size \<open>n\<close> takes whole, and that is a C string.\<close>

definition plain :: "nat \<Rightarrow> string \<Rightarrow> bool" where
  "plain n l \<longleftrightarrow> nul \<notin> set l \<and> newline \<notin> set l \<and> length l + 1 < n"

lemma fgets_chunk_line:
  "newline \<notin> set l \<Longrightarrow> length l < n \<Longrightarrow> fgets_chunk n (l @ newline # r) = (l @ [newline], r)"
proof (induction l arbitrary: n)
  case Nil
  then show ?case by (cases n) auto
next
  case (Cons c l)
  then show ?case by (cases n) auto
qed

lemma fgets_line:
  "plain n l \<Longrightarrow> fgets n (l @ newline # r) b = Some (store (l @ [newline]) b, r)"
  using fgets_chunk_line [of l "n - 1" r] by (auto simp: fgets_def plain_def)

lemma fgets_all_unlines:
  "(\<And>l. l \<in> set ls \<Longrightarrow> plain n l) \<Longrightarrow> fgets_all n (unlines ls) = map (\<lambda>l. l @ [newline]) ls"
proof (induction ls)
  case Nil
  then show ?case by (simp add: unlines_def)
next
  case (Cons l ls)
  have p: "plain n l" and ih: "fgets_all n (unlines ls) = map (\<lambda>l. l @ [newline]) ls"
    using Cons by auto
  have e: "unlines (l # ls) = l @ newline # unlines ls" by (simp add: unlines_def)
  have "fgets_chunk (n - 1) (unlines (l # ls)) = (l @ [newline], unlines ls)"
    unfolding e using p by (intro fgets_chunk_line) (auto simp: plain_def)
  moreover have "\<not> (unlines (l # ls) = [] \<or> n < 2)" using p by (auto simp: e plain_def)
  ultimately show ?case using ih by (subst fgets_all.simps) simp
qed

section \<open>Lines with a key\<close>

text \<open>A key: a word that ends with its only colon.\<close>

definition field_key :: "string \<Rightarrow> bool" where
  "field_key k \<longleftrightarrow> k \<noteq> [] \<and> last k = CHR '':'' \<and> CHR '':'' \<notin> set (butlast k)"

lemma field_key_append: "field_key k \<Longrightarrow> takeWhile (\<lambda>c. c \<noteq> CHR '':'') (k @ r) @ '':'' = k"
proof -
  assume k: "field_key k"
  then obtain j where j: "k = j @ '':''" "CHR '':'' \<notin> set j"
    by (cases k rule: rev_cases) (auto simp: field_key_def)
  then show ?thesis by (simp add: takeWhile_append)
qed

lemma prefix_field_key: "field_key k \<Longrightarrow> field_key k' \<Longrightarrow> prefix k (k' @ r) \<longleftrightarrow> k = k'"
  by (auto simp: prefix_def) (metis field_key_append)

text \<open>A line: key, white space, value, rest.\<close>

type_synonym field = "string \<times> string \<times> u64 \<times> string"

fun field_line :: "field \<Rightarrow> string" where
  "field_line (k, sep, v, r) = k @ sep @ show_unsigned v @ r"

fun field_ok :: "nat \<Rightarrow> field \<Rightarrow> bool" where
  "field_ok n (k, sep, v, r) \<longleftrightarrow>
     field_key k \<and> plain n (k @ sep @ show_unsigned v @ r) \<and>
     sep \<noteq> [] \<and> (\<forall>c \<in> set sep. is_space c) \<and> unat v < 2 ^ 63 \<and> (r = [] \<or> \<not> isdigit (hd r))"

lemma field_plain: "field_ok n x \<Longrightarrow> plain n (field_line x)"
  by (cases x) simp

lemma scan_signed_small:
  fixes v :: u64
  assumes "\<And>c. c \<in> set ws \<Longrightarrow> is_space c" and "r = [] \<or> \<not> isdigit (hd r)" and "unat v < 2 ^ 63"
  shows "scan_int Signed (ws @ show_unsigned v @ r) = Some (v, r)"
  using scan_num_show_nat [OF assms(1,2), where n = "unat v"] assms(3)
  by (simp add: scan_int_def show_unsigned_def strtol_val_def)

text \<open>
  What a conversion finds behind the key of such a line, at once or one byte later.
\<close>

lemma field_has_key:
  "field_ok n (k', sep, v, r) \<Longrightarrow> field_key k \<Longrightarrow>
    has_key (store (field_line (k', sep, v, r) @ [newline]) b) k \<longleftrightarrow> k = k'"
  by (subst has_key_store) (auto simp: plain_def prefix_field_key)

lemma field_at:
  assumes "field_ok n (k, sep, v, r)"
  shows "str_at (store (field_line (k, sep, v, r) @ [newline]) b) (length k) =
      sep @ show_unsigned v @ r @ [newline]"
    and "str_at (store (field_line (k, sep, v, r) @ [newline]) b) (Suc (length k)) =
      tl sep @ show_unsigned v @ r @ [newline]"
  using assms by (subst str_at_store; force simp: plain_def neq_Nil_conv)+

lemma isdigit_newline: "\<not> isdigit newline"
  by (simp add: isdigit_def)

lemma field_scans:
  assumes "field_ok n (k, sep, v, r)"
  shows "scan_int sg (sep @ show_unsigned v @ r @ [newline]) = Some (v, r @ [newline])"
    and "scan_int sg (tl sep @ show_unsigned v @ r @ [newline]) = Some (v, r @ [newline])"
proof -
  have r: "r @ [newline] = [] \<or> \<not> isdigit (hd (r @ [newline]))"
    using assms isdigit_newline by (cases r) auto
  have v: "unat v < 2 ^ 63" using assms by simp
  have ws: "is_space c" if "c \<in> set sep" for c using assms that by auto
  then have ws': "is_space c" if "c \<in> set (tl sep)" for c
    using that by (cases sep) auto
  show "scan_int sg (sep @ show_unsigned v @ r @ [newline]) = Some (v, r @ [newline])"
    using ws r v by (cases sg) (auto intro: scan_signed_small scan_unsigned_show)
  show "scan_int sg (tl sep @ show_unsigned v @ r @ [newline]) = Some (v, r @ [newline])"
    using ws' r v by (cases sg) (auto intro: scan_signed_small scan_unsigned_show)
qed

lemma field_at_eq:
  assumes "field_ok n (k, sep, v, r)"
  shows "m = length k \<Longrightarrow> str_at (store (field_line (k, sep, v, r) @ [newline]) b) m =
      sep @ show_unsigned v @ r @ [newline]"
    and "m = Suc (length k) \<Longrightarrow> str_at (store (field_line (k, sep, v, r) @ [newline]) b) m =
      tl sep @ show_unsigned v @ r @ [newline]"
  using field_at [OF assms] by simp_all

lemmas field_facts = field_has_key field_at_eq field_scans

declare field_line.simps [simp del] field_ok.simps [simp del]

section \<open>The reading loop\<close>

text \<open>
  A loop body that only looks at lines with one of its keys, and only at the line itself when
  the line is complete (the rest of the buffer holds older lines).
\<close>

locale line_reader =
  fixes body :: "buf \<Rightarrow> 's \<Rightarrow> 's" and keys :: "string list"
  assumes body_skip: "(\<And>k. k \<in> set keys \<Longrightarrow> \<not> has_key b k) \<Longrightarrow> body b s = s"
begin

lemma loop_skip:
  assumes "\<And>l k. l \<in> set ls \<Longrightarrow> k \<in> set keys \<Longrightarrow> \<not> prefix k l" and "\<And>l. l \<in> set ls \<Longrightarrow> nul \<notin> set l"
  shows "line_loop body ls b s = s"
  using assms
proof (induction ls arbitrary: b)
  case Nil
  then show ?case by simp
next
  case (Cons l ls)
  have "body (store l b) s = s" using Cons.prems by (intro body_skip) (auto simp: has_key_store)
  then show ?case using Cons by simp
qed

lemma skip_all:
  assumes "\<And>l. l \<in> set ls \<Longrightarrow> plain n l" and "\<And>l k. l \<in> set ls \<Longrightarrow> k \<in> set keys \<Longrightarrow> \<not> prefix k (l @ [newline])"
  shows "while_fgets n body (unlines ls) b s = s"
  unfolding while_fgets_def using assms
  by (subst fgets_all_unlines) (auto intro!: loop_skip simp: plain_def)

end

locale field_reader = line_reader body keys
  for body :: "buf \<Rightarrow> 's \<Rightarrow> 's" and keys :: "string list" +
  fixes upd :: "string \<Rightarrow> u64 \<Rightarrow> 's \<Rightarrow> 's"
  assumes body_field: "field_ok n (k, sep, v, r) \<Longrightarrow> k \<in> set keys \<Longrightarrow>
      body (store (field_line (k, sep, v, r) @ [newline]) b) s = upd k v s"
    and keys_ok: "k \<in> set keys \<Longrightarrow> field_key k"
begin

definition upd_field :: "field \<Rightarrow> 's \<Rightarrow> 's" where
  "upd_field x = (case x of (k, sep, v, r) \<Rightarrow> if k \<in> set keys then upd k v else id)"

lemma body_line: "field_ok n x \<Longrightarrow> body (store (field_line x @ [newline]) b) s = upd_field x s"
proof -
  assume ok: "field_ok n x"
  obtain k sep v r where x: "x = (k, sep, v, r)" by (cases x) auto
  show ?thesis
  proof (cases "k \<in> set keys")
    case True
    then show ?thesis using ok body_field by (simp add: x upd_field_def del: field_line.simps)
  next
    case False
    have "\<not> has_key (store (field_line x @ [newline]) b) k'" if "k' \<in> set keys" for k'
      using field_has_key [OF ok [unfolded x] keys_ok [OF that]] that False by (auto simp: x)
    then show ?thesis using False by (subst body_skip) (auto simp: x upd_field_def)
  qed
qed

lemma loop_fields:
  "(\<And>x. x \<in> set xs \<Longrightarrow> field_ok n x) \<Longrightarrow>
    line_loop body (map (\<lambda>x. field_line x @ [newline]) xs) b s = fold upd_field xs s"
  by (induction xs arbitrary: b s) (simp_all add: body_line [of n])

text \<open>Reading a file of such lines applies the updates of its lines in order.\<close>

lemma read_fields:
  assumes "\<And>x. x \<in> set xs \<Longrightarrow> field_ok n x"
  shows "while_fgets n body (unlines (map field_line xs)) b s = fold upd_field xs s"
proof -
  have "plain n (field_line x)" if "x \<in> set xs" for x using assms [OF that] by (rule field_plain)
  then have "fgets_all n (unlines (map field_line xs)) = map (\<lambda>x. field_line x @ [newline]) xs"
    by (subst fgets_all_unlines) auto
  then show ?thesis using assms by (simp add: while_fgets_def loop_fields [of xs n])
qed

text \<open>A quantity that each update changes by an increment ends with the sum of the increments.\<close>

lemma fold_sum:
  fixes q :: "'s \<Rightarrow> 'b::comm_monoid_add"
  assumes "\<And>x s. q (upd_field x s) = q s + d x"
  shows "q (fold upd_field xs s) = q s + sum_list (map d xs)"
  by (induction xs arbitrary: s) (auto simp: assms add.assoc)

text \<open>A quantity that only the lines of one key set ends with the value of the last of them.\<close>

lemma fold_last:
  assumes "\<And>x s. q (upd_field x s) = (if fst x = k then c (fst (snd (snd x))) else q s)"
  shows "q (fold upd_field xs s) =
    (case filter (\<lambda>x. fst x = k) (rev xs) of [] \<Rightarrow> q s | x # _ \<Rightarrow> c (fst (snd (snd x))))"
  by (induction xs arbitrary: s rule: rev_induct) (auto simp: assms)

end

section \<open>First words\<close>

definition first_word :: "string \<Rightarrow> string" where
  "first_word s = takeWhile (\<lambda>c. \<not> is_space c) (skip_ws s)"

lemma scan_str_first_word:
  assumes "first_word s \<noteq> []" and "w = None \<or> (\<exists>k. w = Some (Suc k))"
  shows "\<exists>r. scan_str w s = Some (case w of None \<Rightarrow> first_word s | Some k \<Rightarrow> take k (first_word s), r)"
  using assms by (cases w) (auto simp: scan_str_def first_word_def Let_def)

lemma takeWhile_newline: "takeWhile (\<lambda>c. \<not> is_space c) (u @ [newline]) = takeWhile (\<lambda>c. \<not> is_space c) u"
  by (induction u) (auto simp: is_space_def)

lemma first_word_newline: "first_word s \<noteq> [] \<Longrightarrow> first_word (s @ [newline]) = first_word s"
proof -
  assume ne: "first_word s \<noteq> []"
  then have "skip_ws s \<noteq> []" by (auto simp: first_word_def)
  then have "skip_ws (s @ [newline]) = skip_ws s @ [newline]"
    unfolding skip_ws_def by (auto simp: dropWhile_append)
  then show ?thesis by (simp add: first_word_def takeWhile_newline)
qed

section \<open>Rows of numbers\<close>

definition num_row :: "u64 list \<Rightarrow> string" where
  "num_row vs = concat (map (\<lambda>v. '' '' @ show_unsigned v) vs)"

lemma scan_ints_num_row:
  assumes "r = [] \<or> \<not> isdigit (hd r)"
  shows "scan_ints (length vs) Unsigned (num_row vs @ r) = vs"
proof (induction vs)
  case (Cons v vs)
  have "scan_int Unsigned ('' '' @ show_unsigned v @ (num_row vs @ r)) = Some (v, num_row vs @ r)"
  proof (rule scan_unsigned_show)
    show "num_row vs @ r = [] \<or> \<not> isdigit (hd (num_row vs @ r))"
      using assms by (cases vs) (simp_all add: num_row_def isdigit_def)
  qed (simp add: is_space_def)
  then show ?case using Cons by (simp add: num_row_def)
qed (simp add: num_row_def)

lemma scan_ints_num_row_take:
  assumes "n \<le> length vs" and "r = [] \<or> \<not> isdigit (hd r)"
  shows "scan_ints n Unsigned (num_row vs @ r) = take n vs"
proof -
  have "num_row vs @ r = num_row (take n vs) @ num_row (drop n vs) @ r"
    unfolding append_assoc [symmetric]
    by (simp add: num_row_def flip: concat_append map_append)
  moreover have "num_row (drop n vs) @ r = [] \<or> \<not> isdigit (hd (num_row (drop n vs) @ r))"
    using assms(2) by (cases "drop n vs") (simp_all add: num_row_def isdigit_def)
  ultimately show ?thesis
    using scan_ints_num_row [of "num_row (drop n vs) @ r" "take n vs"] assms(1) by simp
qed

lemma scan_num_skip: "is_space c \<Longrightarrow> scan_num (c # s) = scan_num s"
  by (simp add: scan_num_def skip_ws_def)

lemma scan_ints_skip: "is_space c \<Longrightarrow> scan_ints n sg (c # s) = scan_ints n sg s"
  by (cases n) (simp_all add: scan_int_def scan_num_skip)

lemma show_nat_length: "0 < k \<Longrightarrow> n < 10 ^ k \<Longrightarrow> length (show_nat n) \<le> k"
proof (induction n arbitrary: k rule: show_nat.induct)
  case (1 n)
  show ?case
  proof (cases "n < 10")
    case True
    then show ?thesis using "1.prems" by (subst show_nat.simps) simp
  next
    case False
    then obtain j where j: "k = Suc j" "0 < j" using "1.prems" by (cases k; cases "k - 1") auto
    then have "n div 10 < 10 ^ j" using "1.prems" by (simp add: less_mult_imp_div_less mult.commute)
    then show ?thesis using "1.IH" [OF False, of j] False j by (subst show_nat.simps) simp
  qed
qed

lemma show_u64_length: "length (show_unsigned (v :: u64)) \<le> 20"
proof -
  have "unat v < 2 ^ LENGTH(64)" by (rule unsigned_less)
  then show ?thesis unfolding show_unsigned_def by (intro show_nat_length) simp_all
qed

lemma num_row_length: "length (num_row vs) \<le> 21 * length vs"
proof (induction vs)
  case (Cons v vs)
  have "length (num_row (v # vs)) = 1 + length (show_unsigned v) + length (num_row vs)"
    by (simp add: num_row_def)
  then show ?case using Cons show_u64_length [of v] by simp
qed (simp add: num_row_def)

lemma num_row_chars: "c \<in> set (num_row vs) \<Longrightarrow> c = CHR '' '' \<or> isdigit c"
  by (induction vs) (auto simp: num_row_def show_unsigned_def dest: show_nat_chars)

lemma num_row_plain: "nul \<notin> set (num_row vs)" "newline \<notin> set (num_row vs)"
  using num_row_chars [of nul vs] num_row_chars [of newline vs] by (auto simp: isdigit_def)

end
