(* ===== verification/Structs.thy ===== *)
theory Structs
  imports CLib
begin

text \<open>
  The data the program keeps: the per-process sample \<^verbatim>\<open>struct pid_stats\<close> of \<^verbatim>\<open>common.h\<close> with its
  three nested structs, and the database records of \<^verbatim>\<open>database.h\<close>.  Field names carry a prefix
  where two structs share one (\<^verbatim>\<open>pi_\<close> for \<^verbatim>\<open>process_info\<close>, \<^verbatim>\<open>si_\<close> for \<^verbatim>\<open>sys_info\<close>, \<^verbatim>\<open>de_\<close> and \<^verbatim>\<open>pe_\<close>
  for the energies).  Also the sizes of the energy structs under the LP64 layout rules.
\<close>

section \<open>Samples of a process\<close>

record dsk =
  rio :: u64
  rsz :: u64
  wio :: u64
  wsz :: u64
  cwsz :: u64
  dsk_cfuture :: "u64 list"

record net =
  tcpsnd :: u64
  tcpssz :: u64
  tcprcv :: u64
  tcprsz :: u64
  udpsnd :: u64
  udpssz :: u64
  udprcv :: u64
  udprsz :: u64
  rawsnd :: u64
  rawrcv :: u64
  net_cfuture :: "u64 list"
  totalnetsnd :: u64
  totalnetrcv :: u64

record memory =
  memory_used :: u64
  total_active :: u64
  cpu_accesses :: u64

record pid_stats =
  read_bytes :: u64
  write_bytes :: u64
  cancelled_write_bytes :: u64
  total_vsz :: u64
  total_rss :: u64
  minflt :: u32
  cminflt :: u32
  majflt :: u32
  cmajflt :: u32
  utime :: u64
  cutime :: u64
  stime :: u64
  cstime :: u64
  gtime :: u64
  cgtime :: u64
  vsz :: u32
  rss :: u32
  nvcsw :: u32
  nivcsw :: u32
  processor :: u32
  pid :: u32
  comm :: string
  dsk :: dsk
  net :: net
  mem :: memory

text \<open>\<^verbatim>\<open>memset(p, 0, sizeof(struct pid_stats))\<close>.\<close>

definition zero_pid_stats :: pid_stats where
  "zero_pid_stats =
    \<lparr>read_bytes = 0, write_bytes = 0, cancelled_write_bytes = 0, total_vsz = 0, total_rss = 0,
     minflt = 0, cminflt = 0, majflt = 0, cmajflt = 0,
     utime = 0, cutime = 0, stime = 0, cstime = 0, gtime = 0, cgtime = 0,
     vsz = 0, rss = 0, nvcsw = 0, nivcsw = 0, processor = 0, pid = 0, comm = [],
     dsk = \<lparr>rio = 0, rsz = 0, wio = 0, wsz = 0, cwsz = 0, dsk_cfuture = replicate 4 0\<rparr>,
     net = \<lparr>tcpsnd = 0, tcpssz = 0, tcprcv = 0, tcprsz = 0, udpsnd = 0, udpssz = 0,
            udprcv = 0, udprsz = 0, rawsnd = 0, rawrcv = 0, net_cfuture = replicate 4 0,
            totalnetsnd = 0, totalnetrcv = 0\<rparr>,
     mem = \<lparr>memory_used = 0, total_active = 0, cpu_accesses = 0\<rparr>\<rparr>"

section \<open>Database records\<close>

record device_energy =
  de_time :: c_long
  de_ecpu :: fp
  de_emem :: fp
  de_enet :: fp
  de_edisk :: fp

record process_energy =
  pe_pid :: c_int
  pe_time :: c_long
  pe_ecpu :: fp
  pe_emem :: fp
  pe_enet :: fp
  pe_edisk :: fp
  pe_cmdline :: string

record process_info =
  pi_read_bytes :: fp
  pi_write_bytes :: fp
  pi_cancelled_write_bytes :: fp
  pi_vsz :: u32
  pi_rss :: u32
  pi_mem :: fp
  pi_minflt :: fp
  pi_majflt :: fp
  pi_utime :: fp
  pi_stime :: fp
  pi_gtime :: fp
  pi_cpu :: fp
  pi_cswch :: fp
  pi_nvcswch :: fp
  pi_pid :: u32
  pi_time :: u32
  pi_cmdline :: "string option"   \<comment> \<open>a \<^verbatim>\<open>char *\<close>, None for NULL\<close>
  pi_netsnd :: fp
  pi_netrcv :: fp
  pi_ratio :: fp
  pi_cpu_accesses :: u64

record sys_info =
  si_time :: u32
  si_totalnetsnd :: u64
  si_totalnetrcv :: u64
  si_totaldiskread :: u64
  si_totaldiskwrite :: u64
  si_cpupower :: fp
  si_memaccess :: u64
  si_itv :: u32
  si_runtime :: u32
  si_active_process_num :: c_int

definition zero_process_info :: process_info where
  "zero_process_info =
    \<lparr>pi_read_bytes = 0, pi_write_bytes = 0, pi_cancelled_write_bytes = 0, pi_vsz = 0, pi_rss = 0,
     pi_mem = 0, pi_minflt = 0, pi_majflt = 0, pi_utime = 0, pi_stime = 0, pi_gtime = 0,
     pi_cpu = 0, pi_cswch = 0, pi_nvcswch = 0, pi_pid = 0, pi_time = 0, pi_cmdline = None,
     pi_netsnd = 0, pi_netrcv = 0, pi_ratio = 0, pi_cpu_accesses = 0\<rparr>"

definition zero_sys_info :: sys_info where
  "zero_sys_info =
    \<lparr>si_time = 0, si_totalnetsnd = 0, si_totalnetrcv = 0, si_totaldiskread = 0,
     si_totaldiskwrite = 0, si_cpupower = 0, si_memaccess = 0, si_itv = 0, si_runtime = 0,
     si_active_process_num = 0\<rparr>"

definition zero_device_energy :: device_energy where
  "zero_device_energy =
    \<lparr>de_time = 0, de_ecpu = 0, de_emem = 0, de_enet = 0, de_edisk = 0\<rparr>"

section \<open>Sizes\<close>

text \<open>
  The size of a struct from the size and alignment of its members in order: each member starts
  at the next multiple of its alignment, and the whole is padded to the largest one.
\<close>

definition align_up :: "nat \<Rightarrow> nat \<Rightarrow> nat" where
  "align_up n a = ((n + a - 1) div a) * a"

definition struct_size :: "(nat \<times> nat) list \<Rightarrow> nat" where
  "struct_size ms =
    align_up (fold (\<lambda>(sz, al) off. align_up off al + sz) ms 0) (fold (max \<circ> snd) ms 1)"

abbreviation sz_int :: "nat \<times> nat" where "sz_int \<equiv> (4, 4)"
abbreviation sz_long :: "nat \<times> nat" where "sz_long \<equiv> (8, 8)"
abbreviation sz_float :: "nat \<times> nat" where "sz_float \<equiv> (4, 4)"
abbreviation sz_ptr :: "nat \<times> nat" where "sz_ptr \<equiv> (8, 8)"

definition DEVICE_ENERGY_SIZE :: nat where
  "DEVICE_ENERGY_SIZE = struct_size [sz_long, sz_float, sz_float, sz_float, sz_float]"

definition PROCESS_ENERGY_SIZE :: nat where
  "PROCESS_ENERGY_SIZE =
    struct_size [sz_int, sz_long, sz_float, sz_float, sz_float, sz_float, sz_ptr]"

lemma DEVICE_ENERGY_SIZE [simp]: "DEVICE_ENERGY_SIZE = 24"
  by (simp add: DEVICE_ENERGY_SIZE_def struct_size_def align_up_def)

lemma PROCESS_ENERGY_SIZE [simp]: "PROCESS_ENERGY_SIZE = 40"
  by (simp add: PROCESS_ENERGY_SIZE_def struct_size_def align_up_def)

end
