(* ===== verification/Common.thy ===== *)
theory Common
  imports Structs
begin

text \<open>
  \<^verbatim>\<open>common.c\<close>: subtraction of kernel counters, the page shift, the clock rate, the window height
  and the partition count.  What the system answers (\<^verbatim>\<open>sysconf\<close>, \<^verbatim>\<open>ioctl\<close>, the directory, the
  time zone) is an argument.
\<close>

section \<open>Counter differences\<close>

definition MAXU32VAL :: u32 where "MAXU32VAL = 0x11111111"
definition MAXU64VAL :: u64 where "MAXU64VAL = 0x1111111111111111"

definition subcount :: "u32 \<Rightarrow> u32 \<Rightarrow> u32" where
  "subcount newval oldval =
    (if newval \<ge> oldval then newval - oldval else (MAXU32VAL - oldval) + newval)"

definition u64_subcount :: "u64 \<Rightarrow> u64 \<Rightarrow> u64" where
  "u64_subcount newval oldval =
    (if newval \<ge> oldval then newval - oldval else (MAXU64VAL - oldval) + newval)"

text \<open>The differences between consecutive samples of a counter.\<close>

fun deltas :: "('a \<Rightarrow> 'a \<Rightarrow> 'b) \<Rightarrow> 'a \<Rightarrow> 'a list \<Rightarrow> 'b list" where
  "deltas sub x [] = []"
| "deltas sub x (y # ys) = sub y x # deltas sub y ys"

text \<open>
  What the callers rely on: while the counter has not gone back, the difference is the
  increment.  Then nothing is lost or counted twice over any number of samples.
\<close>

locale counter_delta =
  fixes sub :: "'a::len word \<Rightarrow> 'a word \<Rightarrow> 'a word"
  assumes sub_ge: "old \<le> new \<Longrightarrow> sub new old = new - old"
begin

lemma sub_self: "sub x x = 0"
  by (simp add: sub_ge)

lemma unat_sub_ge: "old \<le> new \<Longrightarrow> unat (sub new old) = unat new - unat old"
  by (simp add: sub_ge unat_sub)

lemma sub_le: "old \<le> new \<Longrightarrow> sub new old \<le> new"
  by (simp add: word_le_nat_alt unat_sub_ge)

lemma sub_pos: "old \<le> new \<Longrightarrow> sub new old = 0 \<longleftrightarrow> new = old"
  by (simp add: sub_ge)

lemma deltas_telescope:
  assumes "sorted (x # xs)"
  shows "sum_list (map unat (deltas sub x xs)) = unat (last (x # xs)) - unat x"
  using assms
proof (induction xs arbitrary: x)
  case Nil
  then show ?case by simp
next
  case (Cons y ys)
  have xy: "x \<le> y" and s: "sorted (y # ys)" using Cons.prems by simp_all
  have "y \<le> last (y # ys)" using s by (cases ys rule: rev_cases) auto
  then show ?case
    using Cons.IH [OF s] unat_sub_ge [OF xy] xy by (simp add: word_le_nat_alt)
qed

end

interpretation u32c: counter_delta subcount
  by unfold_locales (simp add: subcount_def)

interpretation u64c: counter_delta u64_subcount
  by unfold_locales (simp add: u64_subcount_def)

lemma subcount_back:
  "newval < oldval \<Longrightarrow> subcount newval oldval = (newval - oldval) + MAXU32VAL"
  by (auto simp: subcount_def not_le [symmetric])

lemma u64_subcount_back:
  "newval < oldval \<Longrightarrow> u64_subcount newval oldval = (newval - oldval) + MAXU64VAL"
  by (auto simp: u64_subcount_def not_le [symmetric])

section \<open>Pages and ticks\<close>

text \<open>\<^verbatim>\<open>while (size > 1) { shift++; size >>= 1; }\<close> on a \<^verbatim>\<open>long\<close>, where \<^verbatim>\<open>>>=\<close> is arithmetic.\<close>

fun kb_shift_loop :: "int \<Rightarrow> int \<Rightarrow> int" where
  "kb_shift_loop shift sz =
    (if sz > 1 then kb_shift_loop (shift + 1) (sz div 2) else shift)"

declare kb_shift_loop.simps [simp del]

definition get_kb_shift :: "int \<Rightarrow> u32" where
  "get_kb_shift page_size = word_of_int (kb_shift_loop 0 (page_size div 2 ^ 10))"

definition get_HZ :: "int \<Rightarrow> u32" where
  "get_HZ ticks = word_of_int ticks"

definition PG_TO_KB :: "u32 \<Rightarrow> u32 \<Rightarrow> u32" where
  "PG_TO_KB kb_shift k = push_bit (unat kb_shift) k"

lemma kb_shift_loop_bounds:
  assumes "1 \<le> sz"
  shows "shift \<le> kb_shift_loop shift sz \<and>
    2 ^ nat (kb_shift_loop shift sz - shift) \<le> sz \<and>
    sz < 2 ^ (nat (kb_shift_loop shift sz - shift) + 1)"
  using assms
proof (induction shift sz rule: kb_shift_loop.induct)
  case (1 shift sz)
  show ?case
  proof (cases "sz > 1")
    case True
    define r where "r = kb_shift_loop (shift + 1) (sz div 2)"
    have ih: "shift + 1 \<le> r" "2 ^ nat (r - (shift + 1)) \<le> sz div 2"
      "sz div 2 < 2 ^ (nat (r - (shift + 1)) + 1)"
      using "1.IH" True unfolding r_def by simp_all
    have n: "nat (r - shift) = Suc (nat (r - (shift + 1)))" using ih(1) by simp
    have "kb_shift_loop shift sz = r"
      using True unfolding r_def by (subst kb_shift_loop.simps) simp
    moreover have "2 ^ nat (r - shift) \<le> sz"
      unfolding n power_Suc using ih(2) by linarith
    moreover have "sz < 2 ^ (nat (r - shift) + 1)"
      unfolding n using ih(3) by simp
    ultimately show ?thesis using ih(1) by simp
  next
    case False
    then have "kb_shift_loop shift sz = shift" by (subst kb_shift_loop.simps) simp
    then show ?thesis using False "1.prems" by simp
  qed
qed

lemma get_kb_shift_bounds:
  assumes "2 ^ 10 \<le> ps" and "ps < 2 ^ 63"
  shows "2 ^ (10 + unat (get_kb_shift ps)) \<le> ps \<and> ps < 2 ^ (11 + unat (get_kb_shift ps))"
proof -
  define r where "r = kb_shift_loop 0 (ps div 2 ^ 10)"
  have "1 \<le> ps div 2 ^ 10" using assms(1) by simp
  from kb_shift_loop_bounds [OF this, of 0]
  have r: "0 \<le> r" "2 ^ nat r \<le> ps div 2 ^ 10" "ps div 2 ^ 10 < 2 ^ (nat r + 1)"
    unfolding r_def by simp_all
  have "(2::int) ^ nat r < 2 ^ 53" using r(2) assms(2) by simp
  then have "nat r < 53" by (rule power_less_imp_less_exp [rotated]) simp
  then have "uint (word_of_int r :: u32) = r" using r(1) by (simp add: uint_word_of_int)
  then have u: "unat (get_kb_shift ps) = nat r"
    unfolding get_kb_shift_def r_def [symmetric] by (simp add: unat_eq_nat_uint)
  have "2 ^ nat r * 1024 \<le> ps" "ps < 2 ^ (nat r + 1) * 1024" using r(2,3) by simp_all
  then show ?thesis by (simp add: u power_add)
qed

section \<open>Terminal, clock and block devices\<close>

text \<open>\<^verbatim>\<open>ioctl\<close> gives the number of rows, or fails.\<close>

definition get_win_height :: "nat option \<Rightarrow> int" where
  "get_win_height ws_row =
    (case ws_row of None \<Rightarrow> 3600 * 24
     | Some r \<Rightarrow> if r > 2 then int r - 2 else 3600 * 24)"

text \<open>\<^verbatim>\<open>localtime\<close> gives a \<^verbatim>\<open>struct tm\<close>, or NULL, which the code dereferences.\<close>

definition get_localtime :: "c_long \<Rightarrow> (c_long \<Rightarrow> 'tm option) \<Rightarrow> ('tm \<times> c_long) res" where
  "get_localtime timer localtime =
    (case localtime timer of None \<Rightarrow> Inl (Undefined NullDeref)
     | Some ltm \<Rightarrow> Inr (ltm, timer))"

definition MAX_PF_NAME :: nat where "MAX_PF_NAME = 1024"

text \<open>\<^verbatim>\<open>snprintf(dst, n, ...)\<close> keeps the first \<open>n - 1\<close> characters.\<close>

definition snprintf :: "nat \<Rightarrow> string \<Rightarrow> string" where
  "snprintf n s = take (n - 1) s"

text \<open>
  \<^verbatim>\<open>get_dev_part_nr\<close>: \<open>opendir\<close> gives the entries of a directory, \<open>readable\<close> is \<^verbatim>\<open>access(., R_OK)\<close>.
\<close>

fun count_parts :: "(string \<Rightarrow> bool) \<Rightarrow> string \<Rightarrow> string list \<Rightarrow> int \<Rightarrow> int" where
  "count_parts readable dfile [] part = part"
| "count_parts readable dfile (d # ds) part =
    (if d = ''.'' \<or> d = ''..'' then count_parts readable dfile ds part
     else if readable (snprintf MAX_PF_NAME (dfile @ ''/'' @ d @ ''/stat''))
     then count_parts readable dfile ds (part + 1)
     else count_parts readable dfile ds part)"

definition get_dev_part_nr ::
  "(string \<Rightarrow> string list option) \<Rightarrow> (string \<Rightarrow> bool) \<Rightarrow> string \<Rightarrow> int" where
  "get_dev_part_nr opendir readable dev_name =
    (let dfile = snprintf MAX_PF_NAME (''/sys/block/'' @ dev_name)
     in case opendir dfile of None \<Rightarrow> 0
        | Some ds \<Rightarrow> count_parts readable dfile ds 0)"

lemma count_parts_filter:
  "count_parts readable dfile ds part = part + int (length (filter
     (\<lambda>d. d \<noteq> ''.'' \<and> d \<noteq> ''..'' \<and> readable (snprintf MAX_PF_NAME (dfile @ ''/'' @ d @ ''/stat''))) ds))"
  by (induction ds arbitrary: part) auto

section \<open>Properties\<close>

lemma eq_plus_word: "(a :: 'a::len word) = a + b \<longleftrightarrow> b = 0"
  by (metis add_cancel_left_right)

text \<open>C24: the difference of two readings of a counter is the true increment (modulo the width) exactly
  when the counter has not gone back; after a wrap-around it is too large by the constant, which is
  not the maximum of the type (its hexadecimal digits are ones where F was meant).  As long as no
  wrap-around happens, the differences of any number of samples add up to the whole increment.\<close>

theorem counter_differences:
  "(subcount new1 old1 = new1 - old1 \<longleftrightarrow> old1 \<le> new1) \<and>
   (u64_subcount new2 old2 = new2 - old2 \<longleftrightarrow> old2 \<le> new2) \<and>
   (new1 < old1 \<longrightarrow> subcount new1 old1 = (new1 - old1) + 0x11111111) \<and>
   (new2 < old2 \<longrightarrow> u64_subcount new2 old2 = (new2 - old2) + 0x1111111111111111) \<and>
   (sorted (x # xs) \<longrightarrow> sum_list (map unat (deltas u64_subcount x xs)) = unat (last (x # xs)) - unat x)"
proof (intro conjI impI)
  show "subcount new1 old1 = new1 - old1 \<longleftrightarrow> old1 \<le> new1"
    using subcount_back [of new1 old1] u32c.sub_ge [of old1 new1] eq_plus_word [of "new1 - old1" MAXU32VAL]
    by (cases "old1 \<le> new1") (auto simp: MAXU32VAL_def not_le)
  show "u64_subcount new2 old2 = new2 - old2 \<longleftrightarrow> old2 \<le> new2"
    using u64_subcount_back [of new2 old2] u64c.sub_ge [of old2 new2] eq_plus_word [of "new2 - old2" MAXU64VAL]
    by (cases "old2 \<le> new2") (auto simp: MAXU64VAL_def not_le)
  show "subcount new1 old1 = (new1 - old1) + 0x11111111" if "new1 < old1"
    using subcount_back [OF that] by (simp add: MAXU32VAL_def)
  show "u64_subcount new2 old2 = (new2 - old2) + 0x1111111111111111" if "new2 < old2"
    using u64_subcount_back [OF that] by (simp add: MAXU64VAL_def)
  show "sum_list (map unat (deltas u64_subcount x xs)) = unat (last (x # xs)) - unat x" if "sorted (x # xs)"
    using u64c.deltas_telescope [OF that] .
qed

theorem counter_differences_witness:
  "subcount 5 7 = - 2 + 0x11111111 \<and> u64_subcount 1 2 = - 1 + 0x1111111111111111 \<and>
   sum_list (map unat (deltas u64_subcount 3 [4, 9, 12])) = 9"
  using counter_differences [of 5 7 1 2 3 "[4, 9, 12]"] by simp



end
