(* ===== verification/Avltree.thy ===== *)
theory Avltree
  imports Common "HOL-Library.Multiset"
begin

text \<open>
  \<^verbatim>\<open>avltree.c\<close>: the AVL tree that keeps, per process id, a performance-counter descriptor and two
  samples.  The C code never copies a node's contents to another node, so a \<^verbatim>\<open>Position\<close> (a pointer
  to a node) is the node's key, and a write through it is \<open>update_at\<close>.  Whether each of the three
  \<^verbatim>\<open>malloc\<close> calls of an insertion succeeds is an argument.
\<close>

section \<open>Data\<close>

type_synonym samples = "pid_stats option \<times> pid_stats option"

datatype avl =
    NULL
  | AvlNode int int avl avl int samples
    \<comment> \<open>Element, fd, Left, Right, Height, pst_list\<close>

definition pst_get :: "nat \<Rightarrow> samples \<Rightarrow> pid_stats option" where
  "pst_get i p = (if i = 0 then fst p else snd p)"

definition pst_set :: "nat \<Rightarrow> pid_stats option \<Rightarrow> samples \<Rightarrow> samples" where
  "pst_set i v p = (if i = 0 then (v, snd p) else (fst p, v))"

section \<open>Operations\<close>

text \<open>\<^verbatim>\<open>sfree_pid\<close> frees what \<^verbatim>\<open>salloc_pid\<close> allocated and forgets the pointers.\<close>

definition sfree_pid :: "samples \<Rightarrow> samples" where
  "sfree_pid p = (None, None)"

text \<open>\<^verbatim>\<open>empty\<close>: the descriptors it closes, in the order of the \<^verbatim>\<open>close\<close> calls, and NULL.\<close>

fun empty_avl :: "avl \<Rightarrow> avl \<times> int list" where
  "empty_avl NULL = (NULL, [])"
| "empty_avl (AvlNode e f l r h p) =
     (NULL, snd (empty_avl l) @ snd (empty_avl r) @ (if f > 0 then [f] else []))"

fun find_avl :: "int \<Rightarrow> avl \<Rightarrow> avl" where
  "find_avl x NULL = NULL"
| "find_avl x (AvlNode e f l r h p) =
     (if x < e then find_avl x l
      else if x > e then find_avl x r
      else AvlNode e f l r h p)"

fun height :: "avl \<Rightarrow> int" where
  "height NULL = -1"
| "height (AvlNode e f l r h p) = h"

definition Max_int :: "int \<Rightarrow> int \<Rightarrow> int" where
  "Max_int Lhs Rhs = (if Lhs > Rhs then Lhs else Rhs)"

fun SingleRotateWithLeft :: "avl \<Rightarrow> avl res" where
  "SingleRotateWithLeft (AvlNode k2 f2 (AvlNode k1 f1 a b h1 p1) c h2 p2) =
     (let h2' = Max_int (height b) (height c) + 1;
          h1' = Max_int (height a) h2' + 1
      in Inr (AvlNode k1 f1 a (AvlNode k2 f2 b c h2' p2) h1' p1))"
| "SingleRotateWithLeft t = Inl (Undefined NullDeref)"

fun SingleRotateWithRight :: "avl \<Rightarrow> avl res" where
  "SingleRotateWithRight (AvlNode k1 f1 a (AvlNode k2 f2 b c h2 p2) h1 p1) =
     (let h1' = Max_int (height a) (height b) + 1;
          h2' = Max_int (height c) h1' + 1
      in Inr (AvlNode k2 f2 (AvlNode k1 f1 a b h1' p1) c h2' p2))"
| "SingleRotateWithRight t = Inl (Undefined NullDeref)"

fun DoubleRotateWithLeft :: "avl \<Rightarrow> avl res" where
  "DoubleRotateWithLeft NULL = Inl (Undefined NullDeref)"
| "DoubleRotateWithLeft (AvlNode k f l r h p) =
     bindR (SingleRotateWithRight l) (\<lambda>l'. SingleRotateWithLeft (AvlNode k f l' r h p))"

fun DoubleRotateWithRight :: "avl \<Rightarrow> avl res" where
  "DoubleRotateWithRight NULL = Inl (Undefined NullDeref)"
| "DoubleRotateWithRight (AvlNode k f l r h p) =
     bindR (SingleRotateWithLeft r) (\<lambda>r'. SingleRotateWithRight (AvlNode k f l r' h p))"

text \<open>
  \<^verbatim>\<open>salloc_pid\<close> allocates and clears the two samples, or leaves the program.  The node itself is
  cleared before its pointer is tested, so a failed allocation of it writes through NULL.
\<close>

definition salloc_pid :: "(nat \<Rightarrow> bool) \<Rightarrow> samples res" where
  "salloc_pid malloc_ok =
    (if \<not> malloc_ok 1 then Inl (Exit 4)
     else if \<not> malloc_ok 2 then Inl (Exit 4)
     else Inr (Some zero_pid_stats, Some zero_pid_stats))"

definition new_node :: "(nat \<Rightarrow> bool) \<Rightarrow> int \<Rightarrow> int \<Rightarrow> avl res" where
  "new_node malloc_ok x fd =
    (if \<not> malloc_ok 0 then Inl (Undefined NullDeref)
     else bindR (salloc_pid malloc_ok) (\<lambda>p. Inr (AvlNode x fd NULL NULL 0 p)))"

fun element :: "avl \<Rightarrow> int res" where
  "element NULL = Inl (Undefined NullDeref)"
| "element (AvlNode e f l r h p) = Inr e"

fun set_height :: "avl \<Rightarrow> avl res" where
  "set_height NULL = Inl (Undefined NullDeref)"
| "set_height (AvlNode e f l r h p) =
     Inr (AvlNode e f l r (Max_int (height l) (height r) + 1) p)"

text \<open>
  \<^verbatim>\<open>insert\<close>: the new tree, and the node \<^verbatim>\<open>*np\<close> points to, None where it is left alone (the key was
  there already).
\<close>

fun insert_avl :: "(nat \<Rightarrow> bool) \<Rightarrow> int \<Rightarrow> int \<Rightarrow> avl \<Rightarrow> (avl \<times> int option) res" where
  "insert_avl malloc_ok x fd NULL =
     bindR (new_node malloc_ok x fd) (\<lambda>n. bindR (set_height n) (\<lambda>n'. Inr (n', Some x)))"
| "insert_avl malloc_ok x fd (AvlNode e f l r h p) =
     (if x < e then
        bindR (insert_avl malloc_ok x fd l) (\<lambda>(l', np).
        bindR (if height l' - height r = 2 then
                 bindR (element l') (\<lambda>le.
                   if x < le then SingleRotateWithLeft (AvlNode e f l' r h p)
                   else DoubleRotateWithLeft (AvlNode e f l' r h p))
               else Inr (AvlNode e f l' r h p)) (\<lambda>t.
        bindR (set_height t) (\<lambda>t'. Inr (t', np))))
      else if x > e then
        bindR (insert_avl malloc_ok x fd r) (\<lambda>(r', np).
        bindR (if height r' - height l = 2 then
                 bindR (element r') (\<lambda>re.
                   if x > re then SingleRotateWithRight (AvlNode e f l r' h p)
                   else DoubleRotateWithRight (AvlNode e f l r' h p))
               else Inr (AvlNode e f l r' h p)) (\<lambda>t.
        bindR (set_height t) (\<lambda>t'. Inr (t', np))))
      else bindR (set_height (AvlNode e f l r h p)) (\<lambda>t'. Inr (t', None)))"

definition delete_avl :: "int \<Rightarrow> avl \<Rightarrow> avl" where
  "delete_avl x t = t"

text \<open>\<^verbatim>\<open>clear_position\<close> on a node's descriptor: the new descriptor and what is closed.\<close>

definition clear_position :: "int \<Rightarrow> int \<times> int list" where
  "clear_position fd = (-1, if fd > 0 then [fd] else [])"

text \<open>A write through a \<^verbatim>\<open>Position\<close>: descriptor and samples of the node with that key.\<close>

fun update_at :: "int \<Rightarrow> (int \<times> samples \<Rightarrow> int \<times> samples) \<Rightarrow> avl \<Rightarrow> avl" where
  "update_at x g NULL = NULL"
| "update_at x g (AvlNode e f l r h p) =
     (if x < e then AvlNode e f (update_at x g l) r h p
      else if x > e then AvlNode e f l (update_at x g r) h p
      else AvlNode e (fst (g (f, p))) l r h (snd (g (f, p))))"

section \<open>Invariant and abstraction\<close>

text \<open>The true height, the keys with their contents in order, and the map the tree stands for.\<close>

fun ht :: "avl \<Rightarrow> int" where
  "ht NULL = -1"
| "ht (AvlNode e f l r h p) = max (ht l) (ht r) + 1"

fun entries :: "avl \<Rightarrow> (int \<times> int \<times> samples) list" where
  "entries NULL = []"
| "entries (AvlNode e f l r h p) = entries l @ (e, f, p) # entries r"

definition keys :: "avl \<Rightarrow> int set" where
  "keys t = fst ` set (entries t)"

fun ordered :: "avl \<Rightarrow> bool" where
  "ordered NULL = True"
| "ordered (AvlNode e f l r h p) =
     ((\<forall>k \<in> keys l. k < e) \<and> (\<forall>k \<in> keys r. e < k) \<and> ordered l \<and> ordered r)"

fun balanced :: "avl \<Rightarrow> bool" where
  "balanced NULL = True"
| "balanced (AvlNode e f l r h p) =
     (\<bar>ht l - ht r\<bar> \<le> 1 \<and> h = max (ht l) (ht r) + 1 \<and> balanced l \<and> balanced r)"

definition avl_inv :: "avl \<Rightarrow> bool" where
  "avl_inv t \<longleftrightarrow> ordered t \<and> balanced t"

definition lookup :: "avl \<Rightarrow> int \<Rightarrow> (int \<times> samples) option" where
  "lookup t k = map_of (entries t) k"

lemma keys_simps [simp]:
  "keys NULL = {}"
  "keys (AvlNode e f l r h p) = insert e (keys l \<union> keys r)"
  by (auto simp: keys_def)

lemma Max_int_eq [simp]: "Max_int a b = max a b"
  by (simp add: Max_int_def)

lemma ht_ge: "-1 \<le> ht t"
  by (induction t) auto

lemma height_ht [simp]: "balanced t \<Longrightarrow> height t = ht t"
  by (cases t) auto

lemma ht_NULL: "ht t = -1 \<longleftrightarrow> t = NULL"
proof (cases t)
  case (AvlNode e f l r h p)
  then show ?thesis using ht_ge [of l] by (simp add: max_def)
qed simp

lemma lookup_NULL [simp]: "lookup NULL k = None"
  by (simp add: lookup_def)

lemma lookup_notin: "k \<notin> keys t \<Longrightarrow> lookup t k = None"
  by (auto simp: lookup_def keys_def map_of_eq_None_iff)

lemma lookup_Node [simp]:
  assumes "ordered (AvlNode e f l r h p)"
  shows "lookup (AvlNode e f l r h p) k =
    (if k < e then lookup l k else if k > e then lookup r k else Some (f, p))"
proof -
  have l: "k \<notin> keys l" if "k \<ge> e" using assms that by force
  have r: "k \<notin> keys r" if "k \<le> e" using assms that by force
  have "lookup (AvlNode e f l r h p) k =
      (case lookup l k of Some v \<Rightarrow> Some v | None \<Rightarrow> if k = e then Some (f, p) else lookup r k)"
    by (simp add: lookup_def map_add_def split: option.split)
  then show ?thesis using lookup_notin [OF l] lookup_notin [OF r]
    by (auto split: option.split)
qed

lemma dom_lookup: "dom (lookup t) = keys t"
proof -
  have "lookup t = map_of (entries t)" by (simp add: lookup_def fun_eq_iff)
  then show ?thesis by (simp add: keys_def dom_map_of_conv_image_fst)
qed

section \<open>Rotations\<close>

lemma rotate_entries:
  "SingleRotateWithLeft t = Inr t' \<Longrightarrow> entries t' = entries t"
  "SingleRotateWithRight t = Inr t' \<Longrightarrow> entries t' = entries t"
  by (induction t rule: SingleRotateWithLeft.induct)
    (auto simp: Let_def elim!: SingleRotateWithRight.elims)

lemma double_rotate_entries:
  "DoubleRotateWithLeft t = Inr t' \<Longrightarrow> entries t' = entries t"
  "DoubleRotateWithRight t = Inr t' \<Longrightarrow> entries t' = entries t"
  by (cases t; auto simp: bindR_eq_Inr dest!: rotate_entries)+

lemma set_height_entries: "set_height t = Inr t' \<Longrightarrow> entries t' = entries t"
  by (cases t) auto

lemma set_height_balanced: "balanced t \<Longrightarrow> t \<noteq> NULL \<Longrightarrow> set_height t = Inr t"
  by (cases t) auto

lemma rotate_left_ok:
  assumes "balanced a" "balanced b" "balanced r" "ht a = ht r + 1" "ht b = ht r"
  shows "\<exists>t'. SingleRotateWithLeft (AvlNode e f (AvlNode e1 f1 a b h1 p1) r h p) = Inr t' \<and>
    balanced t' \<and> t' \<noteq> NULL \<and> ht t' = ht r + 2"
  using assms by (simp add: Let_def)

lemma rotate_right_ok:
  assumes "balanced a" "balanced b" "balanced l" "ht b = ht l + 1" "ht a = ht l"
  shows "\<exists>t'. SingleRotateWithRight (AvlNode e f l (AvlNode e1 f1 a b h1 p1) h p) = Inr t' \<and>
    balanced t' \<and> t' \<noteq> NULL \<and> ht t' = ht l + 2"
  using assms by (simp add: Let_def)

lemma double_rotate_left_ok:
  assumes "balanced a" "balanced b" "balanced r" "ht b = ht r + 1" "ht a = ht r"
  shows "\<exists>t'. DoubleRotateWithLeft (AvlNode e f (AvlNode e1 f1 a b h1 p1) r h p) = Inr t' \<and>
    balanced t' \<and> t' \<noteq> NULL \<and> ht t' = ht r + 2"
proof (cases b)
  case NULL
  then show ?thesis using assms ht_ge [of r] by simp
next
  case (AvlNode e2 f2 c d h2 p2)
  then show ?thesis using assms by (auto simp: Let_def max_def split: if_splits)
qed

lemma double_rotate_right_ok:
  assumes "balanced a" "balanced b" "balanced l" "ht a = ht l + 1" "ht b = ht l"
  shows "\<exists>t'. DoubleRotateWithRight (AvlNode e f l (AvlNode e1 f1 a b h1 p1) h p) = Inr t' \<and>
    balanced t' \<and> t' \<noteq> NULL \<and> ht t' = ht l + 2"
proof (cases a)
  case NULL
  then show ?thesis using assms ht_ge [of l] by simp
next
  case (AvlNode e2 f2 c d h2 p2)
  then show ?thesis using assms by (auto simp: Let_def max_def split: if_splits)
qed

section \<open>Insertion: balance\<close>

text \<open>
  The C code picks the rotation by comparing keys, not heights.  That is right because the side a
  tree has grown on is the side of the new key: part of what is proved by induction.
\<close>

definition grown :: "int \<Rightarrow> avl \<Rightarrow> avl \<Rightarrow> bool" where
  "grown x t t' \<longleftrightarrow> balanced t' \<and> t' \<noteq> NULL \<and> (ht t' = ht t \<or> ht t' = ht t + 1) \<and>
     (ht t' = ht t + 1 \<longrightarrow> t \<noteq> NULL \<longrightarrow>
       (\<exists>e f l r h p. t' = AvlNode e f l r h p \<and>
         (x < e \<and> ht l = ht r + 1 \<or> x > e \<and> ht r = ht l + 1)))"

lemma grown_left:
  assumes "balanced (AvlNode e f l r h p)" and "x < e" and "grown x l l'"
  shows "\<exists>t. (if height l' - height r = 2 then
             bindR (element l') (\<lambda>le.
               if x < le then SingleRotateWithLeft (AvlNode e f l' r h p)
               else DoubleRotateWithLeft (AvlNode e f l' r h p))
           else Inr (AvlNode e f l' r h p)) = Inr t \<and>
    (\<exists>t'. set_height t = Inr t' \<and> grown x (AvlNode e f l r h p) t')"
proof (cases "ht l' - ht r = 2")
  case True
  have b: "balanced l'" "balanced r" "ht l' = ht l + 1" "ht l = ht r + 1"
    using assms True by (auto simp: grown_def)
  then have "l \<noteq> NULL" using ht_ge [of r] by auto
  then obtain e1 f1 a c h1 p1 where l': "l' = AvlNode e1 f1 a c h1 p1"
    and side: "x < e1 \<and> ht a = ht c + 1 \<or> x > e1 \<and> ht c = ht a + 1"
    using assms(3) b(3) by (auto simp: grown_def)
  have bal: "balanced a" "balanced c" using b(1) l' by auto
  obtain t where t: "(if x < e1 then SingleRotateWithLeft (AvlNode e f l' r h p)
      else DoubleRotateWithLeft (AvlNode e f l' r h p)) = Inr t"
    "balanced t" "t \<noteq> NULL" "ht t = ht r + 2"
  proof (cases "x < e1")
    case True
    then have "ht a = ht r + 1" "ht c = ht r" using side b l' by auto
    from rotate_left_ok [OF bal b(2) this, of e f e1 f1 h1 p1 h p] obtain t where
      "SingleRotateWithLeft (AvlNode e f l' r h p) = Inr t"
      "balanced t" "t \<noteq> NULL" "ht t = ht r + 2" unfolding l' by blast
    then show ?thesis using True by (intro that [of t]) simp_all
  next
    case False
    then have "ht c = ht r + 1" "ht a = ht r" using side b l' by auto
    from double_rotate_left_ok [OF bal b(2) this, of e f e1 f1 h1 p1 h p] obtain t where
      "DoubleRotateWithLeft (AvlNode e f l' r h p) = Inr t"
      "balanced t" "t \<noteq> NULL" "ht t = ht r + 2" unfolding l' by blast
    then show ?thesis using False by (intro that [of t]) simp_all
  qed
  then show ?thesis using b l' True set_height_balanced [OF t(2,3)]
    by (auto simp: grown_def)
next
  case False
  then show ?thesis using assms by (auto simp: grown_def max_def split: if_splits)
qed

lemma grown_right:
  assumes "balanced (AvlNode e f l r h p)" and "x > e" and "grown x r r'"
  shows "\<exists>t. (if height r' - height l = 2 then
             bindR (element r') (\<lambda>re.
               if x > re then SingleRotateWithRight (AvlNode e f l r' h p)
               else DoubleRotateWithRight (AvlNode e f l r' h p))
           else Inr (AvlNode e f l r' h p)) = Inr t \<and>
    (\<exists>t'. set_height t = Inr t' \<and> grown x (AvlNode e f l r h p) t')"
proof (cases "ht r' - ht l = 2")
  case True
  have b: "balanced r'" "balanced l" "ht r' = ht r + 1" "ht r = ht l + 1"
    using assms True by (auto simp: grown_def)
  then have "r \<noteq> NULL" using ht_ge [of l] by auto
  then obtain e1 f1 a c h1 p1 where r': "r' = AvlNode e1 f1 a c h1 p1"
    and side: "x < e1 \<and> ht a = ht c + 1 \<or> x > e1 \<and> ht c = ht a + 1"
    using assms(3) b(3) by (auto simp: grown_def)
  have bal: "balanced a" "balanced c" using b(1) r' by auto
  obtain t where t: "(if x > e1 then SingleRotateWithRight (AvlNode e f l r' h p)
      else DoubleRotateWithRight (AvlNode e f l r' h p)) = Inr t"
    "balanced t" "t \<noteq> NULL" "ht t = ht l + 2"
  proof (cases "x > e1")
    case True
    then have "ht c = ht l + 1" "ht a = ht l" using side b r' by auto
    from rotate_right_ok [OF bal b(2) this, of e f e1 f1 h1 p1 h p] obtain t where
      "SingleRotateWithRight (AvlNode e f l r' h p) = Inr t"
      "balanced t" "t \<noteq> NULL" "ht t = ht l + 2" unfolding r' by blast
    then show ?thesis using True by (intro that [of t]) simp_all
  next
    case False
    then have "ht a = ht l + 1" "ht c = ht l" using side b r' by auto
    from double_rotate_right_ok [OF bal b(2) this, of e f e1 f1 h1 p1 h p] obtain t where
      "DoubleRotateWithRight (AvlNode e f l r' h p) = Inr t"
      "balanced t" "t \<noteq> NULL" "ht t = ht l + 2" unfolding r' by blast
    then show ?thesis using False by (intro that [of t]) simp_all
  qed
  then show ?thesis using b r' True set_height_balanced [OF t(2,3)]
    by (auto simp: grown_def)
next
  case False
  then show ?thesis using assms by (auto simp: grown_def max_def split: if_splits)
qed

lemma new_node_ok:
  assumes "\<And>i. malloc_ok i"
  shows "new_node malloc_ok x fd =
    Inr (AvlNode x fd NULL NULL 0 (Some zero_pid_stats, Some zero_pid_stats))"
  using assms by (simp add: new_node_def salloc_pid_def)

lemma insert_avl_grown:
  assumes m: "\<And>i. malloc_ok i" and "balanced t"
  shows "\<exists>t' np. insert_avl malloc_ok x fd t = Inr (t', np) \<and> grown x t t'"
  using assms(2)
proof (induction t)
  case NULL
  show ?case using m by (simp add: new_node_ok grown_def)
next
  case (AvlNode e f l r h p)
  consider "x < e" | "x > e" | "x = e" by linarith
  then show ?case
  proof cases
    case 1
    with AvlNode obtain l' np where l': "insert_avl malloc_ok x fd l = Inr (l', np)" "grown x l l'"
      by auto
    from grown_left [OF AvlNode.prems 1 l'(2)] l'(1) 1 show ?thesis by auto
  next
    case 2
    with AvlNode obtain r' np where r': "insert_avl malloc_ok x fd r = Inr (r', np)" "grown x r r'"
      by auto
    from grown_right [OF AvlNode.prems 2 r'(2)] r'(1) 2 show ?thesis by auto
  next
    case 3
    then show ?thesis using AvlNode.prems by (auto simp: grown_def)
  qed
qed

section \<open>Insertion: contents\<close>

text \<open>Insertion into a strictly sorted association list, an existing entry being kept.\<close>

fun ins_entry :: "int \<Rightarrow> 'v \<Rightarrow> (int \<times> 'v) list \<Rightarrow> (int \<times> 'v) list" where
  "ins_entry x v [] = [(x, v)]"
| "ins_entry x v ((k, w) # es) =
     (if x < k then (x, v) # (k, w) # es
      else if x > k then (k, w) # ins_entry x v es
      else (k, w) # es)"

definition key_sorted :: "(int \<times> 'v) list \<Rightarrow> bool" where
  "key_sorted es \<longleftrightarrow> sorted_wrt (<) (map fst es)"

lemma key_sorted_append:
  "key_sorted (xs @ (e, v) # ys) \<longleftrightarrow>
     key_sorted xs \<and> key_sorted ys \<and> (\<forall>k \<in> fst ` set xs. k < e) \<and> (\<forall>k \<in> fst ` set ys. e < k)"
  by (fastforce simp: key_sorted_def sorted_wrt_append)

lemma ordered_iff: "ordered t \<longleftrightarrow> key_sorted (entries t)"
proof (induction t)
  case NULL
  then show ?case by (simp add: key_sorted_def)
next
  case (AvlNode e f l r h p)
  then show ?case by (simp add: key_sorted_append keys_def) blast
qed

lemma ins_entry_append:
  assumes "key_sorted (xs @ (e, w) # ys)"
  shows "ins_entry x v (xs @ (e, w) # ys) =
    (if x < e then ins_entry x v xs @ (e, w) # ys
     else if x > e then xs @ (e, w) # ins_entry x v ys
     else xs @ (e, w) # ys)"
  using assms
proof (induction xs)
  case Nil
  then show ?case by simp
next
  case (Cons a xs)
  obtain k u where a: "a = (k, u)" by fastforce
  have "k < e" and "key_sorted (xs @ (e, w) # ys)"
    using Cons.prems a by (auto simp: key_sorted_def sorted_wrt_append)
  with Cons.IH a show ?case by auto
qed

lemma set_ins_entry:
  "set (ins_entry x v es) \<subseteq> insert (x, v) (set es)"
  "fst ` set (ins_entry x v es) = insert x (fst ` set es)"
  by (induction es rule: ins_entry.induct) auto

lemma key_sorted_ins_entry: "key_sorted es \<Longrightarrow> key_sorted (ins_entry x v es)"
proof (induction x v es rule: ins_entry.induct)
  case (2 x v k w es)
  then show ?case using set_ins_entry(2) [of x v es] by (auto simp: key_sorted_def)
qed (simp add: key_sorted_def)

lemma map_of_ins_entry:
  "key_sorted es \<Longrightarrow> map_of (ins_entry x v es) =
     (if x \<in> fst ` set es then map_of es else (map_of es)(x \<mapsto> v))"
proof (induction x v es rule: ins_entry.induct)
  case (2 x v k w es)
  have "x \<notin> fst ` set es" if "x \<le> k" using "2.prems" that by (force simp: key_sorted_def)
  with 2 show ?case by (auto simp: key_sorted_def)
qed simp

abbreviation fresh_samples :: samples where
  "fresh_samples \<equiv> (Some zero_pid_stats, Some zero_pid_stats)"

lemma new_node_Inr: "new_node m x fd = Inr n \<Longrightarrow> n = AvlNode x fd NULL NULL 0 fresh_samples"
  by (auto simp: new_node_def salloc_pid_def split: if_splits)

lemma insert_avl_left:
  assumes "insert_avl m x fd (AvlNode e f l r h p) = Inr (t', np)" and "x < e"
  obtains l' where "insert_avl m x fd l = Inr (l', np)"
    and "entries t' = entries l' @ (e, f, p) # entries r"
proof -
  let ?n = "\<lambda>l'. AvlNode e f l' r h p"
  obtain l' t where l': "insert_avl m x fd l = Inr (l', np)" and t': "set_height t = Inr t'"
    and t: "(if height l' - height r = 2
        then bindR (element l') (\<lambda>le. if x < le then SingleRotateWithLeft (?n l')
               else DoubleRotateWithLeft (?n l')) else Inr (?n l')) = Inr t"
    using assms by (auto simp: bindR_eq_Inr simp del: DoubleRotateWithLeft.simps)
  have "entries t = entries (?n l')"
    using t by (auto simp: bindR_eq_Inr simp del: DoubleRotateWithLeft.simps entries.simps
        split: if_splits dest: rotate_entries double_rotate_entries)
  then show ?thesis using that [OF l'] set_height_entries [OF t'] by simp
qed

lemma insert_avl_right:
  assumes "insert_avl m x fd (AvlNode e f l r h p) = Inr (t', np)" and "x > e"
  obtains r' where "insert_avl m x fd r = Inr (r', np)"
    and "entries t' = entries l @ (e, f, p) # entries r'"
proof -
  let ?n = "\<lambda>r'. AvlNode e f l r' h p"
  obtain r' t where r': "insert_avl m x fd r = Inr (r', np)" and t': "set_height t = Inr t'"
    and t: "(if height r' - height l = 2
        then bindR (element r') (\<lambda>re. if x > re then SingleRotateWithRight (?n r')
               else DoubleRotateWithRight (?n r')) else Inr (?n r')) = Inr t"
    using assms by (auto simp: bindR_eq_Inr simp del: DoubleRotateWithRight.simps)
  have "entries t = entries (?n r')"
    using t by (auto simp: bindR_eq_Inr simp del: DoubleRotateWithRight.simps entries.simps
        split: if_splits dest: rotate_entries double_rotate_entries)
  then show ?thesis using that [OF r'] set_height_entries [OF t'] by simp
qed

lemma insert_avl_entries:
  "ordered t \<Longrightarrow> insert_avl m x fd t = Inr (t', np) \<Longrightarrow>
     entries t' = ins_entry x (fd, fresh_samples) (entries t)"
proof (induction t arbitrary: t' np)
  case NULL
  then show ?case by (auto simp: bindR_eq_Inr dest!: new_node_Inr)
next
  case (AvlNode e f l r h p)
  have ord: "ordered l" "ordered r" "key_sorted (entries l @ (e, f, p) # entries r)"
    using AvlNode.prems(1) ordered_iff [of "AvlNode e f l r h p"] by simp_all
  consider "x < e" | "x > e" | "x = e" by linarith
  then show ?case
  proof cases
    case 1
    from AvlNode.prems(2) 1 show ?thesis
      by (rule insert_avl_left)
        (use AvlNode.IH(1) [OF ord(1)] 1 ins_entry_append [OF ord(3)] in simp)
  next
    case 2
    from AvlNode.prems(2) 2 show ?thesis
      by (rule insert_avl_right)
        (use AvlNode.IH(2) [OF ord(2)] 2 ins_entry_append [OF ord(3)] in simp)
  next
    case 3
    then show ?thesis using AvlNode.prems(2) ins_entry_append [OF ord(3)] by auto
  qed
qed

lemma insert_avl_position:
  "ordered t \<Longrightarrow> insert_avl m x fd t = Inr (t', np) \<Longrightarrow> np = (if x \<in> keys t then None else Some x)"
proof (induction t arbitrary: t' np)
  case NULL
  then show ?case by (auto simp: bindR_eq_Inr)
next
  case (AvlNode e f l r h p)
  have out: "x \<notin> keys r" if "x \<le> e" for x using AvlNode.prems(1) that by force
  have out': "x \<notin> keys l" if "x \<ge> e" for x using AvlNode.prems(1) that by force
  consider "x < e" | "x > e" | "x = e" by linarith
  then show ?case
  proof cases
    case 1
    from AvlNode.prems(2) 1 show ?thesis
      by (rule insert_avl_left) (use AvlNode.IH(1) AvlNode.prems(1) 1 out [of x] in auto)
  next
    case 2
    from AvlNode.prems(2) 2 show ?thesis
      by (rule insert_avl_right) (use AvlNode.IH(2) AvlNode.prems(1) 2 out' [of x] in auto)
  next
    case 3
    then show ?thesis using AvlNode.prems(2) by auto
  qed
qed

lemma insert_avl_balanced:
  assumes "balanced t" and "insert_avl m x fd t = Inr (t', np)"
  shows "grown x t t'"
proof -
  have agree: "insert_avl m x fd s = Inr u \<Longrightarrow> insert_avl (\<lambda>_. True) x fd s = Inr u" for s u
  proof (induction s arbitrary: u)
    case NULL
    then show ?case by (auto simp: bindR_eq_Inr new_node_def salloc_pid_def split: if_splits)
  next
    case (AvlNode e f l r h p)
    show ?case
      using AvlNode.prems AvlNode.IH
      by (cases "insert_avl m x fd l"; cases "insert_avl m x fd r") (auto split: if_splits)
  qed
  obtain u where "insert_avl (\<lambda>_. True) x fd t = Inr u" "grown x t (fst u)"
    using insert_avl_grown [of "\<lambda>_. True" t x fd] assms(1) by auto
  with agree [OF assms(2)] show ?thesis by simp
qed

lemma insert_avl_inv [inv_intros]:
  assumes "avl_inv t" and "insert_avl m x fd t = Inr (t', np)"
  shows "avl_inv t'"
proof -
  have o: "ordered t" and b: "balanced t" using assms(1) by (simp_all add: avl_inv_def)
  have "key_sorted (entries t')"
    using key_sorted_ins_entry o insert_avl_entries [OF o assms(2)] by (simp add: ordered_iff)
  then show ?thesis
    using insert_avl_balanced [OF b assms(2)] by (simp add: avl_inv_def ordered_iff grown_def)
qed

lemma lookup_map_of: "lookup t = map_of (entries t)"
  by (simp add: lookup_def fun_eq_iff)

lemma insert_avl_lookup:
  assumes "avl_inv t" and "insert_avl m x fd t = Inr (t', np)"
  shows "lookup t' = (if x \<in> keys t then lookup t else (lookup t)(x \<mapsto> (fd, fresh_samples)))"
  using assms insert_avl_entries [of t m x fd t' np]
  by (simp add: lookup_map_of avl_inv_def ordered_iff map_of_ins_entry keys_def)

section \<open>Search and in-place update\<close>

definition find_contents :: "int \<Rightarrow> avl \<Rightarrow> (int \<times> samples) option" where
  "find_contents x t = (case find_avl x t of NULL \<Rightarrow> None | AvlNode e f l r h p \<Rightarrow> Some (f, p))"

lemma find_contents_lookup: "ordered t \<Longrightarrow> find_contents x t = lookup t x"
  by (induction t) (auto simp: find_contents_def)

lemma find_avl_key: "find_avl x t = AvlNode e f l r h p \<Longrightarrow> e = x"
  by (induction t) (auto split: if_splits)

lemma keys_update_at [simp]: "keys (update_at x g t) = keys t"
  by (induction t) auto

lemma ht_update_at [simp]: "ht (update_at x g t) = ht t"
  by (induction t) auto

lemma update_at_inv [inv_intros]: "avl_inv t \<Longrightarrow> avl_inv (update_at x g t)"
  unfolding avl_inv_def by (induction t) auto

lemma update_at_entries:
  "ordered t \<Longrightarrow> entries (update_at x g t) =
     map (\<lambda>(k, v). (k, if k = x then g v else v)) (entries t)"
proof (induction t)
  case NULL
  then show ?case by simp
next
  case (AvlNode e f l r h p)
  have skip: "map (\<lambda>(k, v). (k, if k = x then g v else v)) es = es"
    if "x \<notin> fst ` set es" for es :: "(int \<times> int \<times> samples) list"
    using that by (intro map_idI) force
  have l: "x \<notin> fst ` set (entries l)" if "x \<ge> e"
    using AvlNode.prems that by (auto simp: keys_def)
  have r: "x \<notin> fst ` set (entries r)" if "x \<le> e"
    using AvlNode.prems that by (auto simp: keys_def)
  show ?case using AvlNode skip [OF l] skip [OF r] by auto
qed

lemma map_of_map_at:
  "map_of (map (\<lambda>(k, v). (k, if k = x then g v else v)) es) =
     (case map_of es x of None \<Rightarrow> map_of es | Some v \<Rightarrow> (map_of es)(x \<mapsto> g v))"
  by (induction es) (auto simp: fun_eq_iff split: option.splits)

lemma update_at_lookup:
  assumes "ordered t"
  shows "lookup (update_at x g t) =
     (case lookup t x of None \<Rightarrow> lookup t | Some v \<Rightarrow> (lookup t)(x \<mapsto> g v))"
  by (simp add: lookup_map_of update_at_entries [OF assms] map_of_map_at split: option.split)

section \<open>Cost of a search\<close>

fun find_calls :: "int \<Rightarrow> avl \<Rightarrow> nat" where
  "find_calls x NULL = 1"
| "find_calls x (AvlNode e f l r h p) =
     (if x < e then Suc (find_calls x l) else if x > e then Suc (find_calls x r) else 1)"

lemma find_calls_ht: "int (find_calls x t) \<le> ht t + 2"
  by (induction t) (use ht_ge in \<open>force simp: max_def\<close>)+

lemma size_ht: "balanced t \<Longrightarrow> 2 ^ (nat (ht t + 1) div 2) \<le> length (entries t) + 1"
proof (induction t)
  case NULL
  then show ?case by simp
next
  case (AvlNode e f l r h p)
  let ?H = "nat (ht (AvlNode e f l r h p) + 1)"
  have sub: "2 ^ ((?H - 2) div 2) \<le> length (entries s) + 1"
    if "s = l \<or> s = r" for s
  proof -
    have "?H - 2 \<le> nat (ht s + 1)" using AvlNode.prems that by auto
    then have "(2::nat) ^ ((?H - 2) div 2) \<le> 2 ^ (nat (ht s + 1) div 2)"
      by (intro power_increasing div_le_mono) auto
    also have "\<dots> \<le> length (entries s) + 1" using AvlNode that by auto
    finally show ?thesis .
  qed
  have "(2::nat) ^ (?H div 2) \<le> 2 * 2 ^ ((?H - 2) div 2)"
    by (cases "?H < 2") (auto simp flip: power_Suc intro!: power_increasing)
  also have "\<dots> \<le> (length (entries l) + 1) + (length (entries r) + 1)"
    unfolding mult_2 by (intro add_mono sub) simp_all
  finally show ?case by simp
qed

text \<open>The search with a budget of calls; None when it is used up.\<close>

fun find_within :: "nat \<Rightarrow> int \<Rightarrow> avl \<Rightarrow> avl option" where
  "find_within 0 x t = None"
| "find_within (Suc n) x NULL = Some NULL"
| "find_within (Suc n) x (AvlNode e f l r h p) =
     (if x < e then find_within n x l else if x > e then find_within n x r else Some (AvlNode e f l r h p))"

lemma find_within_calls: "find_within n x t = (if find_calls x t \<le> n then Some (find_avl x t) else None)"
  by (induction n x t rule: find_within.induct) (auto, (case_tac t; simp)?)

section \<open>Freeing the tree\<close>

lemma empty_avl_closes: "mset (snd (empty_avl t)) = mset (filter (\<lambda>f. f > 0) (map (fst \<circ> snd) (entries t)))"
  by (induction t) auto

lemma empty_avl_NULL [simp]: "fst (empty_avl t) = NULL"
  by (cases t) auto

section \<open>The table of processes as an interface\<close>

text \<open>
  What the sampling loop relies on: a table from process ids to contents that can be searched,
  extended by a fresh entry and written at an entry, with a map as its meaning.  A visit is what
  the loop does with one process id: find it, insert it when it is not there, and write what
  \<open>g\<close> makes of its contents.
\<close>

definition visit ::
  "(int \<Rightarrow> 't \<Rightarrow> 'v option) \<Rightarrow> (int \<Rightarrow> 't \<Rightarrow> ('t \<times> int option) res) \<Rightarrow> (int \<Rightarrow> 'v \<Rightarrow> 't \<Rightarrow> 't) \<Rightarrow>
   int \<Rightarrow> ('v \<Rightarrow> 'v res) \<Rightarrow> 't \<Rightarrow> 't res" where
  "visit look ins put x g t =
     bindR (case look x t of Some v \<Rightarrow> Inr (t, Some x) | None \<Rightarrow> ins x t) (\<lambda>(t1, pos).
     case pos of None \<Rightarrow> Inl (Undefined NullDeref)
     | Some y \<Rightarrow>
       (case look y t1 of None \<Rightarrow> Inl (Undefined NullDeref)
        | Some v \<Rightarrow> bindR (g v) (\<lambda>v'. Inr (put y v' t1))))"

locale pid_table =
  fixes look :: "int \<Rightarrow> 't \<Rightarrow> 'v option"
    and ins :: "int \<Rightarrow> 't \<Rightarrow> ('t \<times> int option) res"
    and put :: "int \<Rightarrow> 'v \<Rightarrow> 't \<Rightarrow> 't"
    and amap :: "'t \<Rightarrow> int \<Rightarrow> 'v option"
    and inv :: "'t \<Rightarrow> bool"
    and fresh :: 'v
  assumes find_amap: "inv t \<Longrightarrow> look x t = amap t x"
    and ins_amap: "inv t \<Longrightarrow> amap t x = None \<Longrightarrow> ins x t = Inr (t', pos) \<Longrightarrow>
          amap t' = (amap t)(x \<mapsto> fresh) \<and> pos = Some x"
    and ins_inv: "inv t \<Longrightarrow> ins x t = Inr (t', pos) \<Longrightarrow> inv t'"
    and put_amap: "inv t \<Longrightarrow> amap t x = Some w \<Longrightarrow> amap (put x v t) = (amap t)(x \<mapsto> v)"
    and put_inv: "inv t \<Longrightarrow> inv (put x v t)"
begin

lemma visit_cases:
  assumes "inv t" and "visit look ins put x g t = Inr t'"
  obtains v v' where "v = (case amap t x of None \<Rightarrow> fresh | Some w \<Rightarrow> w)" and "g v = Inr v'"
    and "inv t'" and "amap t' = (amap t)(x \<mapsto> v')"
proof (cases "amap t x")
  case None
  then obtain t1 pos where t1: "ins x t = Inr (t1, pos)"
    using assms by (cases "ins x t") (auto simp: visit_def find_amap)
  note a = ins_amap [OF assms(1) None t1] and i = ins_inv [OF assms(1) t1]
  then have f: "look x t1 = Some fresh" by (simp add: find_amap)
  then obtain v' where v': "g fresh = Inr v'" "t' = put x v' t1"
    using assms t1 a None by (auto simp: visit_def find_amap bindR_eq_Inr)
  show ?thesis
    using that [of fresh v'] None v' put_inv [OF i] put_amap [OF i, of x fresh v'] a by simp
next
  case (Some w)
  then obtain v' where v': "g w = Inr v'" "t' = put x v' t"
    using assms by (auto simp: visit_def find_amap bindR_eq_Inr)
  show ?thesis
    using that [of w v'] Some v' put_inv [OF assms(1)] put_amap [OF assms(1) Some] by simp
qed

lemma visit_inv: "inv t \<Longrightarrow> visit look ins put x g t = Inr t' \<Longrightarrow> inv t'"
  by (erule (1) visit_cases)

lemma visit_dom: "inv t \<Longrightarrow> visit look ins put x g t = Inr t' \<Longrightarrow> dom (amap t') = insert x (dom (amap t))"
  by (erule (1) visit_cases) simp

lemma visit_other: "inv t \<Longrightarrow> visit look ins put x g t = Inr t' \<Longrightarrow> y \<noteq> x \<Longrightarrow> amap t' y = amap t y"
  by (erule (1) visit_cases) simp

text \<open>A whole pass over the listed processes.\<close>

lemma visits_inv_dom:
  assumes "inv t" and "foldR (\<lambda>(x, g) t. visit look ins put x g t) xs t = Inr t'"
  shows "inv t' \<and> dom (amap t') = dom (amap t) \<union> fst ` set xs"
  using assms
proof (induction xs arbitrary: t)
  case Nil
  then show ?case by simp
next
  case (Cons a xs)
  obtain x g where a: "a = (x, g)" by fastforce
  with Cons.prems(2) obtain u where u: "visit look ins put x g t = Inr u"
    "foldR (\<lambda>(x, g) t. visit look ins put x g t) xs u = Inr t'"
    by (auto simp: bindR_eq_Inr)
  show ?case
    using Cons.IH [OF visit_inv [OF Cons.prems(1) u(1)] u(2)] visit_dom [OF Cons.prems(1) u(1)] a
    by auto
qed

text \<open>What every read preserves of an entry, the whole pass preserves.\<close>

lemma visits_related:
  assumes "inv t" and "foldR (\<lambda>(x, g) t. visit look ins put x g t) xs t = Inr t'"
    and "\<forall>x g v v'. (x, g) \<in> set xs \<longrightarrow> g v = Inr v' \<longrightarrow> R v v'" and "\<And>v. R v v"
    and "\<And>u v w. R u v \<Longrightarrow> R v w \<Longrightarrow> R u w" and "amap t y = Some v"
  shows "\<exists>v'. amap t' y = Some v' \<and> R v v'"
  using assms(1-3,6)
proof (induction xs arbitrary: t v)
  case Nil
  then show ?case using assms(4) by simp
next
  case (Cons a xs)
  obtain x g where a: "a = (x, g)" by (rule prod.exhaust)
  with Cons.prems(2) obtain u where u: "visit look ins put x g t = Inr u"
    "foldR (\<lambda>(x, g) t. visit look ins put x g t) xs u = Inr t'"
    by (auto simp: bindR_eq_Inr)
  obtain w w' where w: "w = (case amap t x of None \<Rightarrow> fresh | Some z \<Rightarrow> z)" "g w = Inr w'"
    and i: "inv u" and m: "amap u = (amap t)(x \<mapsto> w')"
    by (rule visit_cases [OF Cons.prems(1) u(1)])
  have r: "R w w'" using Cons.prems(3) a w(2) by auto
  obtain v1 where v1: "amap u y = Some v1" "R v v1"
    using m r w(1) Cons.prems(4) assms(4) by (cases "y = x") auto
  have "\<forall>x g v v'. (x, g) \<in> set xs \<longrightarrow> g v = Inr v' \<longrightarrow> R v v'" using Cons.prems(3) by simp
  from Cons.IH [OF i u(2) this v1(1)] show ?case using assms(5) [OF v1(2)] by blast
qed

text \<open>A process that is not listed keeps its entry.\<close>

lemma visits_other:
  assumes "inv t" and "foldR (\<lambda>(x, g) t. visit look ins put x g t) xs t = Inr t'"
    and "y \<notin> fst ` set xs"
  shows "amap t' y = amap t y"
  using assms
proof (induction xs arbitrary: t)
  case Nil
  then show ?case by simp
next
  case (Cons a xs)
  obtain x g where a: "a = (x, g)" by fastforce
  with Cons.prems(2) obtain u where u: "visit look ins put x g t = Inr u"
    "foldR (\<lambda>(x, g) t. visit look ins put x g t) xs u = Inr t'"
    by (auto simp: bindR_eq_Inr)
  have "amap t' y = amap u y"
    using Cons.IH [OF visit_inv [OF Cons.prems(1) u(1)] u(2)] Cons.prems(3) by simp
  also have "\<dots> = amap t y"
    using visit_other [OF Cons.prems(1) u(1)] Cons.prems(3) a by simp
  finally show ?case .
qed

end

text \<open>The tree provides the interface, for every outcome of the allocations.\<close>

interpretation avl_table: pid_table
  find_contents "\<lambda>x. insert_avl m x (- 1)" "\<lambda>x v. update_at x (\<lambda>_. v)" lookup avl_inv
  "(- 1, fresh_samples)" for m
proof unfold_locales
  fix t t' :: avl and x :: int and v w pos
  assume inv: "avl_inv t"
  show "find_contents x t = lookup t x"
    using inv by (simp add: find_contents_lookup avl_inv_def)
  show "avl_inv t'" if "insert_avl m x (- 1) t = Inr (t', pos)"
    using inv that by (rule insert_avl_inv)
  show "avl_inv (update_at x (\<lambda>_. v) t)"
    using inv by (rule update_at_inv)
  show "lookup (update_at x (\<lambda>_. v) t) = (lookup t)(x \<mapsto> v)" if "lookup t x = Some w"
    using inv that by (simp add: avl_inv_def update_at_lookup)
  assume "lookup t x = None" and ins: "insert_avl m x (- 1) t = Inr (t', pos)"
  then have "x \<notin> keys t" using dom_lookup [of t] by (metis domIff)
  then show "lookup t' = (lookup t)(x \<mapsto> (- 1, fresh_samples)) \<and> pos = Some x"
    using inv insert_avl_lookup [OF inv ins] insert_avl_position [OF _ ins]
    by (simp add: avl_inv_def)
qed

section \<open>Properties\<close>

text \<open>C9: inserting into a balanced search tree, with memory available, succeeds without ever
  following a NULL child, whatever the key; the result is again a search tree, balanced, with
  every stored \<^verbatim>\<open>Height\<close> right, and at most one level higher.\<close>

theorem insert_keeps_avl:
  assumes "avl_inv t" and "\<And>i. malloc_ok i"
  shows "\<exists>t' np. insert_avl malloc_ok x fd t = Inr (t', np) \<and> avl_inv t' \<and>
    ht t \<le> ht t' \<and> ht t' \<le> ht t + 1"
proof -
  have "balanced t" using assms(1) by (simp add: avl_inv_def)
  then obtain t' np
    where t': "insert_avl malloc_ok x fd t = Inr (t', np)" "grown x t t'"
    using insert_avl_grown [of malloc_ok t x fd] assms(2) by blast
  then show ?thesis using insert_avl_inv [OF assms(1) t'(1)] by (auto simp: grown_def)
qed

theorem insert_keeps_avl_witness:
  "\<exists>t' np. insert_avl (\<lambda>_. True) 5 (- 1)
      (AvlNode 9 3 (AvlNode 4 (- 1) NULL NULL 0 (None, None)) NULL 1 (None, None)) = Inr (t', np) \<and>
    avl_inv t' \<and> 1 \<le> ht t' \<and> ht t' \<le> 2"
  using insert_keeps_avl [of "AvlNode 9 3 (AvlNode 4 (- 1) NULL NULL 0 (None, None)) NULL 1 (None, None)"
      "\<lambda>_. True" 5 "- 1"]
  by (simp add: avl_inv_def)

text \<open>C12: the tree refines a finite map from process ids to contents: insertion adds the key with
  the given descriptor and two cleared samples when it is new, changes nothing otherwise, and
  hands the caller the new node exactly when it made one; searching is looking up that map.\<close>

theorem insert_refines_map:
  assumes "avl_inv t" and "insert_avl malloc_ok x fd t = Inr (t', np)"
  shows "lookup t' = (if x \<in> keys t then lookup t else (lookup t)(x \<mapsto> (fd, fresh_samples))) \<and>
    np = (if x \<in> keys t then None else Some x) \<and>
    find_contents y t' = lookup t' y"
  using assms insert_avl_lookup [OF assms] insert_avl_position [OF _ assms(2)]
    insert_avl_inv [OF assms] by (simp add: find_contents_lookup avl_inv_def)

theorem insert_refines_map_witness:
  "\<exists>t' np. insert_avl (\<lambda>_. True) 5 (- 1)
      (AvlNode 9 3 (AvlNode 4 (- 1) NULL NULL 0 (None, None)) NULL 1 (None, None)) = Inr (t', np) \<and>
    find_contents 5 t' = Some (- 1, fresh_samples) \<and> find_contents 4 t' = Some (- 1, None, None) \<and>
    find_contents 6 t' = None \<and> np = Some 5"
proof -
  let ?t = "AvlNode 9 3 (AvlNode 4 (- 1) NULL NULL 0 (None, None)) NULL 1 (None, None)"
  have i: "avl_inv ?t" by (simp add: avl_inv_def)
  then have "balanced ?t" by (simp add: avl_inv_def)
  then obtain t' np where r: "insert_avl (\<lambda>_. True) 5 (- 1) ?t = Inr (t', np)"
    using insert_avl_grown [of "\<lambda>_. True" ?t 5 "- 1"] by blast
  note f = insert_refines_map [OF i r]
  show ?thesis using r f [of 5] f [of 4] f [of 6] by auto
qed

text \<open>C14: a search ends after few calls: in a balanced tree of fewer than \<open>2 ^ m - 1\<close> processes, \<open>2 * m\<close> calls
  of \<^verbatim>\<open>find\<close> are enough for every key, present or not; with the 32767 process ids a Linux system has by
  default that is at most 32 calls.\<close>

theorem find_logarithmic:
  assumes "avl_inv t" and "length (entries t) + 1 < 2 ^ m"
  shows "find_within (2 * m) x t = Some (find_avl x t)"
proof -
  have b: "balanced t" using assms(1) by (simp add: avl_inv_def)
  have "(2::nat) ^ (nat (ht t + 1) div 2) < 2 ^ m" using size_ht [OF b] assms(2) by linarith
  then have "nat (ht t + 1) div 2 < m" by simp
  moreover have "find_calls x t \<le> nat (ht t + 1) + 1" using find_calls_ht [of x t] ht_ge [of t] by linarith
  ultimately have "find_calls x t \<le> 2 * m" by linarith
  then show ?thesis by (simp add: find_within_calls)
qed

theorem find_logarithmic_witness:
  "find_within 4 3 (AvlNode 7 (- 1) NULL NULL 0 (None, None)) = Some NULL"
  using find_logarithmic [of "AvlNode 7 (- 1) NULL NULL 0 (None, None)" 2 3] by (simp add: avl_inv_def)

end
