(* ===== verification/Eperf.thy ===== *)
theory Eperf
  imports Avltree
begin

text \<open>
  \<^verbatim>\<open>eperf.c\<close>: the hardware cache-miss counters.  The kernel is three arguments: \<open>popen\<close> is the
  system call of \<^verbatim>\<open>sys_perf_event_open\<close> (a descriptor, or a negative number), \<open>rd\<close> is \<^verbatim>\<open>read\<close>
  (the returned count and the words of the buffer), \<^verbatim>\<open>sysconf\<close> gives the number of CPUs.  The
  static array \<^verbatim>\<open>fd\<close> has \<^verbatim>\<open>MAX_NR_CPUS\<close> entries; an access past its end is undefined behaviour.
\<close>

section \<open>Event attributes\<close>

definition PERF_TYPE_HARDWARE :: u32 where "PERF_TYPE_HARDWARE = 0"
definition PERF_COUNT_HW_CACHE_MISSES :: u64 where "PERF_COUNT_HW_CACHE_MISSES = 3"
definition PERF_FORMAT_TOTAL_TIME_ENABLED :: u64 where
  "PERF_FORMAT_TOTAL_TIME_ENABLED = push_bit 0 1"
definition PERF_FORMAT_TOTAL_TIME_RUNNING :: u64 where
  "PERF_FORMAT_TOTAL_TIME_RUNNING = push_bit 1 1"

text \<open>The members of \<^verbatim>\<open>struct perf_event_attr\<close>, the flag bits one by one; a union is one field.\<close>

record perf_event_attr =
  attr_type :: u32
  attr_size :: u32
  attr_config :: u64
  attr_sample :: u64
  attr_sample_type :: u64
  attr_read_format :: u64
  attr_disabled :: bool
  attr_inherit :: bool
  attr_pinned :: bool
  attr_exclusive :: bool
  attr_exclude_user :: bool
  attr_exclude_kernel :: bool
  attr_exclude_hv :: bool
  attr_exclude_idle :: bool
  attr_mmap :: bool
  attr_comm :: bool
  attr_freq :: bool
  attr_inherit_stat :: bool
  attr_enable_on_exec :: bool
  attr_task :: bool
  attr_watermark :: bool
  attr_reserved_1 :: "49 word"
  attr_wakeup :: u32
  attr_reserved_2 :: u32
  attr_reserved_3 :: u64

definition PERF_ATTR_SIZE :: nat where
  "PERF_ATTR_SIZE = struct_size
     [(4, 4), (4, 4), (8, 8), (8, 8), (8, 8), (8, 8), (8, 8), (4, 4), (4, 4), (8, 8)]"

definition attrs0 :: perf_event_attr where
  "attrs0 = \<lparr>attr_type = PERF_TYPE_HARDWARE, attr_size = 0,
     attr_config = PERF_COUNT_HW_CACHE_MISSES, attr_sample = 0, attr_sample_type = 0,
     attr_read_format = 0, attr_disabled = False, attr_inherit = False, attr_pinned = False,
     attr_exclusive = False, attr_exclude_user = False, attr_exclude_kernel = False,
     attr_exclude_hv = False, attr_exclude_idle = False, attr_mmap = False, attr_comm = False,
     attr_freq = False, attr_inherit_stat = False, attr_enable_on_exec = False, attr_task = False,
     attr_watermark = False, attr_reserved_1 = 0, attr_wakeup = 0, attr_reserved_2 = 0,
     attr_reserved_3 = 0\<rparr>"

section \<open>State and operations\<close>

definition MAX_NR_CPUS :: nat where "MAX_NR_CPUS = 32"

record perf =
  nr_cpus :: u32
  fds :: "int list"   \<comment> \<open>\<^verbatim>\<open>static int fd[MAX_NR_CPUS]\<close>\<close>

definition perf0 :: perf where
  "perf0 = \<lparr>nr_cpus = 0, fds = replicate MAX_NR_CPUS 0\<rparr>"

type_synonym perf_open = "perf_event_attr \<Rightarrow> int \<Rightarrow> int \<Rightarrow> int \<Rightarrow> int"
type_synonym fd_read = "int \<Rightarrow> nat \<Rightarrow> int \<times> (nat \<Rightarrow> u64)"

definition sys_perf_event_open ::
  "perf_open \<Rightarrow> perf_event_attr \<Rightarrow> int \<Rightarrow> int \<Rightarrow> int \<Rightarrow> int" where
  "sys_perf_event_open popen attr tpid cpu group_fd =
     popen (attr\<lparr>attr_size := of_nat PERF_ATTR_SIZE\<rparr>) tpid cpu group_fd"

definition read_counter :: "fd_read \<Rightarrow> int \<Rightarrow> u64" where
  "read_counter rd fd =
    (if fd \<le> 0 then 0
     else (let nv = 3; (res, single_count) = rd fd (nv * 8)
           in if (of_int res :: u64) = of_nat (nv * 8) then single_count 0 else 0))"

text \<open>The loops over the CPUs, with the array bound of each access.\<close>

definition cpu_indices :: "perf \<Rightarrow> nat list" where
  "cpu_indices st = [0..<unat (nr_cpus st)]"

definition read_cpu_counter :: "fd_read \<Rightarrow> perf \<Rightarrow> u64 res" where
  "read_cpu_counter rd st =
     foldR (\<lambda>cpu result. if cpu \<ge> length (fds st) then Inl (Undefined OutOfBounds)
                          else Inr (result + read_counter rd (fds st ! cpu)))
       (cpu_indices st) 0"

definition close_step :: "nat \<Rightarrow> int list \<times> perf \<Rightarrow> (int list \<times> perf) res" where
  "close_step counter s =
     (case s of (cl, st) \<Rightarrow>
       if counter \<ge> length (fds st) then Inl (Undefined OutOfBounds)
       else if fds st ! counter \<le> 0 then Inr (cl, st)
       else Inr (cl @ [fds st ! counter], st\<lparr>fds := (fds st)[counter := -1]\<rparr>))"

definition close_all_counters :: "avl \<Rightarrow> perf \<Rightarrow> (int list \<times> perf) res" where
  "close_all_counters tree st =
     bindR (foldR close_step (cpu_indices st) ([], st)) (\<lambda>(cl, st').
       Inr (cl @ snd (empty_avl tree), st'))"

definition open_step :: "perf_open \<Rightarrow> perf_event_attr \<Rightarrow> nat \<Rightarrow> perf \<Rightarrow> perf res" where
  "open_step popen attr cpu st =
     (if cpu \<ge> length (fds st) then Inl (Undefined OutOfBounds)
      else Inr (st\<lparr>fds := (fds st)[cpu := sys_perf_event_open popen attr (-1) (int cpu) (-1)]\<rparr>))"

definition create_perf_stat_counter ::
  "perf_open \<Rightarrow> int \<Rightarrow> bool \<Rightarrow> perf \<Rightarrow> (int \<times> perf) res" where
  "create_perf_stat_counter popen tpid system_wide st =
    (let attr = attrs0\<lparr>attr_read_format :=
           or PERF_FORMAT_TOTAL_TIME_ENABLED PERF_FORMAT_TOTAL_TIME_RUNNING\<rparr>
     in if system_wide then
          bindR (foldR (open_step popen attr) (cpu_indices st) st) (\<lambda>st'.
            let last = unat (nr_cpus st' - 1)
            in if last \<ge> length (fds st') then Inl (Undefined OutOfBounds)
               else Inr (fds st' ! last, st'))
        else
          Inr (sys_perf_event_open popen
                 (attr\<lparr>attr_inherit := True, attr_disabled := False,
                       attr_enable_on_exec := True\<rparr>) tpid (-1) (-1), st))"

definition init_perf :: "perf_open \<Rightarrow> int \<Rightarrow> perf \<Rightarrow> perf res" where
  "init_perf popen nprocs st =
     bindR (create_perf_stat_counter popen 1 True (st\<lparr>nr_cpus := of_int nprocs\<rparr>)) (\<lambda>(_, st').
       Inr st')"

section \<open>Lemmas\<close>

definition perf_inv :: "perf \<Rightarrow> bool" where
  "perf_inv st \<longleftrightarrow> length (fds st) = MAX_NR_CPUS \<and> unat (nr_cpus st) \<le> MAX_NR_CPUS"

lemma PERF_ATTR_SIZE [simp]: "PERF_ATTR_SIZE = 64"
  by (simp add: PERF_ATTR_SIZE_def struct_size_def align_up_def)

lemma read_counter_closed [simp]: "fd \<le> 0 \<Longrightarrow> read_counter rd fd = 0"
  by (simp add: read_counter_def)

lemma open_steps:
  assumes "n \<le> length (fds st)"
  shows "foldR (open_step popen attr) [0..<n] st =
    Inr (st\<lparr>fds := map (\<lambda>cpu. sys_perf_event_open popen attr (-1) (int cpu) (-1)) [0..<n]
                    @ drop n (fds st)\<rparr>)"
  using assms
proof (induction n)
  case 0
  then show ?case by simp
next
  case (Suc n)
  then show ?case
    by (simp add: foldR_append open_step_def list_update_append Cons_nth_drop_Suc [symmetric]
        del: drop_Suc_Cons)
qed

lemma open_steps_out:
  assumes "length (fds st) < n"
  shows "foldR (open_step popen attr) [0..<n] st = Inl (Undefined OutOfBounds)"
proof -
  have "[0..<n] = [0..<length (fds st)] @ length (fds st) # [Suc (length (fds st))..<n]"
    using assms upt_add_eq_append [of 0 "length (fds st)" "n - length (fds st)"]
    by (simp add: upt_conv_Cons)
  then show ?thesis
    using open_steps [of "length (fds st)" st popen attr]
    by (simp add: foldR_append open_step_def)
qed

lemma close_steps:
  assumes "n \<le> length (fds st)"
  shows "foldR close_step [0..<n] (cl, st) =
    Inr (cl @ filter (\<lambda>f. f > 0) (take n (fds st)),
         st\<lparr>fds := map (\<lambda>f. if f > 0 then -1 else f) (take n (fds st)) @ drop n (fds st)\<rparr>)"
  using assms
proof (induction n)
  case 0
  then show ?case by simp
next
  case (Suc n)
  then have n: "n < length (fds st)" by simp
  from n have "drop n (fds st) = fds st ! n # drop (Suc n) (fds st)"
    by (simp add: Cons_nth_drop_Suc)
  with Suc n show ?case
    by (simp add: foldR_append close_step_def nth_append list_update_append take_Suc_conv_app_nth)
qed

lemma close_steps_none:
  assumes "n \<le> length (fds st)" and "list_all (\<lambda>f. f \<le> 0) (take n (fds st))"
  shows "foldR close_step [0..<n] ([], st) = Inr ([], st)"
proof -
  have "filter (\<lambda>f. f > 0) (take n (fds st)) = []"
    and "map (\<lambda>f. if f > 0 then -1 else f) (take n (fds st)) = take n (fds st)"
    using assms(2) by (auto simp: list_all_iff filter_empty_conv intro!: map_idI)
  then show ?thesis using close_steps [OF assms(1), of "[]"] by simp
qed

lemma read_cpu_sum:
  assumes "unat (nr_cpus st) \<le> length (fds st)"
  shows "read_cpu_counter rd st =
    Inr (sum_list (map (read_counter rd) (take (unat (nr_cpus st)) (fds st))))"
proof -
  have "foldR (\<lambda>cpu result. if cpu \<ge> length (fds st) then Inl (Undefined OutOfBounds)
                          else Inr (result + read_counter rd (fds st ! cpu))) [0..<n] 0 =
      Inr (sum_list (map (read_counter rd) (take n (fds st))))" if "n \<le> length (fds st)" for n
    using that by (induction n) (auto simp: foldR_append take_Suc_conv_app_nth)
  then show ?thesis using assms by (simp add: read_cpu_counter_def cpu_indices_def)
qed

lemma init_perf_steps:
  assumes "length (fds st) = MAX_NR_CPUS" and "n = unat (of_int nprocs :: u32)"
  shows "init_perf popen nprocs st =
    (if n = 0 \<or> MAX_NR_CPUS < n then Inl (Undefined OutOfBounds)
     else Inr (st\<lparr>nr_cpus := of_int nprocs,
       fds := map (\<lambda>cpu. sys_perf_event_open popen
           (attrs0\<lparr>attr_read_format :=
              or PERF_FORMAT_TOTAL_TIME_ENABLED PERF_FORMAT_TOTAL_TIME_RUNNING\<rparr>) (-1) (int cpu) (-1)) [0..<n]
         @ drop n (fds st)\<rparr>))"
proof -
  let ?w = "of_int nprocs :: u32"
  let ?st = "st\<lparr>nr_cpus := ?w\<rparr>"
  have last: "unat (?w - 1) = (if n = 0 then 2 ^ 32 - 1 else n - 1)"
  proof (cases "?w = 0")
    case False
    then have "1 \<le> unat ?w" by (simp add: Suc_le_eq unat_gt_0)
    with False show ?thesis using assms(2) by (simp add: unat_sub_if')
  qed (simp add: assms(2) unsigned_minus_1_eq_mask mask_eq_exp_minus_1)
  show ?thesis
  proof (cases "n \<le> MAX_NR_CPUS")
    case True
    then show ?thesis
      using assms open_steps [of n ?st popen] last
      by (simp add: init_perf_def create_perf_stat_counter_def cpu_indices_def Let_def
          MAX_NR_CPUS_def) linarith
  next
    case False
    then show ?thesis
      using assms open_steps_out [of ?st n popen]
      by (simp add: init_perf_def create_perf_stat_counter_def cpu_indices_def Let_def)
  qed
qed

lemma init_perf_inv:
  assumes "length (fds st) = MAX_NR_CPUS" and "init_perf popen nprocs st = Inr st'"
  shows "perf_inv st'"
  using assms init_perf_steps [OF assms(1) refl, of popen nprocs]
  by (auto simp: perf_inv_def split: if_splits)

lemma close_all_counters_result:
  assumes "perf_inv st"
  shows "\<exists>cl st'. close_all_counters tree st = Inr (cl, st') \<and>
    mset cl = mset (filter (\<lambda>f. f > 0) (take (unat (nr_cpus st)) (fds st)))
            + mset (filter (\<lambda>f. f > 0) (map (fst \<circ> snd) (entries tree))) \<and>
    perf_inv st' \<and> list_all (\<lambda>f. f \<le> 0) (take (unat (nr_cpus st)) (fds st')) \<and>
    close_all_counters NULL st' = Inr ([], st')"
proof -
  let ?n = "unat (nr_cpus st)"
  let ?st' = "st\<lparr>fds := map (\<lambda>f. if f > 0 then -1 else f) (take ?n (fds st)) @ drop ?n (fds st)\<rparr>"
  have n: "?n \<le> length (fds st)" using assms by (simp add: perf_inv_def)
  have 1: "close_all_counters tree st =
      Inr (filter (\<lambda>f. f > 0) (take ?n (fds st)) @ snd (empty_avl tree), ?st')"
    using close_steps [OF n, of "[]"] by (simp add: close_all_counters_def cpu_indices_def)
  have tk: "take ?n (fds ?st') = map (\<lambda>f. if f > 0 then -1 else f) (take ?n (fds st))"
    using n by simp
  then have le: "list_all (\<lambda>f. f \<le> 0) (take ?n (fds ?st'))"
    by (simp only: list_all_iff) auto
  have n': "?n \<le> length (fds ?st')" using n by simp
  have 2: "close_all_counters NULL ?st' = Inr ([], ?st')"
    using close_steps_none [OF n' le] by (simp add: close_all_counters_def cpu_indices_def)
  show ?thesis
    using 1 2 le assms n empty_avl_closes [of tree] by (auto simp: perf_inv_def)
qed

section \<open>Properties\<close>

text \<open>C16: opening the per-CPU counters stays inside the static descriptor array exactly when there
  is at least one CPU and at most \<^verbatim>\<open>MAX_NR_CPUS\<close>; then the first \<open>n\<close> descriptors are the kernel's
  answers for CPU 0 to \<open>n - 1\<close> and the others are untouched.  With more CPUs the code writes past
  the array: nothing checks \<^verbatim>\<open>MAX_NR_CPUS\<close> (\<^verbatim>\<open>get_cpu_nr\<close> is called with an unlimited maximum).\<close>

theorem init_perf_array_bounds:
  assumes "length (fds st) = MAX_NR_CPUS" and "n = unat (of_int nprocs :: u32)"
  shows "init_perf popen nprocs st =
    (if n = 0 \<or> MAX_NR_CPUS < n then Inl (Undefined OutOfBounds)
     else Inr (st\<lparr>nr_cpus := of_int nprocs,
       fds := map (\<lambda>cpu. sys_perf_event_open popen
           (attrs0\<lparr>attr_read_format := or PERF_FORMAT_TOTAL_TIME_ENABLED
              PERF_FORMAT_TOTAL_TIME_RUNNING\<rparr>) (-1) (int cpu) (-1)) [0..<n]
         @ drop n (fds st)\<rparr>))"
  by (rule init_perf_steps [OF assms])

theorem init_perf_array_bounds_witness:
  "init_perf (\<lambda>a p c g. c + 3) 64 perf0 = Inl (Undefined OutOfBounds)"
  using init_perf_array_bounds [of perf0 64 64 "\<lambda>a p c g. c + 3"]
  by (simp add: perf0_def MAX_NR_CPUS_def)

text \<open>C15: at shutdown every open per-CPU descriptor and every open descriptor of the tree is
  closed exactly once, nothing else is closed, and afterwards no per-CPU descriptor counts as
  open, so a second call on the array would close nothing more.\<close>

theorem close_all_counters_once:
  assumes "perf_inv st"
  shows "\<exists>cl st'. close_all_counters tree st = Inr (cl, st') \<and>
    mset cl = mset (filter (\<lambda>f. f > 0) (take (unat (nr_cpus st)) (fds st)))
            + mset (filter (\<lambda>f. f > 0) (map (fst \<circ> snd) (entries tree))) \<and>
    perf_inv st' \<and> list_all (\<lambda>f. f \<le> 0) (take (unat (nr_cpus st)) (fds st')) \<and>
    close_all_counters NULL st' = Inr ([], st')"
  by (rule close_all_counters_result [OF assms])

theorem close_all_counters_once_witness:
  "\<exists>cl st'. close_all_counters (AvlNode 7 5 NULL NULL 0 (None, None))
      \<lparr>nr_cpus = 2, fds = [3, 4] @ replicate 30 0\<rparr> = Inr (cl, st') \<and>
    mset cl = {#3, 4, 5#}"
  using close_all_counters_once [of "\<lparr>nr_cpus = 2, fds = [3, 4] @ replicate 30 0\<rparr>"
      "AvlNode 7 5 NULL NULL 0 (None, None)"]
  by (auto simp: perf_inv_def MAX_NR_CPUS_def)

end
