(* ===== verification/PerfAbi.thy ===== *)
theory PerfAbi
  imports Eperf
begin

text \<open>
  The user part of \<^verbatim>\<open>perf_event.h\<close>: the event types and events with their numbers, the bits of the sample
  and read formats, and when a request is one the header defines.
\<close>

section \<open>Events\<close>

datatype perf_type_id = TYPE_HARDWARE | TYPE_SOFTWARE | TYPE_TRACEPOINT | TYPE_HW_CACHE | TYPE_RAW

fun type_code :: "perf_type_id \<Rightarrow> u32" where
  "type_code TYPE_HARDWARE = 0"
| "type_code TYPE_SOFTWARE = 1"
| "type_code TYPE_TRACEPOINT = 2"
| "type_code TYPE_HW_CACHE = 3"
| "type_code TYPE_RAW = 4"

datatype perf_hw_id = HW_CPU_CYCLES | HW_INSTRUCTIONS | HW_CACHE_REFERENCES | HW_CACHE_MISSES |
  HW_BRANCH_INSTRUCTIONS | HW_BRANCH_MISSES | HW_BUS_CYCLES

fun hw_code :: "perf_hw_id \<Rightarrow> u64" where
  "hw_code HW_CPU_CYCLES = 0"
| "hw_code HW_INSTRUCTIONS = 1"
| "hw_code HW_CACHE_REFERENCES = 2"
| "hw_code HW_CACHE_MISSES = 3"
| "hw_code HW_BRANCH_INSTRUCTIONS = 4"
| "hw_code HW_BRANCH_MISSES = 5"
| "hw_code HW_BUS_CYCLES = 6"

datatype perf_sw_ids = SW_CPU_CLOCK | SW_TASK_CLOCK | SW_PAGE_FAULTS | SW_CONTEXT_SWITCHES | SW_CPU_MIGRATIONS |
  SW_PAGE_FAULTS_MIN | SW_PAGE_FAULTS_MAJ

fun sw_code :: "perf_sw_ids \<Rightarrow> u64" where
  "sw_code SW_CPU_CLOCK = 0"
| "sw_code SW_TASK_CLOCK = 1"
| "sw_code SW_PAGE_FAULTS = 2"
| "sw_code SW_CONTEXT_SWITCHES = 3"
| "sw_code SW_CPU_MIGRATIONS = 4"
| "sw_code SW_PAGE_FAULTS_MIN = 5"
| "sw_code SW_PAGE_FAULTS_MAJ = 6"

text \<open>An event of a request; the numbers of the other three types are given by the kernel or the processor.\<close>

datatype perf_event = Hardware perf_hw_id | Software perf_sw_ids | Tracepoint u64 | Hw_cache u64 | Raw u64

fun event_type :: "perf_event \<Rightarrow> perf_type_id" where
  "event_type (Hardware h) = TYPE_HARDWARE"
| "event_type (Software s) = TYPE_SOFTWARE"
| "event_type (Tracepoint c) = TYPE_TRACEPOINT"
| "event_type (Hw_cache c) = TYPE_HW_CACHE"
| "event_type (Raw c) = TYPE_RAW"

fun event_config :: "perf_event \<Rightarrow> u64" where
  "event_config (Hardware h) = hw_code h"
| "event_config (Software s) = sw_code s"
| "event_config (Tracepoint c) = c"
| "event_config (Hw_cache c) = c"
| "event_config (Raw c) = c"

definition event_of :: "perf_event_attr \<Rightarrow> perf_event option" where
  "event_of a =
    (let t = attr_type a; c = attr_config a;
         hw = filter (\<lambda>h. hw_code h = c) [HW_CPU_CYCLES, HW_INSTRUCTIONS, HW_CACHE_REFERENCES, HW_CACHE_MISSES,
           HW_BRANCH_INSTRUCTIONS, HW_BRANCH_MISSES, HW_BUS_CYCLES];
         sw = filter (\<lambda>s. sw_code s = c) [SW_CPU_CLOCK, SW_TASK_CLOCK, SW_PAGE_FAULTS, SW_CONTEXT_SWITCHES,
           SW_CPU_MIGRATIONS, SW_PAGE_FAULTS_MIN, SW_PAGE_FAULTS_MAJ]
     in if t = type_code TYPE_HARDWARE then (if hw = [] then None else Some (Hardware (hd hw)))
        else if t = type_code TYPE_SOFTWARE then (if sw = [] then None else Some (Software (hd sw)))
        else if t = type_code TYPE_TRACEPOINT then Some (Tracepoint c)
        else if t = type_code TYPE_HW_CACHE then Some (Hw_cache c)
        else if t = type_code TYPE_RAW then Some (Raw c)
        else None)"

lemma event_of_code:
  "event_of a = Some e \<longleftrightarrow> attr_type a = type_code (event_type e) \<and> attr_config a = event_config e"
proof
  assume "event_of a = Some e"
  then show "attr_type a = type_code (event_type e) \<and> attr_config a = event_config e"
    by (auto simp: event_of_def Let_def split: if_splits)
next
  assume "attr_type a = type_code (event_type e) \<and> attr_config a = event_config e"
  moreover have "filter (\<lambda>h. hw_code h = hw_code x) [HW_CPU_CYCLES, HW_INSTRUCTIONS, HW_CACHE_REFERENCES, HW_CACHE_MISSES,
           HW_BRANCH_INSTRUCTIONS, HW_BRANCH_MISSES, HW_BUS_CYCLES] = [x]" for x by (cases x) simp_all
  moreover have "filter (\<lambda>s. sw_code s = sw_code x) [SW_CPU_CLOCK, SW_TASK_CLOCK, SW_PAGE_FAULTS, SW_CONTEXT_SWITCHES,
           SW_CPU_MIGRATIONS, SW_PAGE_FAULTS_MIN, SW_PAGE_FAULTS_MAJ] = [x]" for x by (cases x) simp_all
  ultimately show "event_of a = Some e" by (cases e) (simp_all add: event_of_def)
qed

section \<open>Formats\<close>

text \<open>The bits of \<^verbatim>\<open>sample_type\<close>, in the order of the header, and the first one that is not defined.\<close>

datatype perf_event_sample_format = SAMPLE_IP | SAMPLE_TID | SAMPLE_TIME | SAMPLE_ADDR | SAMPLE_READ |
  SAMPLE_CALLCHAIN | SAMPLE_ID | SAMPLE_CPU | SAMPLE_PERIOD | SAMPLE_STREAM_ID | SAMPLE_RAW

fun sample_bit :: "perf_event_sample_format \<Rightarrow> nat" where
  "sample_bit SAMPLE_IP = 0"
| "sample_bit SAMPLE_TID = 1"
| "sample_bit SAMPLE_TIME = 2"
| "sample_bit SAMPLE_ADDR = 3"
| "sample_bit SAMPLE_READ = 4"
| "sample_bit SAMPLE_CALLCHAIN = 5"
| "sample_bit SAMPLE_ID = 6"
| "sample_bit SAMPLE_CPU = 7"
| "sample_bit SAMPLE_PERIOD = 8"
| "sample_bit SAMPLE_STREAM_ID = 9"
| "sample_bit SAMPLE_RAW = 10"

definition PERF_SAMPLE_MAX :: u64 where "PERF_SAMPLE_MAX = push_bit 11 1"
definition PERF_FORMAT_MAX :: u64 where "PERF_FORMAT_MAX = push_bit 4 1"
definition PERF_ATTR_SIZE_VER0 :: u32 where "PERF_ATTR_SIZE_VER0 = 64"

lemma sample_bit_defined: "push_bit (sample_bit f) 1 < PERF_SAMPLE_MAX"
  by (cases f) (simp_all add: PERF_SAMPLE_MAX_def)

text \<open>A request of the first version of the interface, with nothing set that the header does not define.\<close>

definition valid_request :: "perf_event_attr \<Rightarrow> bool" where
  "valid_request a \<longleftrightarrow> attr_size a = PERF_ATTR_SIZE_VER0 \<and> event_of a \<noteq> None \<and> attr_sample_type a < PERF_SAMPLE_MAX \<and>
     attr_read_format a < PERF_FORMAT_MAX \<and> attr_reserved_1 a = 0 \<and> attr_reserved_2 a = 0 \<and> attr_reserved_3 a = 0"

end
