(* ===== verification/PerfAttr.thy ===== *)
theory PerfAttr
  imports PerfAbi
begin

text \<open>
  The memory image of \<^verbatim>\<open>struct perf_event_attr\<close> (\<^verbatim>\<open>perf_event.h\<close>): the kernel is given the address of
  the struct and reads its bytes, so the order and width of the members and of the flag bits matter.
\<close>

section \<open>Words as bytes, least significant first\<close>

type_synonym byte = "8 word"

definition le_bytes :: "nat \<Rightarrow> 'a::len word \<Rightarrow> byte list" where
  "le_bytes n w = map (\<lambda>i. ucast (drop_bit (8 * i) w)) [0..<n]"

fun of_le :: "byte list \<Rightarrow> 'a::len word" where
  "of_le [] = 0"
| "of_le (b # bs) = or (ucast b) (push_bit 8 (of_le bs))"

lemma le_bytes_length [simp]: "length (le_bytes n w) = n"
  by (simp add: le_bytes_def)

lemma bit_of_le:
  "bit (of_le bs :: 'a::len word) i \<longleftrightarrow> i < LENGTH('a) \<and> i div 8 < length bs \<and> bit (bs ! (i div 8)) (i mod 8)"
proof (induction bs arbitrary: i)
  case (Cons b bs)
  have b: "\<not> bit b i" if "8 \<le> i" using that bit_imp_le_length [of b i] by auto
  show ?case
  proof (cases "i < 8")
    case True
    then show ?thesis by (auto simp: bit_simps)
  next
    case False
    then have "i div 8 = Suc ((i - 8) div 8)" "i mod 8 = (i - 8) mod 8" by (simp_all add: le_div_geq le_mod_geq)
    then show ?thesis using False b by (auto simp: bit_simps Cons.IH)
  qed
qed simp

lemma of_le_bytes:
  assumes "LENGTH('a) \<le> 8 * n"
  shows "of_le (le_bytes n (w :: 'a::len word)) = w"
proof (rule bit_word_eqI)
  fix i assume i: "i < LENGTH('a)"
  then have "i div 8 < n" using assms by linarith
  then show "bit (of_le (le_bytes n w) :: 'a word) i = bit w i"
    using i by (simp add: bit_of_le le_bytes_def bit_simps)
qed

lemma le_bytes_of_le:
  assumes "length bs = n" and "8 * n \<le> LENGTH('a::len)"
  shows "le_bytes n (of_le bs :: 'a word) = bs"
proof (rule nth_equalityI)
  fix i assume "i < length (le_bytes n (of_le bs :: 'a word))"
  then have i: "i < n" by simp
  show "le_bytes n (of_le bs :: 'a word) ! i = bs ! i"
  proof (rule bit_word_eqI)
    fix k assume k: "k < LENGTH(8)"
    have "8 * i + k < LENGTH('a)" using i k assms(2) by auto
    then show "bit (le_bytes n (of_le bs :: 'a word) ! i) k = bit (bs ! i) k"
      using i k assms(1) by (simp add: le_bytes_def bit_simps bit_of_le)
  qed
qed (simp add: assms)

section \<open>The flag bits\<close>

text \<open>The first bit-field is bit 0, as the compiler lays bit-fields out on x86-64.\<close>

definition attr_flags :: "perf_event_attr \<Rightarrow> bool list" where
  "attr_flags a = [attr_disabled a, attr_inherit a, attr_pinned a, attr_exclusive a, attr_exclude_user a,
     attr_exclude_kernel a, attr_exclude_hv a, attr_exclude_idle a, attr_mmap a, attr_comm a, attr_freq a,
     attr_inherit_stat a, attr_enable_on_exec a, attr_task a, attr_watermark a]"

definition flag_word :: "perf_event_attr \<Rightarrow> u64" where
  "flag_word a = or (horner_sum of_bool 2 (attr_flags a)) (push_bit 15 (ucast (attr_reserved_1 a)))"

lemma bit_flag_word:
  "bit (flag_word a) i \<longleftrightarrow> (if i < 15 then attr_flags a ! i else i < 64 \<and> bit (attr_reserved_1 a) (i - 15))"
proof -
  have l: "length (attr_flags a) = 15" by (simp add: attr_flags_def)
  have "\<not> bit (attr_reserved_1 a) (i - 15)" if "64 \<le> i"
    using that bit_imp_le_length [of "attr_reserved_1 a" "i - 15"] by auto
  then show ?thesis
    unfolding flag_word_def by (auto simp: bit_simps bit_horner_sum_bit_iff l)
qed

section \<open>The struct\<close>

definition attr_bytes :: "perf_event_attr \<Rightarrow> byte list" where
  "attr_bytes a = le_bytes 4 (attr_type a) @ le_bytes 4 (attr_size a) @ le_bytes 8 (attr_config a) @
     le_bytes 8 (attr_sample a) @ le_bytes 8 (attr_sample_type a) @ le_bytes 8 (attr_read_format a) @
     le_bytes 8 (flag_word a) @ le_bytes 4 (attr_wakeup a) @ le_bytes 4 (attr_reserved_2 a) @
     le_bytes 8 (attr_reserved_3 a)"

definition field :: "nat \<Rightarrow> nat \<Rightarrow> byte list \<Rightarrow> 'a::len word" where
  "field k n bs = of_le (take n (drop k bs))"

definition attr_of_bytes :: "byte list \<Rightarrow> perf_event_attr" where
  "attr_of_bytes bs =
    (let w = field 40 8 bs :: u64
     in \<lparr>attr_type = field 0 4 bs, attr_size = field 4 4 bs, attr_config = field 8 8 bs,
         attr_sample = field 16 8 bs, attr_sample_type = field 24 8 bs, attr_read_format = field 32 8 bs,
         attr_disabled = bit w 0, attr_inherit = bit w 1, attr_pinned = bit w 2, attr_exclusive = bit w 3,
         attr_exclude_user = bit w 4, attr_exclude_kernel = bit w 5, attr_exclude_hv = bit w 6,
         attr_exclude_idle = bit w 7, attr_mmap = bit w 8, attr_comm = bit w 9, attr_freq = bit w 10,
         attr_inherit_stat = bit w 11, attr_enable_on_exec = bit w 12, attr_task = bit w 13,
         attr_watermark = bit w 14, attr_reserved_1 = ucast (drop_bit 15 w),
         attr_wakeup = field 48 4 bs, attr_reserved_2 = field 52 4 bs, attr_reserved_3 = field 56 8 bs\<rparr>)"

lemma attr_bytes_length [simp]: "length (attr_bytes a) = PERF_ATTR_SIZE"
  by (simp add: attr_bytes_def)

lemma attr_bytes_fields:
  "field 0 4 (attr_bytes a) = attr_type a" "field 4 4 (attr_bytes a) = attr_size a"
  "field 8 8 (attr_bytes a) = attr_config a" "field 16 8 (attr_bytes a) = attr_sample a"
  "field 24 8 (attr_bytes a) = attr_sample_type a" "field 32 8 (attr_bytes a) = attr_read_format a"
  "field 40 8 (attr_bytes a) = flag_word a" "field 48 4 (attr_bytes a) = attr_wakeup a"
  "field 52 4 (attr_bytes a) = attr_reserved_2 a" "field 56 8 (attr_bytes a) = attr_reserved_3 a"
  by (simp_all add: field_def attr_bytes_def of_le_bytes)

lemma flag_word_reserved: "ucast (drop_bit 15 (flag_word a)) = attr_reserved_1 a"
  by (rule bit_word_eqI) (simp add: bit_simps bit_flag_word)

lemma attr_of_bytes_attr: "attr_of_bytes (attr_bytes a) = a"
  by (simp add: attr_of_bytes_def attr_bytes_fields flag_word_reserved bit_flag_word attr_flags_def Let_def)

lemma flag_word_of_bytes: "flag_word (attr_of_bytes bs) = field 40 8 bs"
proof (rule bit_word_eqI)
  fix i assume "i < LENGTH(64)"
  then have i: "i < 64" by simp
  define w :: u64 where "w = field 40 8 bs"
  have "attr_flags (attr_of_bytes bs) = map (bit w) [0..<15]"
  proof -
    have "[0..<15] = [0, 1, 2, 3, 4, 5, 6, 7, 8, 9, 10, 11, 12, 13, 14::nat]" by code_simp
    then show ?thesis by (simp add: attr_flags_def attr_of_bytes_def Let_def w_def del: upt_rec_numeral)
  qed
  moreover have "attr_reserved_1 (attr_of_bytes bs) = ucast (drop_bit 15 w)"
    by (simp add: attr_of_bytes_def Let_def w_def)
  ultimately show "bit (flag_word (attr_of_bytes bs)) i = bit (field 40 8 bs :: u64) i"
    unfolding w_def [symmetric] using i by (auto simp: bit_flag_word bit_simps)
qed

lemma take_fields: "take n (drop k bs) @ drop (n + k) bs = drop k bs"
  by (metis append_take_drop_id drop_drop)

lemma attr_bytes_of:
  assumes "length bs = PERF_ATTR_SIZE"
  shows "attr_bytes (attr_of_bytes bs) = bs"
proof -
  have f: "le_bytes n (field k n bs :: 'a::len word) = take n (drop k bs)" if "k + n \<le> 64" "8 * n \<le> LENGTH('a)" for k n
    unfolding field_def using that assms by (intro le_bytes_of_le) simp_all
  have "attr_bytes (attr_of_bytes bs) = take 4 (drop 0 bs) @ take 4 (drop 4 bs) @ take 8 (drop 8 bs) @
      take 8 (drop 16 bs) @ take 8 (drop 24 bs) @ take 8 (drop 32 bs) @ take 8 (drop 40 bs) @
      take 4 (drop 48 bs) @ take 4 (drop 52 bs) @ take 8 (drop 56 bs)"
    unfolding attr_bytes_def flag_word_of_bytes by (simp add: attr_of_bytes_def Let_def f)
  also have "\<dots> = bs"
    using take_fields [of 4 0 bs] take_fields [of 4 4 bs] take_fields [of 8 8 bs] take_fields [of 8 16 bs]
      take_fields [of 8 24 bs] take_fields [of 8 32 bs] take_fields [of 8 40 bs] take_fields [of 4 48 bs]
      take_fields [of 4 52 bs] take_fields [of 8 56 bs] assms by simp
  finally show ?thesis .
qed

section \<open>The request of the program\<close>

text \<open>Event 3 of type 0, 64 bytes, both times in the answer; the flags are left open.\<close>

definition request_bytes :: "byte \<Rightarrow> byte \<Rightarrow> byte list" where
  "request_bytes lo hi = replicate 4 0 @ [64, 0, 0, 0] @ [3] @ replicate 7 0 @ replicate 16 0 @ [3] @ replicate 7 0 @
     [lo, hi] @ replicate 6 0 @ replicate 16 0"

lemma request:
  "attr_bytes (attrs0\<lparr>attr_read_format := 3, attr_size := 64\<rparr>) = request_bytes 0 0"
  "attr_bytes (attrs0\<lparr>attr_read_format := 3, attr_inherit := True, attr_disabled := False,
     attr_enable_on_exec := True, attr_size := 64\<rparr>) = request_bytes 2 16"
  by code_simp+

lemma request_valid:
  "valid_request (attr_of_bytes (request_bytes 2 16)) \<and> event_of (attr_of_bytes (request_bytes 2 16)) = Some (Hardware HW_CACHE_MISSES)"
  "valid_request (attr_of_bytes (request_bytes 0 0)) \<and> event_of (attr_of_bytes (request_bytes 0 0)) = Some (Hardware HW_CACHE_MISSES)"
  unfolding request [symmetric] attr_of_bytes_attr
  by (simp_all add: valid_request_def event_of_code attrs0_def PERF_TYPE_HARDWARE_def PERF_COUNT_HW_CACHE_MISSES_def
      PERF_ATTR_SIZE_VER0_def PERF_SAMPLE_MAX_def PERF_FORMAT_MAX_def)
    (rule exI [of _ "Hardware HW_CACHE_MISSES"]; simp)+

section \<open>Properties\<close>



text \<open>C19: what the kernel sees: for a process the program asks for the hardware event 3 (cache misses) with both
  times in the answer, inherited by children and enabled when it calls \<^verbatim>\<open>exec\<close>, for any processor and in no
  group; for the whole system it asks for the same event on each processor in turn, no flag set.  Both
  requests are valid in the first version of the interface.\<close>

theorem counter_request_bytes:
  assumes "length (fds st) = MAX_NR_CPUS" and "n = unat (of_int nprocs :: u32)" and "n \<in> {1..32}"
  shows "create_perf_stat_counter (\<lambda>a. sys (attr_bytes a)) tpid False st =
     Inr (sys (request_bytes 2 16) tpid (- 1) (- 1), st) \<and>
   init_perf (\<lambda>a. sys (attr_bytes a)) nprocs st =
     Inr (st\<lparr>nr_cpus := of_int nprocs,
       fds := map (\<lambda>cpu. sys (request_bytes 0 0) (- 1) (int cpu) (- 1)) [0..<n] @ drop n (fds st)\<rparr>) \<and>
   (\<forall>bs \<in> {request_bytes 2 16, request_bytes 0 0}.
      valid_request (attr_of_bytes bs) \<and> event_of (attr_of_bytes bs) = Some (Hardware HW_CACHE_MISSES))"
proof -
  have f: "or PERF_FORMAT_TOTAL_TIME_ENABLED PERF_FORMAT_TOTAL_TIME_RUNNING = 3"
    by (simp add: PERF_FORMAT_TOTAL_TIME_ENABLED_def PERF_FORMAT_TOTAL_TIME_RUNNING_def)
  have "sys_perf_event_open (\<lambda>a. sys (attr_bytes a)) (attrs0\<lparr>attr_read_format := 3\<rparr>) p c g = sys (request_bytes 0 0) p c g" for p c g
    using request(1) by (simp add: sys_perf_event_open_def)
  then have "init_perf (\<lambda>a. sys (attr_bytes a)) nprocs st =
     Inr (st\<lparr>nr_cpus := of_int nprocs,
       fds := map (\<lambda>cpu. sys (request_bytes 0 0) (- 1) (int cpu) (- 1)) [0..<n] @ drop n (fds st)\<rparr>)"
    using assms(3) by (subst init_perf_steps [OF assms(1,2)]) (simp add: f MAX_NR_CPUS_def)
  then show ?thesis
    using request(2) request_valid by (simp add: create_perf_stat_counter_def sys_perf_event_open_def f)
qed

theorem counter_request_bytes_witness:
  "\<exists>st. init_perf (\<lambda>a p c g. int (length (attr_bytes a)) + c) 2 perf0 = Inr st \<and> take 2 (fds st) = [64, 65]"
proof -
  have "length (fds perf0) = MAX_NR_CPUS" "(2::nat) = unat (of_int 2 :: u32)" "(2::nat) \<in> {1..32}" by (simp_all add: perf0_def)
  note r = counter_request_bytes [OF this, of "\<lambda>bs p c g. int (length bs) + c" 1]
  have "length (request_bytes 0 0) = 64" by (simp add: request_bytes_def)
  then show ?thesis using r by (simp add: upt_rec)
qed

end
