(* ===== verification/PerfRead.thy ===== *)
theory PerfRead
  imports Eperf
begin

text \<open>
  Opening and reading fit together: what the kernel writes into the buffer of \<^verbatim>\<open>read_counter\<close> depends on
  the \<^verbatim>\<open>read_format\<close> the counter was opened with (\<^verbatim>\<open>perf_event.h\<close>), and the two functions of \<^verbatim>\<open>eperf.c\<close>
  decide about it in different places.  The kernel's part is an assumption, in the words of the header.
\<close>

section \<open>The documented format\<close>

text \<open>The words a read returns for a counter that is not in a group.\<close>

definition read_format :: "u64 \<Rightarrow> u64 \<Rightarrow> u64 \<Rightarrow> u64 \<Rightarrow> u64 \<Rightarrow> u64 list" where
  "read_format fmt val time_enabled time_running ident =
     [val] @ (if bit fmt 0 then [time_enabled] else []) @ (if bit fmt 1 then [time_running] else []) @
     (if bit fmt 2 then [ident] else [])"

text \<open>
  A kernel: which descriptor belongs to which attributes, and for each descriptor the count, the times
  and the identifier.  A read with a buffer that is too small fails, otherwise it gives the words.
\<close>

record kernel =
  k_attr :: "int \<Rightarrow> perf_event_attr"
  k_count :: "int \<Rightarrow> u64"
  k_enabled :: "int \<Rightarrow> u64"
  k_running :: "int \<Rightarrow> u64"
  k_id :: "int \<Rightarrow> u64"

definition words :: "kernel \<Rightarrow> int \<Rightarrow> u64 list" where
  "words k fd = read_format (attr_read_format (k_attr k fd)) (k_count k fd) (k_enabled k fd) (k_running k fd) (k_id k fd)"

definition opens :: "kernel \<Rightarrow> perf_open \<Rightarrow> bool" where
  "opens k popen \<longleftrightarrow> (\<forall>a tpid cpu g. 0 < popen a tpid cpu g \<longrightarrow> k_attr k (popen a tpid cpu g) = a)"

definition reads :: "kernel \<Rightarrow> fd_read \<Rightarrow> bool" where
  "reads k rd \<longleftrightarrow> (\<forall>fd len. 0 < fd \<longrightarrow>
     (if len < 8 * length (words k fd) then fst (rd fd len) = - 1
      else fst (rd fd len) = int (8 * length (words k fd)) \<and>
        (\<forall>i < length (words k fd). snd (rd fd len) i = words k fd ! i)))"

section \<open>What the program reads\<close>

lemma read_counter_count:
  assumes "reads k rd" and "0 < fd" and "attr_read_format (k_attr k fd) = 3"
  shows "read_counter rd fd = k_count k fd"
proof -
  have b: "bit (3 :: u64) 0" "bit (3 :: u64) 1" "\<not> bit (3 :: u64) 2" by (simp_all add: bit_numeral_rec)
  have w: "words k fd = [k_count k fd, k_enabled k fd, k_running k fd]"
    using b by (simp add: words_def read_format_def assms(3))
  then have "fst (rd fd 24) = 24 \<and> snd (rd fd 24) 0 = k_count k fd"
    using assms(1,2) unfolding reads_def by force
  then show ?thesis using assms(2) by (cases "rd fd 24") (simp add: read_counter_def)
qed

lemma counter_format: "or PERF_FORMAT_TOTAL_TIME_ENABLED PERF_FORMAT_TOTAL_TIME_RUNNING = 3"
  by (simp add: PERF_FORMAT_TOTAL_TIME_ENABLED_def PERF_FORMAT_TOTAL_TIME_RUNNING_def)

lemma opened_count:
  assumes "opens k popen" and "reads k rd" and "fd = sys_perf_event_open popen a tpid cpu g" and "attr_read_format a = 3"
  shows "read_counter rd fd = (if 0 < fd then k_count k fd else 0)"
proof (cases "0 < fd")
  case True
  then have "k_attr k fd = a\<lparr>attr_size := of_nat PERF_ATTR_SIZE\<rparr>"
    using assms(1,3) by (simp add: opens_def sys_perf_event_open_def)
  then show ?thesis using read_counter_count [OF assms(2) True] True assms(4) by simp
qed simp

section \<open>Property\<close>

text \<open>C17: the counters are read in the format they are opened with: given a kernel that answers as its header
  documents, after the start the memory traffic of the system is the sum of the counts of the counters
  that could be opened, each counter of a process gives its count, and a counter that could not be
  opened gives zero.\<close>

theorem counters_read_back:
  assumes "opens k popen" and "reads k rd" and "length (fds st) = MAX_NR_CPUS" and "init_perf popen nprocs st = Inr st'"
  shows "read_cpu_counter rd st' =
      Inr (sum_list (map (k_count k) (filter (\<lambda>f. 0 < f) (take (unat (nr_cpus st')) (fds st'))))) \<and>
    (create_perf_stat_counter popen tpid False st' = Inr (fd, st'') \<longrightarrow>
      read_counter rd fd = (if 0 < fd then k_count k fd else 0))"
proof
  let ?n = "unat (of_int nprocs :: u32)"
  let ?fd = "\<lambda>cpu. sys_perf_event_open popen (attrs0\<lparr>attr_read_format := 3\<rparr>) (- 1) (int cpu) (- 1)"
  have n: "?n \<le> MAX_NR_CPUS" and st': "nr_cpus st' = of_int nprocs" "fds st' = map ?fd [0..<?n] @ drop ?n (fds st)"
    using init_perf_steps [OF assms(3) refl, of popen nprocs] assms(4) by (auto simp: counter_format split: if_splits)
  have "read_counter rd (?fd cpu) = (if 0 < ?fd cpu then k_count k (?fd cpu) else 0)" for cpu
    by (rule opened_count [OF assms(1,2) refl]) simp
  then have "sum_list (map (read_counter rd) (map ?fd xs)) = sum_list (map (k_count k) (filter (\<lambda>f. 0 < f) (map ?fd xs)))" for xs
    by (induction xs) simp_all
  moreover have "take ?n (fds st') = map ?fd [0..<?n]" by (simp add: st'(2))
  moreover have "unat (nr_cpus st') \<le> length (fds st')" using n assms(3) by (simp add: st')
  ultimately show "read_cpu_counter rd st' =
      Inr (sum_list (map (k_count k) (filter (\<lambda>f. 0 < f) (take (unat (nr_cpus st')) (fds st')))))"
    by (simp add: read_cpu_sum st'(1))
  show "create_perf_stat_counter popen tpid False st' = Inr (fd, st'') \<longrightarrow>
      read_counter rd fd = (if 0 < fd then k_count k fd else 0)"
    using opened_count [OF assms(1,2) refl] by (auto simp: create_perf_stat_counter_def counter_format)
qed

theorem counters_read_back_witness:
  "\<exists>popen rd st'. init_perf popen 2 perf0 = Inr st' \<and> read_cpu_counter rd st' = Inr 70"
proof -
  let ?a = "attrs0\<lparr>attr_read_format := 3, attr_size := 64\<rparr>"
  let ?k = "\<lparr>k_attr = \<lambda>_. ?a, k_count = \<lambda>fd. of_int (10 * fd), k_enabled = \<lambda>_. 9, k_running = \<lambda>_. 8, k_id = \<lambda>_. 0\<rparr>"
  let ?popen = "\<lambda>a tpid cpu g. if a = ?a then cpu + 3 else - 1"
  let ?rd = "\<lambda>fd len. if len < 8 * length (words ?k fd) then (- 1, \<lambda>_. 0)
    else (int (8 * length (words ?k fd)), \<lambda>i. words ?k fd ! i)"
  have o: "opens ?k ?popen" by (simp add: opens_def)
  have r: "reads ?k ?rd" by (simp add: reads_def)
  have l: "length (fds perf0) = MAX_NR_CPUS" by (simp add: perf0_def)
  obtain st' where st': "init_perf ?popen 2 perf0 = Inr st'" "nr_cpus st' = 2" "take 2 (fds st') = [3, 4]"
    using init_perf_steps [OF l refl, of ?popen 2]
    by (simp add: MAX_NR_CPUS_def counter_format sys_perf_event_open_def upt_rec)
  have "read_cpu_counter ?rd st' = Inr 70"
    using counters_read_back [OF o r l st'(1)] st'(2,3) by simp
  then show ?thesis using st'(1) by blast
qed

end
