(* ===== verification/CpuStats.thy ===== *)
theory CpuStats
  imports Common ProcFile
begin

text \<open>
  \<^verbatim>\<open>cpu_stats.c\<close>: the CPU and memory totals of \<^verbatim>\<open>/proc\<close>, the number of CPUs and the energy
  estimate from the cpufreq tables.  A file is the bytes its \<^verbatim>\<open>fopen\<close> gives access to, None when
  it cannot be opened; local buffers start with arbitrary contents.
\<close>

section \<open>State\<close>

record stats_cpu =
  cpu_user :: u64
  cpu_nice :: u64
  cpu_sys :: u64
  cpu_idle :: u64
  cpu_iowait :: u64
  cpu_steal :: u64
  cpu_hardirq :: u64
  cpu_softirq :: u64
  cpu_guest :: u64

record stats_memory =
  frmkb :: u32
  bufkb :: u32
  camkb :: u32
  tlmkb :: u32
  frskb :: u32
  tlskb :: u32
  caskb :: u32
  comkb :: u32

record cpufreqdata =
  frequency :: u64
  freq_count :: u64

record freq_state =
  freqs :: "cpufreqdata list"
  oldfreqs :: "cpufreqdata list"
  freq_delta :: "cpufreqdata list"

definition freq0 :: freq_state where
  "freq0 = (let z = replicate 16 \<lparr>frequency = 0, freq_count = 0\<rparr>
     in \<lparr>freqs = z, oldfreqs = z, freq_delta = z\<rparr>)"

definition zero_memory_stats :: stats_memory where
  "zero_memory_stats = \<lparr>frmkb = 0, bufkb = 0, camkb = 0, tlmkb = 0, frskb = 0, tlskb = 0,
     caskb = 0, comkb = 0\<rparr>"

section \<open>CPU totals\<close>

text \<open>The nine values in the order of the \<^verbatim>\<open>sscanf\<close> call; one that is not read stays zero.\<close>

definition parse_stat_cpu :: "string \<Rightarrow> stats_cpu" where
  "parse_stat_cpu s =
    (let v = scan_ints 9 Unsigned s
     in \<lparr>cpu_user = arg v 0 0, cpu_nice = arg v 1 0, cpu_sys = arg v 2 0, cpu_idle = arg v 3 0,
         cpu_iowait = arg v 4 0, cpu_steal = arg v 7 0, cpu_hardirq = arg v 5 0,
         cpu_softirq = arg v 6 0, cpu_guest = arg v 8 0\<rparr>)"

definition read_stat_cpu :: "string option \<Rightarrow> buf \<Rightarrow> sys_info \<Rightarrow> sys_info res" where
  "read_stat_cpu stat_file line sy =
    (case stat_file of None \<Rightarrow> Inl (Exit 2)
     | Some f \<Rightarrow>
       (case fgets 1024 f line of None \<Rightarrow> Inr sy
        | Some (b, _) \<Rightarrow>
          (let st = parse_stat_cpu (str_at b 5)
           in Inr (sy\<lparr>si_itv := ucast (cpu_user st + cpu_nice st + cpu_sys st + cpu_idle st
                          + cpu_iowait st + cpu_hardirq st + cpu_steal st + cpu_softirq st),
                      si_runtime := ucast (cpu_user st + cpu_sys st - cpu_guest st)\<rparr>))))"

section \<open>Memory totals\<close>

definition meminfo_line :: "buf \<Rightarrow> stats_memory \<Rightarrow> stats_memory" where
  "meminfo_line b st =
    (if has_key b ''MemTotal:'' then st\<lparr>tlmkb := scan_u32 (str_at b 9) (tlmkb st)\<rparr>
     else if has_key b ''MemFree:'' then st\<lparr>frmkb := scan_u32 (str_at b 8) (frmkb st)\<rparr>
     else if has_key b ''Buffers:'' then st\<lparr>bufkb := scan_u32 (str_at b 8) (bufkb st)\<rparr>
     else if has_key b ''Cached:'' then st\<lparr>camkb := scan_u32 (str_at b 7) (camkb st)\<rparr>
     else if has_key b ''SwapCached:'' then st\<lparr>caskb := scan_u32 (str_at b 11) (caskb st)\<rparr>
     else if has_key b ''SwapTotal:'' then st\<lparr>tlskb := scan_u32 (str_at b 10) (tlskb st)\<rparr>
     else if has_key b ''SwapFree:'' then st\<lparr>frskb := scan_u32 (str_at b 9) (frskb st)\<rparr>
     else if has_key b ''Committed_AS:'' then st\<lparr>comkb := scan_u32 (str_at b 13) (comkb st)\<rparr>
     else st)"

definition read_meminfo :: "string option \<Rightarrow> buf \<Rightarrow> stats_memory \<Rightarrow> stats_memory" where
  "read_meminfo meminfo line st =
    (case meminfo of None \<Rightarrow> st | Some f \<Rightarrow> while_fgets 128 meminfo_line f line st)"

section \<open>Number of CPUs\<close>

text \<open>\<open>stat\<close> says whether a path is a directory, None when the call fails.\<close>

definition is_cpu_dir :: "(string \<Rightarrow> bool option) \<Rightarrow> string \<Rightarrow> bool" where
  "is_cpu_dir stat d =
    (take 3 d = ''cpu'' \<and> drop 3 d \<noteq> [] \<and> isdigit (d ! 3) \<and>
     stat (snprintf MAX_PF_NAME (''/sys/devices/system/cpu/'' @ d)) = Some True)"

fun count_cpu_dirs :: "(string \<Rightarrow> bool option) \<Rightarrow> string list \<Rightarrow> int \<Rightarrow> int" where
  "count_cpu_dirs stat [] proc_nr = proc_nr"
| "count_cpu_dirs stat (d # ds) proc_nr =
     count_cpu_dirs stat ds (if is_cpu_dir stat d then proc_nr + 1 else proc_nr)"

definition get_sys_cpu_nr :: "string list option \<Rightarrow> (string \<Rightarrow> bool option) \<Rightarrow> int" where
  "get_sys_cpu_nr dir stat = (case dir of None \<Rightarrow> 0 | Some ds \<Rightarrow> count_cpu_dirs stat ds 0)"

definition proc_cpu_line :: "buf \<Rightarrow> c_int \<times> c_int \<Rightarrow> c_int \<times> c_int" where
  "proc_cpu_line b s =
    (case s of (num_proc, proc_nr) \<Rightarrow>
      if \<not> has_key b ''cpu '' \<and> has_key b ''cpu'' then
        (let n = scan_d32 (str_at b 3) num_proc
         in (n, if sint n > sint proc_nr then n else proc_nr))
      else (num_proc, proc_nr))"

text \<open>\<open>num0\<close> is what the uninitialised \<^verbatim>\<open>num_proc\<close> holds at the start.\<close>

definition get_proc_cpu_nr :: "string option \<Rightarrow> buf \<Rightarrow> c_int \<Rightarrow> c_int res" where
  "get_proc_cpu_nr stat_file line num0 =
    (case stat_file of None \<Rightarrow> Inl (Exit 1)
     | Some f \<Rightarrow> Inr (snd (while_fgets 16 proc_cpu_line f line (num0, -1)) + 1))"

text \<open>\<^verbatim>\<open>cpu_nr > max_nr_cpus\<close> compares an \<^verbatim>\<open>int\<close> with an \<^verbatim>\<open>unsigned int\<close>, so as unsigned values.\<close>

definition get_cpu_nr :: "int \<Rightarrow> u32 \<Rightarrow> c_int res" where
  "get_cpu_nr nprocs max_nr_cpus =
    (let cpu_nr = of_int nprocs :: c_int
     in if cpu_nr > max_nr_cpus then Inl (Exit 1) else Inr cpu_nr)"

definition check_cpufreq_stats :: "(string \<Rightarrow> string option) \<Rightarrow> bool" where
  "check_cpufreq_stats fopen \<longleftrightarrow>
     fopen ''/sys/devices/system/cpu/cpu0/cpufreq/stats/time_in_state'' \<noteq> None"

section \<open>Energy from the frequency tables\<close>

text \<open>The lines of one table: at most 16 rows, each \<^verbatim>\<open>frequency count\<close>.\<close>

fun freq_rows :: "nat \<Rightarrow> char list list \<Rightarrow> buf \<Rightarrow> cpufreqdata list \<Rightarrow> nat \<times> cpufreqdata list" where
  "freq_rows i [] b fr = (i, fr)"
| "freq_rows i (l # ls) b fr =
    (let b' = store l b; v = scan_ints 2 Unsigned (cstr b');
         row = \<lparr>frequency = arg v 0 (frequency (fr ! i)), freq_count = arg v 1 (freq_count (fr ! i))\<rparr>;
         fr' = fr[i := row]; i' = i + 1
     in if i' > 15 then (i', fr') else freq_rows i' ls b' fr')"

text \<open>
  The directory loop over \<^verbatim>\<open>/sys/devices/system/cpu\<close>: every entry whose table opens overwrites
  the rows and sets \<^verbatim>\<open>maxfreq\<close>.
\<close>

fun freq_dirs :: "(string \<Rightarrow> string option) \<Rightarrow> string list \<Rightarrow> int \<times> cpufreqdata list \<Rightarrow>
    int \<times> cpufreqdata list" where
  "freq_dirs fopen [] s = s"
| "freq_dirs fopen (d # ds) (maxfreq, fr) =
    (if take 3 d \<noteq> ''cpu'' then freq_dirs fopen ds (maxfreq, fr)
     else (case fopen (''/sys/devices/system/cpu/'' @ d @ ''/cpufreq/stats/time_in_state'') of
         None \<Rightarrow> freq_dirs fopen ds (maxfreq, fr)
       | Some f \<Rightarrow>
         (let (i, fr') = freq_rows 0 (fgets_all 32 f) (replicate 32 nul) fr
          in freq_dirs fopen ds (int i - 1, fr'))))"

definition maxcpupower :: fp where "maxcpupower = fcast f32 (fl f64 (49/2))"
definition mincpupower :: fp where "mincpupower = fcast f32 (fl f64 6)"

text \<open>The power at frequency step \<open>ret\<close> of \<open>maxfreq\<close>.\<close>

definition step_power :: "int \<Rightarrow> int \<Rightarrow> fp" where
  "step_power ret maxfreq =
     fsub f32 maxcpupower
       (fdiv f32 (fmul f32 (fsub f32 maxcpupower mincpupower) (fofint f32 ret)) (fofint f32 maxfreq))"

text \<open>\<^verbatim>\<open>delta_power\<close> keeps its last value when a step does not assign it.\<close>

fun power_loop :: "bool \<Rightarrow> int \<Rightarrow> u64 list \<Rightarrow> int \<Rightarrow> fp \<Rightarrow> fp \<Rightarrow> fp" where
  "power_loop active maxfreq [] ret delta_power cpupower = cpupower"
| "power_loop active maxfreq (c # cs) ret delta_power cpupower =
    (if ret \<le> maxfreq then
       (let dp = (if active \<and> maxfreq > 0
                  then fdiv f32 (fmul f32 (step_power ret maxfreq) (fofint f32 (uint c))) (fofint f32 100)
                  else delta_power)
        in power_loop active maxfreq cs (ret + 1) dp (fadd f32 cpupower dp))
     else cpupower)"

definition read_cpufreq_stats ::
  "u32 \<Rightarrow> bool \<Rightarrow> string list option \<Rightarrow> (string \<Rightarrow> string option) \<Rightarrow> freq_state \<Rightarrow> sys_info \<Rightarrow>
   freq_state \<times> sys_info" where
  "read_cpufreq_stats time cpufreq_stats dir fopen fs info =
    (let info = info\<lparr>si_time := time, si_cpupower := 0\<rparr>
     in if \<not> cpufreq_stats then (fs, info)
        else
          (let old = freqs fs;
               fr0 = map (\<lambda>r. r\<lparr>freq_count := 0\<rparr>) old
           in case dir of
                None \<Rightarrow> (fs\<lparr>oldfreqs := old, freqs := fr0\<rparr>, info)
              | Some ds \<Rightarrow>
                (let (maxfreq, fr) = freq_dirs fopen ds (0, fr0);
                     dl = map2 (\<lambda>n o'. \<lparr>frequency = frequency n, freq_count = freq_count n - freq_count o'\<rparr>) fr old;
                     total_time = sum_list (map freq_count dl)
                 in (fs\<lparr>freqs := fr, oldfreqs := old, freq_delta := dl\<rparr>,
                     info\<lparr>si_cpupower := power_loop (total_time > 0) maxfreq (map freq_count dl) 0 0 0\<rparr>))))"

section \<open>The meminfo reader as a field reader\<close>

definition meminfo_keys :: "string list" where
  "meminfo_keys = [''MemTotal:'', ''MemFree:'', ''Buffers:'', ''Cached:'', ''SwapCached:'',
     ''SwapTotal:'', ''SwapFree:'', ''Committed_AS:'']"

definition meminfo_set :: "string \<Rightarrow> u64 \<Rightarrow> stats_memory \<Rightarrow> stats_memory" where
  "meminfo_set k v st =
    (if k = ''MemTotal:'' then st\<lparr>tlmkb := ucast v\<rparr>
     else if k = ''MemFree:'' then st\<lparr>frmkb := ucast v\<rparr>
     else if k = ''Buffers:'' then st\<lparr>bufkb := ucast v\<rparr>
     else if k = ''Cached:'' then st\<lparr>camkb := ucast v\<rparr>
     else if k = ''SwapCached:'' then st\<lparr>caskb := ucast v\<rparr>
     else if k = ''SwapTotal:'' then st\<lparr>tlskb := ucast v\<rparr>
     else if k = ''SwapFree:'' then st\<lparr>frskb := ucast v\<rparr>
     else if k = ''Committed_AS:'' then st\<lparr>comkb := ucast v\<rparr>
     else st)"

interpretation meminfo: field_reader meminfo_line meminfo_keys meminfo_set
proof unfold_locales
  fix b :: buf and st :: stats_memory
  assume "\<And>k. k \<in> set meminfo_keys \<Longrightarrow> \<not> has_key b k"
  then show "meminfo_line b st = st" by (simp add: meminfo_line_def meminfo_keys_def)
next
  fix n k sep v r b and st :: stats_memory
  assume ok: "field_ok n (k, sep, v, r)" and k: "k \<in> set meminfo_keys"
  show "meminfo_line (store (field_line (k, sep, v, r) @ [newline]) b) st = meminfo_set k v st"
    using k [unfolded meminfo_keys_def] ok
    by (simp, elim disjE; hypsubst)
      (simp_all add: meminfo_line_def meminfo_set_def scan_u32_def field_facts [where n = n]
        field_key_def)
next
  fix k
  assume "k \<in> set meminfo_keys"
  then show "field_key k" by (auto simp: meminfo_keys_def field_key_def)
qed

section \<open>Bounds of the power estimate\<close>

lemma f32_small:
  assumes "0 \<le> i" and "i < 2 ^ 24"
  shows "fl f32 (of_int i) = Fin (of_int i)" and "fl f32 (of_int i / 2) = Fin (of_int i / 2)"
  using assms fl_exact_int [of i f32] fl_exact_half [of i f32] by (simp_all add: f32_def)

lemma f64_small:
  assumes "0 \<le> i" and "i < 2 ^ 24"
  shows "fl f64 (of_int i) = Fin (of_int i)" and "fl f64 (of_int i / 2) = Fin (of_int i / 2)"
  using assms fl_exact_int [of i f64] fl_exact_half [of i f64] by (simp_all add: f64_def)

lemma maxcpupower_val: "maxcpupower = Fin (49/2)" and mincpupower_val: "mincpupower = Fin 6"
  using f32_small [of 49] f64_small [of 49] f32_small [of 6] f64_small [of 6]
  by (simp_all add: maxcpupower_def mincpupower_def)

lemma step_power_range:
  assumes "0 \<le> ret" and "ret \<le> maxfreq" and "0 < maxfreq" and "maxfreq \<le> 15"
  obtains w where "step_power ret maxfreq = Fin w" and "6 \<le> w" and "w \<le> 49/2"
proof -
  have i: "fofint f32 ret = Fin (of_int ret)" "fofint f32 maxfreq = Fin (of_int maxfreq)"
    "fl f32 (of_int (37 * ret) / 2) = Fin (of_int (37 * ret) / 2)"
    using assms by (auto simp: fofint_def intro!: f32_small simp del: of_int_mult)
  have c: "fl f32 6 = Fin 6" "fl f32 0 = Fin 0" "fl f32 (37/2) = Fin (37/2)" "fl f32 (49/2) = Fin (49/2)"
    using f32_small [of 6] f32_small [of 37] f32_small [of 49] by simp_all
  let ?q = "of_int (37 * ret) / 2 / of_int maxfreq :: rat"
  have "?q \<le> 37 / 2" using assms by (simp add: divide_le_eq)
  moreover have "0 \<le> ?q" using assms by simp
  ultimately obtain y where y: "fl f32 ?q = Fin y" "0 \<le> y" "y \<le> 37/2"
    using fl_between [of 0 ?q "37/2" f32] c by auto
  obtain w where w: "fl f32 (49/2 - y) = Fin w" "6 \<le> w" "w \<le> 49/2"
    using fl_between [of 6 "49/2 - y" "49/2" f32] c y(2,3) by auto
  have "fsub f32 maxcpupower mincpupower = Fin (37/2)"
    using c by (simp add: fsub_def maxcpupower_val mincpupower_val)
  then have "step_power ret maxfreq = Fin w"
    using assms y(1) w(1) i
    by (simp add: step_power_def maxcpupower_val fsub_def)
  then show ?thesis using that w by blast
qed

lemma power_loop_fnn:
  assumes "maxfreq \<le> 15" and "0 \<le> ret" and "Fin 0 \<le> dp" and "fnn f32 pw"
  shows "fnn f32 (power_loop active maxfreq cs ret dp pw)"
  using assms
proof (induction cs arbitrary: active ret dp pw)
  case Nil
  then show ?case by simp
next
  case (Cons c cs)
  let ?e = "fdiv f32 (fmul f32 (step_power ret maxfreq) (fofint f32 (uint c))) (fofint f32 100)"
  have e: "Fin 0 \<le> ?e" if le: "ret \<le> maxfreq" and pos: "maxfreq > 0"
  proof -
    obtain w where w: "step_power ret maxfreq = Fin w" "6 \<le> w"
      by (rule step_power_range [OF Cons.prems(2) le pos Cons.prems(1)])
    have "Fin 0 \<le> fmul f32 (step_power ret maxfreq) (fofint f32 (uint c))"
      using w by (auto intro!: fnn_ge_zero [of f32] fmul_pos_fnn fofint_fnn)
    moreover have "fofint f32 100 = Fin 100" using f32_small [of 100] by (simp add: fofint_def)
    ultimately show ?thesis by (auto intro!: fnn_ge_zero [of f32] fdiv_fnn)
  qed
  show ?case
    using Cons.prems e
    by (auto simp: Let_def intro!: Cons.IH fadd_fnn dest: fnn_ge_zero)
qed

lemma freq_rows_index: "i \<le> 15 \<Longrightarrow> freq_rows i ls b fr = (j, fr') \<Longrightarrow> j \<le> 16"
  by (induction i ls b fr arbitrary: j fr' rule: freq_rows.induct)
    (auto simp: Let_def split: if_splits)

lemma freq_dirs_index: "fst s \<le> 15 \<Longrightarrow> fst (freq_dirs fopen ds s) \<le> 15"
proof (induction fopen ds s rule: freq_dirs.induct)
  case (2 fopen d ds maxfreq fr)
  then show ?case
    using freq_rows_index [of 0] by (force split: option.split prod.split)
qed auto

section \<open>Which table is used\<close>

definition freq_line :: "cpufreqdata \<Rightarrow> string" where
  "freq_line r = show_unsigned (frequency r) @ '' '' @ show_unsigned (freq_count r)"

lemma freq_line_scan:
  "scan_ints 2 Unsigned (freq_line r @ [newline]) = [frequency r, freq_count r]"
proof -
  have "scan_ints 2 Unsigned (freq_line r @ [newline]) =
    scan_ints (length [frequency r, freq_count r]) Unsigned
      (num_row [frequency r, freq_count r] @ [newline])"
    using scan_ints_skip [of "CHR '' ''" 2 Unsigned "freq_line r @ [newline]"]
    by (simp add: is_space_def num_row_def freq_line_def numeral_2_eq_2 del: scan_ints.simps)
  also have "\<dots> = [frequency r, freq_count r]"
    by (rule scan_ints_num_row) (simp add: isdigit_newline)
  finally show ?thesis .
qed

lemma freq_rows_lines:
  assumes "\<And>r. r \<in> set rows \<Longrightarrow> plain 32 (freq_line r)" and "i + length rows \<le> 16"
    and "length fr = 16"
  shows "freq_rows i (map (\<lambda>r. freq_line r @ [newline]) rows) b fr =
    (i + length rows, take i fr @ rows @ drop (i + length rows) fr)"
  using assms
proof (induction rows arbitrary: i b fr)
  case Nil
  then show ?case by simp
next
  case (Cons r rows)
  have i: "i < length fr" using Cons.prems by simp
  have "nul \<notin> set (freq_line r @ [newline])" using Cons.prems(1) [of r] by (simp add: plain_def)
  then have v: "scan_ints 2 Unsigned (cstr (store (freq_line r @ [newline]) b)) = [frequency r, freq_count r]"
    using freq_line_scan by simp
  have row: "\<lparr>frequency = frequency r, freq_count = freq_count r\<rparr> = r" by simp
  have len: "length (fr[i := r]) = 16" using Cons.prems by simp
  have ih: "freq_rows (i + 1) (map (\<lambda>r. freq_line r @ [newline]) rows) b' (fr[i := r]) =
      (i + 1 + length rows, take (i + 1) (fr[i := r]) @ rows @ drop (i + 1 + length rows) (fr[i := r]))" for b'
    using Cons.prems by (intro Cons.IH) auto
  have e: "take (i + 1) (fr[i := r]) = take i fr @ [r]"
    using i by (simp add: take_Suc_conv_app_nth)
  show ?case
  proof (cases "i + 1 > 15")
    case True
    then have "length rows = 0" "i = 15" using Cons.prems(2) by (simp_all del: length_0_conv)
    then have "rows = []" "i = 15" by simp_all
    then show ?thesis using v e i Cons.prems(3)
      by (simp add: row upd_conv_take_nth_drop)
  next
    case False
    then show ?thesis using v ih e i by (simp add: Let_def row)
  qed
qed

lemma freq_dirs_append: "freq_dirs fopen (ds @ es) s = freq_dirs fopen es (freq_dirs fopen ds s)"
proof (induction ds arbitrary: s)
  case (Cons d ds)
  then show ?case by (cases s) (simp split: option.split prod.split)
qed (cases s; simp)

lemma freq_rows_length: "length (snd (freq_rows i ls b fr)) = length fr"
  by (induction i ls b fr rule: freq_rows.induct) (auto simp: Let_def)

lemma freq_dirs_length: "length (snd (freq_dirs fopen ds s)) = length (snd s)"
proof (induction fopen ds s rule: freq_dirs.induct)
  case (2 fopen d ds maxfreq fr)
  then show ?case
    using freq_rows_length [of 0 _ "replicate 32 nul" fr]
    by (auto split: option.split prod.split) (metis snd_conv)+
qed auto

definition freq_path :: "string \<Rightarrow> string" where
  "freq_path d = ''/sys/devices/system/cpu/'' @ d @ ''/cpufreq/stats/time_in_state''"

lemma freq_dirs_closed:
  "(\<And>d. d \<in> set ds \<Longrightarrow> take 3 d = ''cpu'' \<Longrightarrow> fopen (freq_path d) = None) \<Longrightarrow> freq_dirs fopen ds s = s"
  by (induction fopen ds s rule: freq_dirs.induct) (auto simp: freq_path_def)

lemma stat_cpu_row_read:
  "read_stat_cpu (Some (''cpu '' @ num_row [u, n, s, i, w, hi, si, st, g] @ newline # rest)) line sy =
    Inr (sy\<lparr>si_itv := ucast (u + n + s + i + w + hi + si + st), si_runtime := ucast (u + s - g)\<rparr>)"
proof -
  let ?vs = "[u, n, s, i, w, hi, si, st, g]"
  let ?l = "''cpu '' @ num_row ?vs"
  have "length ?l + 1 < 1024" using num_row_length [of ?vs] by simp
  then have p: "plain 1024 ?l" using num_row_plain [of ?vs] by (simp add: plain_def)
  have "str_at (store (?l @ [newline]) line) 5 = drop 5 (?l @ [newline])"
    using p by (intro str_at_store) (auto simp: plain_def num_row_def)
  also have "\<dots> = tl (num_row ?vs @ [newline])" by (simp add: num_row_def)
  finally have d: "str_at (store (?l @ [newline]) line) 5 = tl (num_row ?vs @ [newline])" .
  have "scan_ints 9 Unsigned (tl (num_row ?vs @ [newline])) = scan_ints (length ?vs) Unsigned (num_row ?vs @ [newline])"
    using scan_ints_skip [of "CHR '' ''" 9 Unsigned "tl (num_row ?vs @ [newline])"]
    by (simp add: num_row_def is_space_def eval_nat_numeral del: scan_ints.simps)
  also have "\<dots> = ?vs" by (rule scan_ints_num_row) (simp add: isdigit_newline)
  finally have v: "scan_ints 9 Unsigned (tl (num_row ?vs @ [newline])) = ?vs" .
  show ?thesis
    using fgets_line [OF p, of rest line] d v
    by (simp add: read_stat_cpu_def parse_stat_cpu_def arg_def algebra_simps)
qed

section \<open>Properties\<close>

text \<open>C31: reading the first line of \<^verbatim>\<open>/proc/stat\<close> back: for any nine counter values printed in a
  line, the interval becomes the sum of the first eight and the run time user plus system minus
  guest, both cut to 32 bits.\<close>

theorem read_stat_cpu_row:
  "read_stat_cpu (Some (''cpu '' @ num_row [u, n, s, i, w, hi, si, st, g] @ newline # rest)) line sy =
    Inr (sy\<lparr>si_itv := ucast (u + n + s + i + w + hi + si + st), si_runtime := ucast (u + s - g)\<rparr>)"
  by (rule stat_cpu_row_read)

text \<open>Reading \<^verbatim>\<open>/proc/meminfo\<close> field by field: on a file of \<^verbatim>\<open>Key: value kB\<close> lines, in any
  order and with any other keys between them, the total memory read is the value of the last
  \<^verbatim>\<open>MemTotal:\<close> line, and the old value when there is none.\<close>

lemma read_meminfo_total:
  assumes "\<And>x. x \<in> set xs \<Longrightarrow> field_ok 128 x"
  shows "tlmkb (read_meminfo (Some (unlines (map field_line xs))) line st) =
    (case filter (\<lambda>x. fst x = ''MemTotal:'') (rev xs) of [] \<Rightarrow> tlmkb st | x # _ \<Rightarrow> ucast (fst (snd (snd x))))"
proof -
  have "tlmkb (meminfo.upd_field x s) =
      (if fst x = ''MemTotal:'' then ucast (fst (snd (snd x))) else tlmkb s)" for x s
    unfolding meminfo.upd_field_def
    by (auto simp: meminfo_set_def meminfo_keys_def split: prod.split)
  from meminfo.fold_last [of tlmkb, OF this] show ?thesis
    using meminfo.read_fields [OF assms] by (simp add: read_meminfo_def)
qed

text \<open>The CPU limit never stops the program: \<^verbatim>\<open>main\<close> passes \<^verbatim>\<open>~0\<close>, which as an unsigned value no
  CPU count exceeds, so the count is returned whatever \<^verbatim>\<open>sysconf\<close> says, \<open>-1\<close> included.\<close>

lemma get_cpu_nr_unlimited [simp]: "get_cpu_nr nprocs (- 1) = Inr (of_int nprocs)"
proof -
  have "\<not> (- 1 :: u32) < w" for w by (simp add: not_less)
  then show ?thesis by (simp add: get_cpu_nr_def Let_def)
qed

text \<open>The power charged to one frequency step lies between the minimal and the maximal power
  of the processor, 6 and 24.5 Watt, for every step of every table, rounding included.\<close>

lemma step_power_bounds:
  assumes "0 \<le> ret" and "ret \<le> maxfreq" and "0 < maxfreq" and "maxfreq \<le> 15"
  shows "mincpupower \<le> step_power ret maxfreq \<and> step_power ret maxfreq \<le> maxcpupower"
  by (rule step_power_range [OF assms]) (simp add: maxcpupower_val mincpupower_val)

text \<open>The processor energy of an interval is a nonnegative number (never NaN), whatever the
  frequency tables hold, counters that went back included; and it is zero when the system has no
  cpufreq statistics.\<close>

lemma cpupower_nonneg:
  "fnn f32 (si_cpupower (snd (read_cpufreq_stats time cpufreq dir fopen fs info))) \<and>
   si_cpupower (snd (read_cpufreq_stats time False dir fopen fs info)) = 0"
proof -
  have z: "(0 :: fp) = Fin 0" by (simp add: zero_fp_def)
  have "fnn f32 (power_loop a (fst (freq_dirs fopen ds (0, fr))) cs 0 0 0)" for a ds fr cs
    using freq_dirs_index [of "(0, fr)" fopen ds]
    by (intro power_loop_fnn) (simp_all add: z)
  then have "fnn f32 (power_loop a m cs 0 0 0)" if "freq_dirs fopen ds (0, fr) = (m, fr')" for a ds fr cs m fr'
    using that by (metis fst_conv)
  then show ?thesis
    by (simp add: read_cpufreq_stats_def Let_def z split: option.split prod.split)
qed

text \<open>C30: only the last processor counts: the directory loop overwrites the table each time it can
  open one, so after the last one the rows used (up to \<^verbatim>\<open>maxfreq\<close>) are exactly the rows of that
  file, whatever the processors before it had.\<close>

theorem last_cpu_wins:
  assumes "take 3 d = ''cpu''" and "fopen (freq_path d) = Some (unlines (map freq_line rows))"
    and "\<And>r. r \<in> set rows \<Longrightarrow> plain 32 (freq_line r)" and "length rows \<le> 16"
    and "\<And>e. e \<in> set es \<Longrightarrow> take 3 e = ''cpu'' \<Longrightarrow> fopen (freq_path e) = None"
    and "length fr = 16"
  shows "fst (freq_dirs fopen (ds @ d # es) (m, fr)) = int (length rows) - 1 \<and>
    take (length rows) (snd (freq_dirs fopen (ds @ d # es) (m, fr))) = rows"
proof -
  obtain m' fr' where s: "freq_dirs fopen ds (m, fr) = (m', fr')" by fastforce
  then have l: "length fr' = 16" using freq_dirs_length [of fopen ds "(m, fr)"] assms(6) by simp
  have a: "fgets_all 32 (unlines (map freq_line rows)) = map (\<lambda>r. freq_line r @ [newline]) rows"
    using assms(3) by (subst fgets_all_unlines) auto
  have "freq_dirs fopen (ds @ d # es) (m, fr) = freq_dirs fopen [d] (m', fr')"
    using freq_dirs_closed [of es fopen] assms(5) s
      freq_dirs_append [of fopen ds "d # es"] freq_dirs_append [of fopen "[d]" es] by simp
  also have "\<dots> = (int (length rows) - 1, rows @ drop (length rows) fr')"
    using assms(1,2) a freq_rows_lines [OF assms(3), where i = 0 and fr = fr'] assms(4) l
    by (simp add: freq_path_def)
  finally show ?thesis by simp
qed

theorem last_cpu_wins_witness:
  "fst (freq_dirs (\<lambda>p. if p = freq_path ''cpu1'' then Some (unlines [''8 5'', ''4 6'']) else None)
      [''cpu0'', ''cpu1''] (0, freqs freq0)) = 1"
proof -
  let ?rows = "[\<lparr>frequency = 8, freq_count = 5\<rparr>, \<lparr>frequency = 4, freq_count = 6\<rparr>]"
  have l: "map freq_line ?rows = [''8 5'', ''4 6'']"
    by (simp add: freq_line_def show_unsigned_def show_nat.simps)
  then have p: "plain 32 (freq_line r)" if "r \<in> set ?rows" for r
    using that by (auto simp: plain_def)
  let ?fopen = "\<lambda>p. if p = freq_path ''cpu1'' then Some (unlines (map freq_line ?rows)) else None"
  have "fst (freq_dirs ?fopen ([''cpu0''] @ ''cpu1'' # []) (0, freqs freq0)) = int (length ?rows) - 1 \<and>
    take (length ?rows) (snd (freq_dirs ?fopen ([''cpu0''] @ ''cpu1'' # []) (0, freqs freq0))) = ?rows"
    using p by (intro last_cpu_wins) (simp_all add: freq0_def Let_def)
  then show ?thesis unfolding l by simp
qed

end
