(* ===== verification/MStats.thy ===== *)
theory MStats
  imports Eperf ProcFile
begin

text \<open>
  \<^verbatim>\<open>m_stats.c\<close>: the memory maps of a process, the active memory and the memory and network
  totals of the system.  A file is its bytes, None when it cannot be opened; local buffers and
  uninitialised structs start with arbitrary contents.
\<close>

section \<open>Memory maps of a process\<close>

record stat_smaps =
  sm_size :: u32
  sm_rss :: u32
  sm_pss :: u32
  sm_shared_clean :: u32
  sm_shared_dirty :: u32
  sm_private_clean :: u32
  sm_private_dirty :: u32
  sm_referenced :: u32
  sm_swap :: u32

definition zero_smaps :: stat_smaps where
  "zero_smaps = \<lparr>sm_size = 0, sm_rss = 0, sm_pss = 0, sm_shared_clean = 0, sm_shared_dirty = 0,
     sm_private_clean = 0, sm_private_dirty = 0, sm_referenced = 0, sm_swap = 0\<rparr>"

text \<open>The loop body works on the pair of the scratch struct \<^verbatim>\<open>stmaps\<close> and the sums.\<close>

definition smaps_line :: "buf \<Rightarrow> stat_smaps \<times> stat_smaps \<Rightarrow> stat_smaps \<times> stat_smaps" where
  "smaps_line b s = (case s of (sc, st) \<Rightarrow>
    (if has_key b ''Size:'' then
       (let v = scan_d32 (str_at b 5) (sm_size sc)
        in (sc\<lparr>sm_size := v\<rparr>, st\<lparr>sm_size := sm_size st + v\<rparr>))
     else if has_key b ''Rss:'' then
       (let v = scan_d32 (str_at b 4) (sm_rss sc)
        in (sc\<lparr>sm_rss := v\<rparr>, st\<lparr>sm_rss := sm_rss st + v\<rparr>))
     else if has_key b ''Pss:'' then
       (let v = scan_d32 (str_at b 4) (sm_pss sc)
        in (sc\<lparr>sm_pss := v\<rparr>, st\<lparr>sm_pss := sm_pss st + v\<rparr>))
     else if has_key b ''Shared_Clean:'' then
       (let v = scan_d32 (str_at b 13) (sm_shared_clean sc)
        in (sc\<lparr>sm_shared_clean := v\<rparr>, st\<lparr>sm_shared_clean := sm_shared_clean st + v\<rparr>))
     else if has_key b ''Shared_Dirty:'' then
       (let v = scan_d32 (str_at b 13) (sm_shared_dirty sc)
        in (sc\<lparr>sm_shared_dirty := v\<rparr>, st\<lparr>sm_shared_dirty := sm_shared_dirty st + v\<rparr>))
     else if has_key b ''Private_Clean:'' then
       (let v = scan_d32 (str_at b 14) (sm_private_clean sc)
        in (sc\<lparr>sm_private_clean := v\<rparr>, st\<lparr>sm_private_clean := sm_private_clean st + v\<rparr>))
     else if has_key b ''Private_Dirty:'' then
       (let v = scan_d32 (str_at b 14) (sm_private_dirty sc)
        in (sc\<lparr>sm_private_dirty := v\<rparr>, st\<lparr>sm_private_dirty := sm_private_dirty st + v\<rparr>))
     else if has_key b ''Referenced:'' then
       (let v = scan_d32 (str_at b 11) (sm_referenced sc)
        in (sc\<lparr>sm_referenced := v\<rparr>, st\<lparr>sm_referenced := sm_referenced st + v\<rparr>))
     else if has_key b ''Swap:'' then
       (let v = scan_d32 (str_at b 5) (sm_swap sc)
        in (sc\<lparr>sm_swap := v\<rparr>, st\<lparr>sm_swap := sm_swap st + v\<rparr>))
     else (sc, st)))"

definition read_smaps :: "string option \<Rightarrow> buf \<Rightarrow> stat_smaps \<Rightarrow> stat_smaps res" where
  "read_smaps smaps_file buff stmaps =
    (case smaps_file of None \<Rightarrow> Inl (Exit 2)
     | Some f \<Rightarrow> Inr (snd (while_fgets 128 smaps_line f buff (stmaps, zero_smaps))))"

section \<open>Active memory\<close>

text \<open>\<open>active\<close> is None as long as the variable is not assigned.\<close>

fun active_loop :: "char list list \<Rightarrow> buf \<Rightarrow> c_int option \<Rightarrow> c_int option" where
  "active_loop [] b active = active"
| "active_loop (l # ls) b active =
    (let b' = store l b
     in if has_key b' ''Active:'' then
          (case scan_int Signed (str_at b' 7) of None \<Rightarrow> active | Some (v, r) \<Rightarrow> Some (ucast v))
        else active_loop ls b' active)"

definition total_active_memory :: "string option \<Rightarrow> buf \<Rightarrow> c_int res" where
  "total_active_memory meminfo buff =
    (case meminfo of None \<Rightarrow> Inl (Exit 2)
     | Some f \<Rightarrow>
       (case active_loop (fgets_all 128 f) buff None of
          None \<Rightarrow> Inl (Undefined Uninitialised) | Some a \<Rightarrow> Inr a))"

section \<open>System totals\<close>

definition stat_sysmem_stats :: "fd_read \<Rightarrow> perf \<Rightarrow> sys_info option \<Rightarrow> sys_info option res" where
  "stat_sysmem_stats rd st info =
    (case info of None \<Rightarrow> Inr None
     | Some i \<Rightarrow> bindR (read_cpu_counter rd st) (\<lambda>v. Inr (Some (i\<lparr>si_memaccess := v\<rparr>))))"

text \<open>
  The first loop of \<^verbatim>\<open>stat_sysnet_stats\<close>: \<^verbatim>\<open>sscanf(buff, "%s", wireless)\<close> has no width, and
  \<^verbatim>\<open>wireless\<close> has 10 bytes.
\<close>

fun wireless_loop :: "char list list \<Rightarrow> buf \<Rightarrow> buf \<Rightarrow> (bool \<times> buf \<times> buf) res" where
  "wireless_loop [] b w = Inr (False, b, w)"
| "wireless_loop (l # ls) b w =
    (let b' = store l b
     in bindR (case scan_str None (cstr b') of None \<Rightarrow> Inr w
               | Some (v, r) \<Rightarrow> if length v \<ge> 10 then Inl (Undefined OutOfBounds) else Inr (store v w))
          (\<lambda>w'. if has_key w' ''eth'' then Inr (True, b', w') else wireless_loop ls b' w'))"

text \<open>
  The second loop, over \<^verbatim>\<open>/proc/net/dev\<close>: the device whose name agrees with \<open>wireless\<close> up to
  its last character; the counters start behind the leading blanks and \<open>len\<close> more bytes.
\<close>

fun dev_loop :: "nat \<Rightarrow> string \<Rightarrow> char list list \<Rightarrow> buf \<Rightarrow> buf \<Rightarrow> sys_info \<Rightarrow> sys_info" where
  "dev_loop len wireless [] b nm info = info"
| "dev_loop len wireless (l # ls) b nm info =
    (let b' = store l b;
         nm' = (case scan_str (Some len) (cstr b') of None \<Rightarrow> nm | Some (v, r) \<Rightarrow> store v nm)
     in if take (len - 1) (cstr nm') = take (len - 1) wireless then
          (let len' = len + length (takeWhile (\<lambda>c. c = CHR '' '') b');
               v = scan_ints 10 Unsigned (str_at b' len')
           in info\<lparr>si_totalnetrcv := arg v 0 (si_totalnetrcv info),
                   si_totalnetsnd := arg v 8 (si_totalnetsnd info)\<rparr>)
        else dev_loop len wireless ls b' nm' info)"

definition stat_sysnet_stats ::
  "string option \<Rightarrow> string option \<Rightarrow> buf \<Rightarrow> buf \<Rightarrow> buf \<Rightarrow> sys_info \<Rightarrow> sys_info res" where
  "stat_sysnet_stats net_wireless net_dev buff wireless name info =
    (let info = info\<lparr>si_totalnetrcv := 0, si_totalnetsnd := 0\<rparr>
     in case net_wireless of None \<Rightarrow> Inr info
        | Some f \<Rightarrow>
          bindR (wireless_loop (fgets_all 128 f) buff wireless) (\<lambda>(haswireless, b, w).
            if \<not> haswireless then Inr info
            else (case net_dev of None \<Rightarrow> Inr info
                  | Some g \<Rightarrow>
                    if nul \<notin> set w then Inl (Undefined OutOfBounds)
                    else Inr (dev_loop (length (cstr w)) (cstr w) (fgets_all 128 g) b name info))))"

section \<open>The smaps reader as a field reader\<close>

definition smaps_keys :: "string list" where
  "smaps_keys = [''Size:'', ''Rss:'', ''Pss:'', ''Shared_Clean:'', ''Shared_Dirty:'',
     ''Private_Clean:'', ''Private_Dirty:'', ''Referenced:'', ''Swap:'']"

definition smaps_set :: "string \<Rightarrow> u32 \<Rightarrow> stat_smaps \<Rightarrow> stat_smaps" where
  "smaps_set k v st =
    (if k = ''Size:'' then st\<lparr>sm_size := v\<rparr>
     else if k = ''Rss:'' then st\<lparr>sm_rss := v\<rparr>
     else if k = ''Pss:'' then st\<lparr>sm_pss := v\<rparr>
     else if k = ''Shared_Clean:'' then st\<lparr>sm_shared_clean := v\<rparr>
     else if k = ''Shared_Dirty:'' then st\<lparr>sm_shared_dirty := v\<rparr>
     else if k = ''Private_Clean:'' then st\<lparr>sm_private_clean := v\<rparr>
     else if k = ''Private_Dirty:'' then st\<lparr>sm_private_dirty := v\<rparr>
     else if k = ''Referenced:'' then st\<lparr>sm_referenced := v\<rparr>
     else if k = ''Swap:'' then st\<lparr>sm_swap := v\<rparr>
     else st)"

definition smaps_get :: "string \<Rightarrow> stat_smaps \<Rightarrow> u32" where
  "smaps_get k st =
    (if k = ''Size:'' then sm_size st
     else if k = ''Rss:'' then sm_rss st
     else if k = ''Pss:'' then sm_pss st
     else if k = ''Shared_Clean:'' then sm_shared_clean st
     else if k = ''Shared_Dirty:'' then sm_shared_dirty st
     else if k = ''Private_Clean:'' then sm_private_clean st
     else if k = ''Private_Dirty:'' then sm_private_dirty st
     else if k = ''Referenced:'' then sm_referenced st
     else if k = ''Swap:'' then sm_swap st
     else 0)"

definition smaps_upd :: "string \<Rightarrow> u64 \<Rightarrow> stat_smaps \<times> stat_smaps \<Rightarrow> stat_smaps \<times> stat_smaps" where
  "smaps_upd k v s =
    (smaps_set k (ucast v) (fst s), smaps_set k (smaps_get k (snd s) + ucast v) (snd s))"

lemma smaps_get_set: "k \<in> set smaps_keys \<Longrightarrow> j \<in> set smaps_keys \<Longrightarrow>
    smaps_get j (smaps_set k v st) = (if j = k then v else smaps_get j st)"
  by (auto simp: smaps_keys_def smaps_get_def smaps_set_def)

interpretation smaps: field_reader smaps_line smaps_keys smaps_upd
proof unfold_locales
  fix b :: buf and s :: "stat_smaps \<times> stat_smaps"
  assume "\<And>k. k \<in> set smaps_keys \<Longrightarrow> \<not> has_key b k"
  then show "smaps_line b s = s" by (cases s) (simp add: smaps_line_def smaps_keys_def)
next
  fix n k sep v r b and s :: "stat_smaps \<times> stat_smaps"
  assume ok: "field_ok n (k, sep, v, r)" and k: "k \<in> set smaps_keys"
  obtain sc st where s: "s = (sc, st)" by fastforce
  show "smaps_line (store (field_line (k, sep, v, r) @ [newline]) b) s = smaps_upd k v s"
    unfolding s using k [unfolded smaps_keys_def] ok
    by (simp, elim disjE; hypsubst)
      (simp_all add: smaps_line_def smaps_upd_def smaps_set_def smaps_get_def scan_d32_def Let_def
        field_facts [where n = n] field_key_def)
next
  fix k
  assume "k \<in> set smaps_keys"
  then show "field_key k" by (auto simp: smaps_keys_def field_key_def)
qed

text \<open>Each quantity ends as the sum of its lines, modulo \<open>2 ^ 32\<close>.\<close>

lemma read_smaps_sums:
  assumes "\<And>x. x \<in> set xs \<Longrightarrow> field_ok 128 x" and "j \<in> set smaps_keys"
  shows "\<exists>st. read_smaps (Some (unlines (map field_line xs))) buff stmaps = Inr st \<and>
    smaps_get j st = sum_list (map (\<lambda>(k, sep, v, r). if k = j then ucast v else 0) xs)"
proof -
  let ?d = "\<lambda>(k, sep, v, r). if k = j then ucast v else 0 :: u32"
  have "smaps_get j (snd (smaps.upd_field x s)) = smaps_get j (snd s) + ?d x" for x s
    unfolding smaps.upd_field_def smaps_upd_def
    using assms(2) by (auto simp: smaps_get_set split: prod.split)
  from smaps.fold_sum [of "\<lambda>s. smaps_get j (snd s)", OF this]
  have "smaps_get j (snd (fold smaps.upd_field xs (stmaps, zero_smaps))) = sum_list (map ?d xs)"
    by (simp add: smaps_get_def zero_smaps_def)
  moreover have "while_fgets 128 smaps_line (unlines (map field_line xs)) buff (stmaps, zero_smaps) =
      fold smaps.upd_field xs (stmaps, zero_smaps)"
    using assms(1) by (rule smaps.read_fields)
  ultimately show ?thesis by (simp add: read_smaps_def)
qed

section \<open>The network loops on files of lines\<close>

lemma fgets_all_128:
  "(\<And>l. l \<in> set ls \<Longrightarrow> plain 128 l) \<Longrightarrow> fgets_all 128 (unlines ls) = map (\<lambda>l. l @ [newline]) ls"
  by (rule fgets_all_unlines)

text \<open>A line whose first word fits in \<^verbatim>\<open>wireless\<close>.\<close>

definition short_word :: "string \<Rightarrow> bool" where
  "short_word l \<longleftrightarrow> plain 128 l \<and> first_word l \<noteq> [] \<and> length (first_word l) < 10"

lemma first_word_nul: "nul \<notin> set l \<Longrightarrow> nul \<notin> set (first_word l)"
  by (auto simp: first_word_def skip_ws_def dest: set_takeWhileD set_dropWhileD)

lemma first_word_cstr:
  assumes "short_word l"
  shows "first_word (cstr (store (l @ [newline]) b)) = first_word l"
proof -
  have "nul \<notin> set (l @ [newline])" and "first_word l \<noteq> []"
    using assms by (auto simp: short_word_def plain_def)
  then show ?thesis by (simp add: first_word_newline)
qed

lemma wireless_step:
  assumes "short_word l"
  shows "wireless_loop ((l @ [newline]) # ls) b w =
    (if prefix ''eth'' (first_word l) then Inr (True, store (l @ [newline]) b, store (first_word l) w)
     else wireless_loop ls (store (l @ [newline]) b) (store (first_word l) w))"
proof -
  have nul: "nul \<notin> set (first_word l)" using assms by (auto simp: short_word_def plain_def dest: first_word_nul)
  have ne: "first_word (cstr (store (l @ [newline]) b)) \<noteq> []"
    using assms first_word_cstr by (auto simp: short_word_def)
  then obtain r where r: "scan_str None (cstr (store (l @ [newline]) b)) = Some (first_word l, r)"
    using scan_str_first_word [OF ne, of None] first_word_cstr [OF assms] by auto
  show ?thesis
    using assms r nul by (auto simp: Let_def has_key_store short_word_def)
qed

lemma wireless_skip:
  "(\<And>l. l \<in> set ls \<Longrightarrow> short_word l \<and> \<not> prefix ''eth'' (first_word l)) \<Longrightarrow>
    \<exists>b' w'. wireless_loop (map (\<lambda>l. l @ [newline]) ls @ ks) b w = wireless_loop ks b' w'"
proof (induction ls arbitrary: b w)
  case (Cons l ls)
  then have "short_word l" "\<not> prefix ''eth'' (first_word l)" by auto
  then have "wireless_loop (map (\<lambda>l. l @ [newline]) (l # ls) @ ks) b w =
      wireless_loop (map (\<lambda>l. l @ [newline]) ls @ ks) (store (l @ [newline]) b) (store (first_word l) w)"
    by (simp only: list.map append_Cons wireless_step if_False)
  then show ?case using Cons by (metis list.set_intros(2))
qed auto

lemma dev_skip:
  assumes "\<And>l. l \<in> set ls \<Longrightarrow> plain 128 l \<and> first_word l \<noteq> [] \<and> take n (first_word l) \<noteq> dev"
    and "take n w = dev"
  shows "\<exists>b' nm'. dev_loop (Suc n) w (map (\<lambda>l. l @ [newline]) ls @ ks) b nm info = dev_loop (Suc n) w ks b' nm' info"
  using assms(1)
proof (induction ls arbitrary: b nm)
  case (Cons l ls)
  let ?b = "store (l @ [newline]) b"
  have l: "nul \<notin> set (l @ [newline])" "first_word l \<noteq> []" "take n (first_word l) \<noteq> dev"
    using Cons.prems by (auto simp: plain_def)
  then have fw: "first_word (cstr ?b) = first_word l" by (simp add: first_word_newline)
  obtain r where r: "scan_str (Some (Suc n)) (cstr ?b) = Some (take (Suc n) (first_word l), r)"
    using scan_str_first_word [of "cstr ?b" "Some (Suc n)"] l(2) fw by auto
  have "nul \<notin> set (first_word l)" using l(1) by (intro first_word_nul) auto
  then have "nul \<notin> set (take (Suc n) (first_word l))" by (auto dest: in_set_takeD)
  then have "take n (cstr (store (take (Suc n) (first_word l)) nm)) \<noteq> take n w"
    using l(3) assms(2) by (simp add: min_def)
  then have "dev_loop (Suc n) w (map (\<lambda>l. l @ [newline]) (l # ls) @ ks) b nm info =
      dev_loop (Suc n) w (map (\<lambda>l. l @ [newline]) ls @ ks) ?b (store (take (Suc n) (first_word l)) nm) info"
    using r by (simp add: Let_def)
  then show ?case using Cons by (metis list.set_intros(2))
qed auto

text \<open>The row of a device in \<^verbatim>\<open>/proc/net/dev\<close>.\<close>

definition dev_row :: "nat \<Rightarrow> string \<Rightarrow> u64 list \<Rightarrow> string" where
  "dev_row k dev vs = replicate k (CHR '' '') @ dev @ '':'' @ num_row vs"

lemma dev_row_hit:
  assumes dev: "dev \<noteq> []" "\<And>c. c \<in> set dev \<Longrightarrow> \<not> is_space c \<and> c \<noteq> nul" and vs: "10 \<le> length vs"
    and p: "plain 128 (dev_row k dev vs)"
  shows "dev_loop (Suc (length dev)) (dev @ '':'') ((dev_row k dev vs @ [newline]) # ls) b nm info =
    info\<lparr>si_totalnetrcv := vs ! 0, si_totalnetsnd := vs ! 8\<rparr>"
proof -
  let ?l = "dev_row k dev vs @ [newline]" and ?n = "length dev"
  let ?b = "store ?l b"
  have nul: "nul \<notin> set ?l" using p by (simp add: plain_def)
  have sp: "is_space (CHR '' '')" and ns: "\<not> is_space (CHR '':'')" by (simp_all add: is_space_def)
  obtain d ds where d: "dev = d # ds" using dev(1) by (cases dev) auto
  obtain v us where v: "vs = v # us" using vs by (cases vs) auto
  have "skip_ws ?l = dev @ '':'' @ num_row vs @ [newline]"
    using dev(2) [of d] sp unfolding dev_row_def append_assoc
    by (subst skip_ws_append) (auto simp: d skip_ws_def)
  then have "first_word ?l = dev @ '':''"
    using dev(2) ns by (simp add: first_word_def v num_row_def takeWhile_append2 sp)
  then have fw: "first_word (cstr ?b) = dev @ '':''" using nul by simp
  obtain r where r: "scan_str (Some (Suc ?n)) (cstr ?b) = Some (dev @ '':'', r)"
    using scan_str_first_word [of "cstr ?b" "Some (Suc ?n)"] fw by auto
  have nul': "nul \<notin> set (dev @ '':'')" using dev(2) by auto
  have tw: "takeWhile (\<lambda>c. c = CHR '' '') ?b = replicate k (CHR '' '')"
    using dev(2) [of d] sp by (auto simp: store_def dev_row_def d takeWhile_append takeWhile_replicate)
  have "str_at ?b (Suc ?n + k) = drop (Suc ?n + k) ?l"
    using nul by (intro str_at_store) (simp_all add: dev_row_def)
  also have "\<dots> = num_row vs @ [newline]" by (simp add: dev_row_def)
  finally have at': "str_at ?b (Suc ?n + k) = num_row vs @ [newline]" .
  have sc: "scan_ints 10 Unsigned (num_row vs @ [newline]) = take 10 vs"
    using vs by (intro scan_ints_num_row_take) (simp_all add: isdigit_newline)
  show ?thesis
    using r nul' tw at' sc vs v
    by (simp add: Let_def arg_def nth_Cons')
qed

lemma no_eth_wireless:
  assumes "\<forall>l \<in> set ls. short_word l \<and> \<not> prefix ''eth'' (first_word l)"
  shows "stat_sysnet_stats (Some (unlines ls)) net_dev buff wireless name info =
      Inr (info\<lparr>si_totalnetrcv := 0, si_totalnetsnd := 0\<rparr>)"
proof -
  let ?nl = "map (\<lambda>l. l @ [newline])"
  have a: "\<And>l. l \<in> set ls \<Longrightarrow> short_word l \<and> \<not> prefix ''eth'' (first_word l)" using assms by blast
  have f: "fgets_all 128 (unlines ls) = ?nl ls @ []"
    using a by (subst fgets_all_128) (auto simp: short_word_def)
  obtain b w where "wireless_loop (?nl ls @ []) buff wireless = wireless_loop [] b w"
    using wireless_skip [OF a, of ls "[]"] by blast
  then show ?thesis using f by (simp add: stat_sysnet_stats_def Let_def)
qed

section \<open>Properties\<close>

text \<open>The active memory is the value of the first \<^verbatim>\<open>Active:\<close> line of \<^verbatim>\<open>/proc/meminfo\<close>; without
  such a line the function returns a variable it never assigned.\<close>

lemma total_active_memory_first:
  assumes "\<And>x. x \<in> set xs \<Longrightarrow> field_ok 128 x"
  shows "total_active_memory (Some (unlines (map field_line xs))) buff =
    (case filter (\<lambda>x. fst x = ''Active:'') xs of [] \<Rightarrow> Inl (Undefined Uninitialised)
     | x # _ \<Rightarrow> Inr (ucast (fst (snd (snd x)))))"
proof -
  have "active_loop (map (\<lambda>x. field_line x @ [newline]) xs) b None =
      (case filter (\<lambda>x. fst x = ''Active:'') xs of [] \<Rightarrow> None | x # _ \<Rightarrow> Some (ucast (fst (snd (snd x)))))" for b
    using assms
  proof (induction xs arbitrary: b)
    case (Cons x xs)
    obtain k sep v r where x: "x = (k, sep, v, r)" by (cases x) auto
    then have ok: "field_ok 128 (k, sep, v, r)" using Cons.prems by auto
    have key: "field_key ''Active:''" by (simp add: field_key_def)
    show ?case
      using Cons ok field_scans(1) [OF ok, of Signed]
      by (cases "k = ''Active:''") (auto simp: Let_def x key field_facts [where n = 128])
  qed simp
  moreover have "fgets_all 128 (unlines (map field_line xs)) = map (\<lambda>x. field_line x @ [newline]) xs"
    using assms field_plain by (subst fgets_all_unlines) auto
  ultimately show ?thesis
    by (simp add: total_active_memory_def split: list.split)
qed


text \<open>What the scan of \<^verbatim>\<open>/proc/net/wireless\<close> misses: a wireless device whose name does not start
  with \<^verbatim>\<open>eth\<close> (\<^verbatim>\<open>wlan0\<close>) leaves both totals at zero; and a first word of ten characters or more
  overruns the ten bytes of \<^verbatim>\<open>wireless\<close>.\<close>

lemma other_wireless_ignored:
  assumes "\<And>l. l \<in> set ls \<Longrightarrow> short_word l \<and> \<not> prefix ''eth'' (first_word l)"
    and "plain 128 l0" and "10 \<le> length (first_word l0)"
  shows "stat_sysnet_stats (Some (unlines ls)) net_dev buff wireless name info =
      Inr (info\<lparr>si_totalnetrcv := 0, si_totalnetsnd := 0\<rparr>) \<and>
    stat_sysnet_stats (Some (unlines (ls @ [l0]))) net_dev buff wireless name info =
      Inl (Undefined OutOfBounds)"
proof -
  let ?nl = "map (\<lambda>l. l @ [newline])"
  have f2: "fgets_all 128 (unlines (ls @ [l0])) = ?nl ls @ [l0 @ [newline]]"
    using assms(1,2) by (subst fgets_all_128) (auto simp: short_word_def)
  obtain b2 w2 where 2: "wireless_loop (?nl ls @ [l0 @ [newline]]) buff wireless = wireless_loop [l0 @ [newline]] b2 w2"
    using wireless_skip [OF assms(1), of ls "[l0 @ [newline]]"] by blast
  have ne: "first_word l0 \<noteq> []" using assms(3) by auto
  have nul: "nul \<notin> set (l0 @ [newline])" using assms(2) by (simp add: plain_def)
  obtain r where "scan_str None (l0 @ [newline]) = Some (first_word l0, r)"
    using scan_str_first_word [of "l0 @ [newline]" None] ne first_word_newline [OF ne] by auto
  then show ?thesis
    using f2 2 nul assms(3) no_eth_wireless [of ls net_dev buff wireless name info] assms(1)
    by (simp add: stat_sysnet_stats_def Let_def)
qed


end
