(* ===== verification/PidStats.thy ===== *)
theory PidStats
  imports MStats
begin

text \<open>
  \<^verbatim>\<open>pid_stats.c\<close>: the readers of \<^verbatim>\<open>/proc/<pid>/stat\<close>, \<^verbatim>\<open>status\<close>, \<^verbatim>\<open>io\<close> and of the memory data of a
  process, and the process count.  Each reader returns the code's result (0 or 1) and the sample
  it leaves behind.
\<close>

section \<open>Eight-byte stores into four-byte fields\<close>

text \<open>
  The format of \<^verbatim>\<open>read_proc_pid_stat\<close> has \<^verbatim>\<open>%lu\<close> for fields of type \<^verbatim>\<open>u32\<close>.  Such a store writes eight
  bytes: the low half lands in the field, the high half in the next one (\<^verbatim>\<open>minflt\<close> to \<^verbatim>\<open>cmajflt\<close>
  are consecutive and followed by the \<^verbatim>\<open>u64\<close> \<^verbatim>\<open>utime\<close>; \<^verbatim>\<open>vsz\<close>, \<^verbatim>\<open>rss\<close> and \<^verbatim>\<open>nvcsw\<close> are consecutive).
\<close>

definition lo32 :: "u64 \<Rightarrow> u32" where "lo32 v = ucast v"
definition hi32 :: "u64 \<Rightarrow> u32" where "hi32 v = ucast (drop_bit 32 v)"

text \<open>The stores of the conversions after the name, in the order of the argument list.\<close>

definition stat_stores :: "(u64 \<Rightarrow> pid_stats \<Rightarrow> pid_stats) list" where
  "stat_stores =
    [\<lambda>v p. p\<lparr>minflt := lo32 v, cminflt := hi32 v\<rparr>,
     \<lambda>v p. p\<lparr>cminflt := lo32 v, majflt := hi32 v\<rparr>,
     \<lambda>v p. p\<lparr>majflt := lo32 v, cmajflt := hi32 v\<rparr>,
     \<lambda>v p. p\<lparr>cmajflt := lo32 v, utime := or (push_bit 32 (drop_bit 32 (utime p))) (drop_bit 32 v)\<rparr>,
     \<lambda>v p. p\<lparr>utime := v\<rparr>,
     \<lambda>v p. p\<lparr>stime := v\<rparr>,
     \<lambda>v p. p\<lparr>cutime := v\<rparr>,
     \<lambda>v p. p\<lparr>cstime := v\<rparr>,
     \<lambda>v p. p,   \<comment> \<open>\<^verbatim>\<open>thread_nr\<close>, a local\<close>
     \<lambda>v p. p\<lparr>vsz := lo32 v, rss := hi32 v\<rparr>,
     \<lambda>v p. p\<lparr>rss := lo32 v, nvcsw := hi32 v\<rparr>,
     \<lambda>v p. p\<lparr>processor := lo32 v\<rparr>,
     \<lambda>v p. p\<lparr>gtime := v\<rparr>,
     \<lambda>v p. p\<lparr>cgtime := v\<rparr>]"

fun apply_stores :: "(u64 \<Rightarrow> 'p \<Rightarrow> 'p) list \<Rightarrow> sval list \<Rightarrow> 'p \<Rightarrow> 'p" where
  "apply_stores (f # fs) (IntV v # vs) p = apply_stores fs vs (f v p)"
| "apply_stores fs vs p = p"

section \<open>The stat file\<close>

definition MAX_COMM_LEN :: nat where "MAX_COMM_LEN = 16"

text \<open>\<^verbatim>\<open>" %..." \<close> for a list of conversions: assigned or not, signed or not.\<close>

definition nums :: "(bool \<times> sign) list \<Rightarrow> directive list" where
  "nums fs = concat (map (\<lambda>(a, sg). [Ws, IntC a sg]) fs)"

definition stat_nums :: "(bool \<times> sign) list" where
  "stat_nums = replicate 5 (False, Signed) @ [(False, Unsigned)] @ replicate 8 (True, Unsigned) @
     replicate 2 (False, Signed) @ [(True, Unsigned)] @ [(False, Unsigned), (False, Signed)] @
     replicate 2 (True, Unsigned) @ replicate 14 (False, Unsigned) @ [(True, Unsigned)] @
     replicate 3 (False, Unsigned) @ replicate 2 (True, Unsigned)"

definition stat_format :: "directive list" where
  "stat_format = [IntC False Signed, Ws, Lit (CHR ''(''), StrC True (Some MAX_COMM_LEN), Ws, StrC False None]
     @ nums stat_nums @ [Lit (CHR 0x5C), Lit (CHR ''n'')]"

definition strip_paren :: "string \<Rightarrow> string" where
  "strip_paren s = (if s \<noteq> [] \<and> last s = CHR '')'' then butlast s else s)"

definition parse_pid_stat :: "u32 \<Rightarrow> buf \<Rightarrow> u32 \<Rightarrow> char list \<Rightarrow> pid_stats \<Rightarrow> pid_stats" where
  "parse_pid_stat kb_shift comm0 tpid f pst =
    (let vs = scanf stat_format f;
         name = (case vs of StrV s # _ \<Rightarrow> s | _ \<Rightarrow> cstr comm0);
         p = apply_stores stat_stores (tl vs) pst
     in p\<lparr>vsz := drop_bit 10 (vsz p), rss := PG_TO_KB kb_shift (rss p),
          comm := strip_paren (take (MAX_COMM_LEN - 1) name), pid := tpid\<rparr>)"

text \<open>The second line of the file, when there is one (a kernel patched for network accounting).\<close>

definition net_stores :: "(u64 \<Rightarrow> pid_stats \<Rightarrow> pid_stats) list" where
  "net_stores =
    [\<lambda>v p. p\<lparr>dsk := dsk p\<lparr>rio := v\<rparr>\<rparr>, \<lambda>v p. p\<lparr>dsk := dsk p\<lparr>rsz := v\<rparr>\<rparr>,
     \<lambda>v p. p\<lparr>dsk := dsk p\<lparr>wio := v\<rparr>\<rparr>, \<lambda>v p. p\<lparr>dsk := dsk p\<lparr>wsz := v\<rparr>\<rparr>,
     \<lambda>v p. p\<lparr>net := net p\<lparr>tcpsnd := v\<rparr>\<rparr>, \<lambda>v p. p\<lparr>net := net p\<lparr>tcpssz := v\<rparr>\<rparr>,
     \<lambda>v p. p\<lparr>net := net p\<lparr>tcprcv := v\<rparr>\<rparr>, \<lambda>v p. p\<lparr>net := net p\<lparr>tcprsz := v\<rparr>\<rparr>,
     \<lambda>v p. p\<lparr>net := net p\<lparr>udpsnd := v\<rparr>\<rparr>, \<lambda>v p. p\<lparr>net := net p\<lparr>udpssz := v\<rparr>\<rparr>,
     \<lambda>v p. p\<lparr>net := net p\<lparr>udprcv := v\<rparr>\<rparr>, \<lambda>v p. p\<lparr>net := net p\<lparr>udprsz := v\<rparr>\<rparr>,
     \<lambda>v p. p\<lparr>net := net p\<lparr>rawsnd := v\<rparr>\<rparr>, \<lambda>v p. p\<lparr>net := net p\<lparr>rawrcv := v\<rparr>\<rparr>]"

definition net_format :: "directive list" where
  "net_format = tl (nums (concat (replicate 6 [(True, Signed), (True, Unsigned)]) @
     [(True, Signed), (True, Signed)]))"

definition net_totals :: "pid_stats \<Rightarrow> pid_stats" where
  "net_totals p = p\<lparr>net := (net p)
     \<lparr>totalnetsnd := tcpsnd (net p) + udpsnd (net p) + rawsnd (net p),
      totalnetrcv := tcprcv (net p) + udprcv (net p) + rawrcv (net p)\<rparr>\<rparr>"

definition read_proc_pid_stat ::
  "u32 \<Rightarrow> buf \<Rightarrow> buf \<Rightarrow> string option \<Rightarrow> string option \<Rightarrow> u32 \<Rightarrow> pid_stats \<Rightarrow> int \<times> pid_stats" where
  "read_proc_pid_stat kb_shift comm0 line fopen1 fopen2 tpid pst =
    (case fopen1 of None \<Rightarrow> (1, pst)
     | Some f \<Rightarrow>
       (let p = parse_pid_stat kb_shift comm0 tpid f pst
        in case fopen2 of None \<Rightarrow> (1, p)
           | Some g \<Rightarrow>
             (case fgets 4096 g line of None \<Rightarrow> (0, p)
              | Some (b, g') \<Rightarrow>
                (case fgets 4096 g' b of None \<Rightarrow> (0, p)
                 | Some (b', g'') \<Rightarrow>
                   (0, net_totals (apply_stores net_stores (scanf net_format (cstr b')) p))))))"

section \<open>The status and io files\<close>

definition status_line :: "buf \<Rightarrow> pid_stats \<Rightarrow> pid_stats" where
  "status_line b pst =
    (if has_key b ''voluntary_ctxt_switches:'' then pst\<lparr>nvcsw := scan_u32 (str_at b 25) (nvcsw pst)\<rparr>
     else if has_key b ''nonvoluntary_ctxt_switches:''
     then pst\<lparr>nivcsw := scan_u32 (str_at b 28) (nivcsw pst)\<rparr>
     else pst)"

definition read_proc_pid_status :: "string option \<Rightarrow> buf \<Rightarrow> u32 \<Rightarrow> pid_stats \<Rightarrow> int \<times> pid_stats" where
  "read_proc_pid_status status_file line tpid pst =
    (case status_file of None \<Rightarrow> (1, pst)
     | Some f \<Rightarrow> (0, (while_fgets 256 status_line f line pst)\<lparr>pid := tpid\<rparr>))"

definition io_line :: "buf \<Rightarrow> pid_stats \<Rightarrow> pid_stats" where
  "io_line b pst =
    (if has_key b ''read_bytes:'' then pst\<lparr>read_bytes := scan_u64 (str_at b 12) (read_bytes pst)\<rparr>
     else if has_key b ''write_bytes:'' then pst\<lparr>write_bytes := scan_u64 (str_at b 13) (write_bytes pst)\<rparr>
     else if has_key b ''cancelled_write_bytes:''
     then pst\<lparr>cancelled_write_bytes := scan_u64 (str_at b 23) (cancelled_write_bytes pst)\<rparr>
     else pst)"

definition read_proc_pid_io :: "string option \<Rightarrow> buf \<Rightarrow> u32 \<Rightarrow> pid_stats \<Rightarrow> int \<times> pid_stats" where
  "read_proc_pid_io io_file line tpid pst =
    (case io_file of None \<Rightarrow> (1, pst)
     | Some f \<Rightarrow> (0, (while_fgets 256 io_line f line pst)\<lparr>pid := tpid\<rparr>))"

section \<open>Memory of a process\<close>

text \<open>\<open>fd\<close> is the counter descriptor in the tree node, and part of the result.\<close>

definition read_proc_pid_mem ::
  "perf_open \<Rightarrow> fd_read \<Rightarrow> perf \<Rightarrow> string option \<Rightarrow> string option \<Rightarrow> buf \<Rightarrow> stat_smaps \<Rightarrow>
   u32 \<Rightarrow> pid_stats \<Rightarrow> int \<Rightarrow> int \<Rightarrow> (int \<times> pid_stats) res" where
  "read_proc_pid_mem popen rd pf smaps_file meminfo buff stmaps tpid pst fd active =
    bindR (read_smaps smaps_file buff stmaps) (\<lambda>sm.
    bindR (total_active_memory meminfo buff) (\<lambda>ta.
    bindR (if active \<noteq> 0 \<and> fd \<le> 0 then create_perf_stat_counter popen (sint tpid) False pf
           else Inr (fd, pf)) (\<lambda>(fd', pf').
    Inr (fd', pst\<lparr>mem := (mem pst)\<lparr>
      memory_used := ucast (sm_pss sm + sm_private_clean sm + sm_private_dirty sm),
      total_active := scast ta,
      cpu_accesses := read_counter rd fd'\<rparr>\<rparr>))))"

section \<open>Process count\<close>

fun count_pid_dirs :: "string list \<Rightarrow> u32 \<Rightarrow> u32" where
  "count_pid_dirs [] n = n"
| "count_pid_dirs (d # ds) n = count_pid_dirs ds (if d \<noteq> [] \<and> isdigit (hd d) then n + 1 else n)"

definition count_pid :: "string list option \<Rightarrow> u32 res" where
  "count_pid dir = (case dir of None \<Rightarrow> Inl (Exit 4) | Some ds \<Rightarrow> Inr (count_pid_dirs ds 0))"

section \<open>The status and io readers as field readers\<close>

definition status_keys :: "string list" where
  "status_keys = [''voluntary_ctxt_switches:'', ''nonvoluntary_ctxt_switches:'']"

definition status_set :: "string \<Rightarrow> u64 \<Rightarrow> pid_stats \<Rightarrow> pid_stats" where
  "status_set k v pst =
    (if k = ''voluntary_ctxt_switches:'' then pst\<lparr>nvcsw := ucast v\<rparr> else pst\<lparr>nivcsw := ucast v\<rparr>)"

definition io_keys :: "string list" where
  "io_keys = [''read_bytes:'', ''write_bytes:'', ''cancelled_write_bytes:'']"

definition io_set :: "string \<Rightarrow> u64 \<Rightarrow> pid_stats \<Rightarrow> pid_stats" where
  "io_set k v pst =
    (if k = ''read_bytes:'' then pst\<lparr>read_bytes := v\<rparr>
     else if k = ''write_bytes:'' then pst\<lparr>write_bytes := v\<rparr>
     else pst\<lparr>cancelled_write_bytes := v\<rparr>)"

interpretation status: field_reader status_line status_keys status_set
proof unfold_locales
  fix b :: buf and s :: pid_stats
  assume "\<And>k. k \<in> set status_keys \<Longrightarrow> \<not> has_key b k"
  then show "status_line b s = s" by (simp add: status_line_def status_keys_def)
next
  fix n k sep v r b and s :: pid_stats
  assume ok: "field_ok n (k, sep, v, r)" and k: "k \<in> set status_keys"
  show "status_line (store (field_line (k, sep, v, r) @ [newline]) b) s = status_set k v s"
    using k [unfolded status_keys_def] ok
    by (simp, elim disjE; hypsubst)
      (simp_all add: status_line_def status_set_def scan_u32_def field_facts [where n = n] field_key_def)
next
  fix k
  assume "k \<in> set status_keys"
  then show "field_key k" by (auto simp: status_keys_def field_key_def)
qed

interpretation io: field_reader io_line io_keys io_set
proof unfold_locales
  fix b :: buf and s :: pid_stats
  assume "\<And>k. k \<in> set io_keys \<Longrightarrow> \<not> has_key b k"
  then show "io_line b s = s" by (simp add: io_line_def io_keys_def)
next
  fix n k sep v r b and s :: pid_stats
  assume ok: "field_ok n (k, sep, v, r)" and k: "k \<in> set io_keys"
  show "io_line (store (field_line (k, sep, v, r) @ [newline]) b) s = io_set k v s"
    using k [unfolded io_keys_def] ok
    by (simp, elim disjE; hypsubst)
      (simp_all add: io_line_def io_set_def scan_u64_def field_facts [where n = n] field_key_def)
next
  fix k
  assume "k \<in> set io_keys"
  then show "field_key k" by (auto simp: io_keys_def field_key_def)
qed

section \<open>Reading back a stat line\<close>

text \<open>What the kernel prints: the id, the name in parentheses, the state letter, 41 numbers.\<close>

definition stat_text :: "u32 \<Rightarrow> string \<Rightarrow> char \<Rightarrow> u64 list \<Rightarrow> string" where
  "stat_text tpid nm st ns = show_unsigned tpid @ '' ('' @ nm @ '') '' @ st # num_row ns"

lemma scan_suppressed:
  assumes "r = [] \<or> \<not> isdigit (hd r)"
  shows "\<exists>v'. scan_int sg (show_unsigned w @ r) = Some (v', r)"
  using scan_num_show_nat [of "[]" r "unat w"] assms by (simp add: scan_int_def show_unsigned_def)

lemma nums_simps [simp]: "nums [] = []" "nums ((a, sg) # fs) = Ws # IntC a sg # nums fs"
  by (simp_all add: nums_def)

lemma num_row_simps: "num_row [] = []" "num_row (v # vs) = CHR '' '' # show_unsigned v @ num_row vs"
  by (simp_all add: num_row_def)

lemma skip_ws_blank: "skip_ws (CHR '' '' # s) = skip_ws s"
  by (simp add: skip_ws_def is_space_def)

lemma skip_ws_show: "skip_ws (show_unsigned v @ r) = show_unsigned v @ r"
  using show_nat_chars(4) [OF show_nat_hd, of "unat v"]
  by (intro skip_ws_nonspace) (simp add: show_unsigned_def)

lemma scanf_nums:
  assumes "length fs = length vs" and "\<And>sg. (True, sg) \<in> set fs \<Longrightarrow> sg = Unsigned"
    and "r = [] \<or> \<not> isdigit (hd r)"
  shows "scanf (nums fs @ ds) (num_row vs @ r) =
    map (\<lambda>x. IntV (snd x)) (filter (\<lambda>x. fst (fst x)) (zip fs vs)) @ scanf ds r"
  using assms(1,2)
proof (induction fs vs rule: list_induct2)
  case Nil
  then show ?case by (simp add: num_row_def)
next
  case (Cons f fs v vs)
  obtain a sg where f: "f = (a, sg)" by fastforce
  have r: "num_row vs @ r = [] \<or> \<not> isdigit (hd (num_row vs @ r))"
    using assms(3) by (cases vs) (simp_all add: num_row_simps isdigit_def)
  obtain v' where v': "scan_int sg (show_unsigned v @ num_row vs @ r) = Some (v', num_row vs @ r)"
    using scan_suppressed [OF r] by blast
  have "v' = v" if "a" "sg = Unsigned"
    using scan_unsigned_show [of "[]" "num_row vs @ r" v] r v' that by simp
  moreover have "sg = Unsigned" if "a" using Cons.prems that f by auto
  ultimately show ?case
    using Cons v' by (auto simp: f num_row_simps skip_ws_blank skip_ws_show)
qed

lemma scan_str_word:
  assumes "u \<noteq> []" and "\<And>c. c \<in> set u \<Longrightarrow> \<not> is_space c" and "r = [] \<or> is_space (hd r)"
    and "w = None \<or> (\<exists>k. w = Some k \<and> length u \<le> k)"
  shows "scan_str w (u @ r) = Some (u, r)"
proof -
  have "skip_ws (u @ r) = u @ r" using assms(1,2) by (intro skip_ws_nonspace) (cases u, auto)
  moreover have "takeWhile (\<lambda>c. \<not> is_space c) (u @ r) = u"
    using assms(2,3) by (cases r) (auto simp: takeWhile_append2)
  ultimately show ?thesis using assms(1,4) by (auto simp: scan_str_def Let_def)
qed

lemma scanf_stat_head:
  assumes "u \<noteq> []" and "\<And>c. c \<in> set u \<Longrightarrow> \<not> is_space c" and "length u \<le> 16"
    and "w \<noteq> []" and "\<And>c. c \<in> set w \<Longrightarrow> \<not> is_space c" and "r = [] \<or> is_space (hd r)"
  shows "scanf stat_format (show_unsigned (tpid :: u32) @ '' ('' @ u @ '' '' @ w @ r) =
    StrV u # scanf (nums stat_nums @ [Lit (CHR 0x5C), Lit (CHR ''n'')]) r"
proof -
  obtain v' where v': "scan_int Signed (show_unsigned tpid @ '' ('' @ u @ '' '' @ w @ r) =
      Some (v', '' ('' @ u @ '' '' @ w @ r)"
    using scan_suppressed [of "'' ('' @ u @ '' '' @ w @ r"] by (auto simp: isdigit_def)
  have par: "skip_ws ('' ('' @ u @ '' '' @ w @ r) = CHR ''('' # u @ '' '' @ w @ r"
    by (simp add: skip_ws_def is_space_def)
  have s1: "scan_str (Some MAX_COMM_LEN) (u @ '' '' @ w @ r) = Some (u, '' '' @ w @ r)"
    using assms by (intro scan_str_word) (auto simp: is_space_def MAX_COMM_LEN_def)
  have ws: "skip_ws ('' '' @ w @ r) = w @ r"
    using assms(4,5) by (cases w) (auto simp: skip_ws_def is_space_def)
  have s2: "scan_str None (w @ r) = Some (w, r)"
    using assms by (intro scan_str_word) auto
  show ?thesis
    using v' par s1 ws s2 by (simp add: stat_format_def)
qed

lemma stat_nums_length: "length stat_nums = 41"
  by (simp add: stat_nums_def)

text \<open>The fourteen numbers assigned, by their place in the line.\<close>

lemma stat_selected:
  assumes "length ns = 41"
  shows "map (\<lambda>x. IntV (snd x)) (filter (\<lambda>x. fst (fst x)) (zip stat_nums ns)) =
    map (\<lambda>i. IntV (ns ! i)) [6, 7, 8, 9, 10, 11, 12, 13, 16, 19, 20, 35, 39, 40]"
proof -
  have "zip stat_nums ns = zip stat_nums (map (\<lambda>i. ns ! i) [0..<41])"
    using assms by (metis map_nth)
  then show ?thesis
    by (simp add: stat_nums_def upt_rec numeral_nat)
qed

lemma scanf_nums_stop:
  assumes "\<not> isdigit st" and "\<not> is_space st" and "st \<noteq> CHR ''-''" and "st \<noteq> CHR ''+''"
  shows "scanf (nums stat_nums @ ds) ('' '' @ st # r) = []"
proof -
  have s: "skip_ws ('' '' @ st # r) = st # r" "skip_ws (st # r) = st # r"
    using assms(2) by (simp_all add: skip_ws_blank skip_ws_nonspace)
  have n: "scan_int sg (st # r) = None" for sg
    using assms by (simp add: scan_int_def scan_num_def s Let_def)
  have "scanf (nums (f # fs) @ ds) ('' '' @ st # r) = []" for f fs
    using s n by (cases f) simp
  moreover have "hd stat_nums # tl stat_nums = stat_nums"
    by (rule hd_Cons_tl) (simp add: stat_nums_def)
  ultimately show ?thesis by metis
qed

lemma scanf_stat_text:
  assumes "length ns = 41" and "\<And>c. c \<in> set nm \<Longrightarrow> \<not> is_space c" and "length nm \<le> 15"
    and "\<not> is_space st"
  shows "scanf stat_format (stat_text tpid nm st ns @ [newline]) =
    StrV (nm @ '')'') # map (\<lambda>i. IntV (ns ! i)) [6, 7, 8, 9, 10, 11, 12, 13, 16, 19, 20, 35, 39, 40]"
proof -
  have "num_row ns @ [newline] = [] \<or> is_space (hd (num_row ns @ [newline]))"
    by (cases ns) (simp_all add: num_row_simps is_space_def)
  moreover have "\<not> is_space (CHR '')'')" by (simp add: is_space_def)
  ultimately have h: "scanf stat_format (show_unsigned tpid @ '' ('' @ (nm @ '')'') @ '' '' @ [st] @ num_row ns @ [newline]) =
      StrV (nm @ '')'') # scanf (nums stat_nums @ [Lit (CHR 0x5C), Lit (CHR ''n'')]) (num_row ns @ [newline])"
    using assms by (intro scanf_stat_head) auto
  have u: "sg = Unsigned" if "(True, sg) \<in> set stat_nums" for sg
    using that by (auto simp: stat_nums_def)
  have "scanf (nums stat_nums @ [Lit (CHR 0x5C), Lit (CHR ''n'')]) (num_row ns @ [newline]) =
      map (\<lambda>x. IntV (snd x)) (filter (\<lambda>x. fst (fst x)) (zip stat_nums ns)) @
      scanf [Lit (CHR 0x5C), Lit (CHR ''n'')] [newline]"
    using assms(1) u by (intro scanf_nums) (simp_all add: stat_nums_length isdigit_newline)
  then show ?thesis
    using h stat_selected [OF assms(1)] by (simp add: stat_text_def)
qed

lemma stat_text_plain:
  assumes "length ns = 41" and "\<And>c. c \<in> set nm \<Longrightarrow> \<not> is_space c \<and> c \<noteq> nul" and "length nm \<le> 15"
    and "\<not> is_space st \<and> st \<noteq> nul"
  shows "plain 4096 (stat_text tpid nm st ns)"
proof -
  have "is_space newline" by (simp add: is_space_def)
  then have n: "newline \<notin> set nm" "st \<noteq> newline" using assms(2,4) by auto
  have d: "nul \<notin> set (show_unsigned tpid)" "newline \<notin> set (show_unsigned tpid)"
    by (auto simp: show_unsigned_def dest: show_nat_chars)
  have "unat tpid < 2 ^ LENGTH(32)" by (rule unsigned_less)
  then have "length (show_unsigned tpid) \<le> 20"
    unfolding show_unsigned_def by (intro show_nat_length) simp_all
  then show ?thesis
    using n d assms num_row_plain [of ns] num_row_length [of ns]
    by (auto simp: plain_def stat_text_def)
qed

lemma stat_text_read:
  assumes "length ns = 41" and "\<And>c. c \<in> set nm \<Longrightarrow> \<not> is_space c \<and> c \<noteq> nul \<and> c \<noteq> CHR '')''"
    and "length nm \<le> 15" and "\<not> is_space st \<and> st \<noteq> nul"
    and "f = stat_text tpid nm st ns @ [newline]"
  shows "\<exists>p. read_proc_pid_stat kb_shift comm0 line (Some f) (Some f) tpid pst = (0, p) \<and>
    comm p = nm \<and> pid p = tpid \<and>
    utime p = ns ! 10 \<and> stime p = ns ! 11 \<and> cutime p = ns ! 12 \<and> cstime p = ns ! 13 \<and>
    gtime p = ns ! 39 \<and> cgtime p = ns ! 40 \<and>
    minflt p = ucast (ns ! 6) \<and> cminflt p = ucast (ns ! 7) \<and>
    majflt p = ucast (ns ! 8) \<and> cmajflt p = ucast (ns ! 9) \<and>
    vsz p = drop_bit 10 (ucast (ns ! 19)) \<and> rss p = push_bit (unat kb_shift) (ucast (ns ! 20)) \<and>
    processor p = ucast (ns ! 35) \<and> net p = net pst"
proof -
  have pl: "plain 4096 (stat_text tpid nm st ns)" using assms by (intro stat_text_plain) auto
  have sc: "scanf stat_format f =
      StrV (nm @ '')'') # map (\<lambda>i. IntV (ns ! i)) [6, 7, 8, 9, 10, 11, 12, 13, 16, 19, 20, 35, 39, 40]"
    unfolding assms(5) using assms by (intro scanf_stat_text) auto
  have name: "strip_paren (take (MAX_COMM_LEN - 1) (nm @ '')'')) = nm"
  proof (cases "length nm = 15")
    case True
    then have "last nm \<noteq> CHR '')''" using assms(2) [of "last nm"] by (cases nm) auto
    then show ?thesis using True by (simp add: strip_paren_def MAX_COMM_LEN_def)
  next
    case False
    then show ?thesis using assms(3) by (simp add: strip_paren_def MAX_COMM_LEN_def)
  qed
  have "fgets 4096 f line = Some (store f line, [])"
    using fgets_line [OF pl, of "[]"] by (simp add: assms(5))
  moreover have "fgets 4096 [] b = None" for b by (simp add: fgets_def)
  ultimately show ?thesis
    using sc name
    by (simp add: read_proc_pid_stat_def parse_pid_stat_def stat_stores_def Let_def lo32_def hi32_def
        PG_TO_KB_def)
qed

section \<open>Properties\<close>

text \<open>C20: a stat line as the kernel prints it, with a name without blanks, is read back: the result
  is 0, the name loses its parenthesis, the times are the printed 64-bit values, and the fault
  counts and sizes are their low 32 bits, the sizes then scaled.  So the virtual size is in kB only
  below 4 GiB: \<^verbatim>\<open>vsz\<close> is cut to 32 bits before it is divided by 1024.\<close>

theorem stat_fields_read:
  assumes "length ns = 41" and "\<And>c. c \<in> set nm \<Longrightarrow> \<not> is_space c \<and> c \<noteq> nul \<and> c \<noteq> CHR '')''"
    and "length nm \<le> 15" and "\<not> is_space st \<and> st \<noteq> nul"
    and "f = stat_text tpid nm st ns @ [newline]"
  shows "\<exists>p. read_proc_pid_stat kb_shift comm0 line (Some f) (Some f) tpid pst = (0, p) \<and>
    comm p = nm \<and> pid p = tpid \<and>
    utime p = ns ! 10 \<and> stime p = ns ! 11 \<and> cutime p = ns ! 12 \<and> cstime p = ns ! 13 \<and>
    gtime p = ns ! 39 \<and> cgtime p = ns ! 40 \<and>
    minflt p = ucast (ns ! 6) \<and> cminflt p = ucast (ns ! 7) \<and>
    majflt p = ucast (ns ! 8) \<and> cmajflt p = ucast (ns ! 9) \<and>
    vsz p = drop_bit 10 (ucast (ns ! 19)) \<and> rss p = push_bit (unat kb_shift) (ucast (ns ! 20)) \<and>
    processor p = ucast (ns ! 35) \<and> net p = net pst"
  by (rule stat_text_read [OF assms])

text \<open>C33: a name with a blank stops the scan: everything behind it stays what it was in the sample,
  which its caller has cleared, so the state, the parent and all times of such a process read as zero;
  \<^verbatim>\<open>vsz\<close> and \<^verbatim>\<open>rss\<close> are scaled all the same, and the name is cut at the blank.\<close>

theorem blank_in_name_stops:
  assumes "u \<noteq> []" and "\<And>c. c \<in> set u \<Longrightarrow> \<not> is_space c" and "length u \<le> 15"
    and "w \<noteq> []" and "\<And>c. c \<in> set w \<Longrightarrow> \<not> is_space c"
    and "\<not> isdigit st \<and> \<not> is_space st \<and> st \<noteq> CHR ''-'' \<and> st \<noteq> CHR ''+''" and "last u \<noteq> CHR '')''"
  shows "parse_pid_stat kb_shift comm0 tpid
      (stat_text tpid (u @ '' '' @ w) st ns @ [newline]) pst =
    pst\<lparr>vsz := drop_bit 10 (vsz pst), rss := PG_TO_KB kb_shift (rss pst), comm := u, pid := tpid\<rparr>"
proof -
  have "scanf stat_format (show_unsigned tpid @ '' ('' @ u @ '' '' @ (w @ '')'') @ '' '' @ st # num_row ns @ [newline]) =
    StrV u # scanf (nums stat_nums @ [Lit (CHR 0x5C), Lit (CHR ''n'')]) ('' '' @ st # num_row ns @ [newline])"
    using assms by (intro scanf_stat_head) (auto simp: is_space_def)
  moreover have "scanf (nums stat_nums @ [Lit (CHR 0x5C), Lit (CHR ''n'')]) ('' '' @ st # num_row ns @ [newline]) = []"
    using assms(6) by (intro scanf_nums_stop) auto
  ultimately have "scanf stat_format (stat_text tpid (u @ '' '' @ w) st ns @ [newline]) = [StrV u]"
    by (simp add: stat_text_def)
  then show ?thesis
    using assms(1,3,7)
    by (simp add: parse_pid_stat_def strip_paren_def MAX_COMM_LEN_def stat_stores_def)
qed

theorem blank_in_name_stops_witness:
  "parse_pid_stat 2 [] 7 (stat_text 7 ''Web Content'' (CHR ''S'') (replicate 41 5) @ [newline]) zero_pid_stats =
    zero_pid_stats\<lparr>comm := ''Web'', pid := 7\<rparr>"
proof -
  have "parse_pid_stat 2 [] 7 (stat_text 7 (''Web'' @ '' '' @ ''Content'') (CHR ''S'') (replicate 41 5) @ [newline])
      zero_pid_stats =
    zero_pid_stats\<lparr>vsz := drop_bit 10 (vsz zero_pid_stats), rss := PG_TO_KB 2 (rss zero_pid_stats),
      comm := ''Web'', pid := 7\<rparr>"
    by (rule blank_in_name_stops) (auto simp: is_space_def isdigit_def)
  then show ?thesis by (simp add: zero_pid_stats_def PG_TO_KB_def)
qed



theorem stat_fields_read_witness:
  "\<exists>p. read_proc_pid_stat 2 [] []
      (Some (stat_text 7 ''bash'' (CHR ''S'') (replicate 41 (2 ^ 32 + 4096)) @ [newline]))
      (Some (stat_text 7 ''bash'' (CHR ''S'') (replicate 41 (2 ^ 32 + 4096)) @ [newline])) 7 zero_pid_stats = (0, p) \<and>
    comm p = ''bash'' \<and> utime p = 2 ^ 32 + 4096 \<and> vsz p = 4"
proof -
  let ?ns = "replicate 41 (2 ^ 32 + 4096) :: u64 list"
  let ?f = "stat_text 7 ''bash'' (CHR ''S'') ?ns @ [newline]"
  have c: "(ucast (2 ^ 32 + 4096 :: u64) :: u32) = 4096" by simp
  have "drop_bit 10 (4096 :: u32) = 4" by simp
  moreover have "\<exists>p. read_proc_pid_stat 2 [] [] (Some ?f) (Some ?f) 7 zero_pid_stats = (0, p) \<and>
    comm p = ''bash'' \<and> pid p = 7 \<and>
    utime p = ?ns ! 10 \<and> stime p = ?ns ! 11 \<and> cutime p = ?ns ! 12 \<and> cstime p = ?ns ! 13 \<and>
    gtime p = ?ns ! 39 \<and> cgtime p = ?ns ! 40 \<and>
    minflt p = ucast (?ns ! 6) \<and> cminflt p = ucast (?ns ! 7) \<and>
    majflt p = ucast (?ns ! 8) \<and> cmajflt p = ucast (?ns ! 9) \<and>
    vsz p = drop_bit 10 (ucast (?ns ! 19)) \<and> rss p = push_bit (unat (2 :: u32)) (ucast (?ns ! 20)) \<and>
    processor p = ucast (?ns ! 35) \<and> net p = net zero_pid_stats"
    by (rule stat_fields_read) (auto simp: is_space_def)
  ultimately show ?thesis using c by (auto simp: nth_replicate)
qed



end
