(* ===== verification/Database.thy ===== *)
theory Database
  imports Common ProcFile
begin

text \<open>
  \<^verbatim>\<open>database.c\<close>: the statements the program sends to its MySQL database.  The client library is a
  parameter: for every history of calls, whether \<^verbatim>\<open>mysql_real_connect\<close> succeeds and what
  \<^verbatim>\<open>mysql_real_query\<close> returns.  The state is that history; a handle is the number of
  \<^verbatim>\<open>mysql_init\<close> calls before the one that made it.  The query buffers hold 1024 bytes.
\<close>

section \<open>The connection\<close>

datatype db_event = Init nat | Query nat string c_int | Close nat

type_synonym db_log = "db_event list"

record mysql =
  mysql_real_connect :: "db_log \<Rightarrow> bool"
  mysql_real_query :: "db_log \<Rightarrow> string \<Rightarrow> c_int"

fun inits :: "db_log \<Rightarrow> nat" where
  "inits [] = 0"
| "inits (Init h # es) = Suc (inits es)"
| "inits (e # es) = inits es"

definition create_conn :: "mysql \<Rightarrow> db_log \<Rightarrow> int \<times> nat \<times> db_log" where
  "create_conn db tr =
    (let conn = inits tr; tr' = tr @ [Init conn]
     in if \<not> mysql_real_connect db tr' then (0, conn, tr') else (1, conn, tr'))"

definition QUERY_SIZE :: nat where "QUERY_SIZE = 1024"

text \<open>The body the eight statements share: connect, print the query, send it, close.\<close>

definition send :: "mysql \<Rightarrow> string \<Rightarrow> db_log \<Rightarrow> (c_int \<times> db_log) res" where
  "send db query tr =
    (let (result, conn, tr') = create_conn db tr
     in if result = 0 then Inr (1, tr')
        else if length query \<ge> QUERY_SIZE then Inl (Undefined OutOfBounds)
        else (let rc = mysql_real_query db tr' query
              in Inr (rc, tr' @ [Query conn query rc, Close conn])))"

section \<open>Insertion\<close>

definition insert_device_energy :: "mysql \<Rightarrow> device_energy \<Rightarrow> db_log \<Rightarrow> (c_int \<times> db_log) res" where
  "insert_device_energy db de =
    send db (''INSERT INTO device_energy(time, ecpu, emem, enet, edisk) VALUES('' @
      show_signed (de_time de) @ '', '' @ show_fp 9 2 (de_ecpu de) @ '', '' @ show_fp 9 2 (de_emem de) @
      '', '' @ show_fp 9 2 (de_enet de) @ '', '' @ show_fp 9 2 (de_edisk de) @ '')'')"

definition insert_process_energy :: "mysql \<Rightarrow> process_energy \<Rightarrow> db_log \<Rightarrow> (c_int \<times> db_log) res" where
  "insert_process_energy db pe =
    send db (''INSERT INTO process_energy(pid,time, ecpu, emem, enet, edisk) VALUES('' @
      show_signed (pe_pid pe) @ '','' @ show_signed (pe_time pe) @ '', '' @ show_fp 9 2 (pe_ecpu pe) @
      '', '' @ show_fp 9 2 (pe_emem pe) @ '', '' @ show_fp 9 2 (pe_enet pe) @ '', '' @
      show_fp 9 2 (pe_edisk pe) @ '')'')"

definition ps_values :: "process_info \<Rightarrow> string" where
  "ps_values p =
    show_signed (pi_pid p) @ '', '' @ show_unsigned (pi_time p) @ '', '' @
    show_fp 9 2 (pi_read_bytes p) @ '', '' @ show_fp 9 2 (pi_write_bytes p) @ '', '' @
    show_fp 9 2 (pi_cancelled_write_bytes p) @ '', '' @ show_unsigned (pi_vsz p) @ '', '' @
    show_unsigned (pi_rss p) @ '', '' @ show_fp 6 2 (pi_mem p) @ '', '' @ show_fp 7 2 (pi_utime p) @ '', '' @
    show_fp 7 2 (pi_stime p) @ '', '' @ show_fp 7 2 (pi_gtime p) @ '', '' @ show_fp 7 2 (pi_cpu p) @ '', '' @
    show_fp 9 2 (pi_cswch p) @ '', '' @ show_fp 9 2 (pi_nvcswch p) @ '', '' @ show_fp 9 2 (pi_minflt p) @ '', '' @
    show_fp 9 2 (pi_majflt p) @ '', '' @ show_fp 9 2 (pi_netsnd p) @ '', '' @ show_fp 9 2 (pi_netrcv p) @ '','' @
    show_fp 9 2 (pi_ratio p) @ '','' @ show_unsigned (pi_cpu_accesses p)"

definition ps_query :: "process_info \<Rightarrow> string \<Rightarrow> string" where
  "ps_query p cmdline =
    ''INSERT INTO process_info(pid, time, read_bytes, write_bytes, cancelled_write_bytes,'' @
    ''total_vsz, total_rsz, mem, utime, stime, gtime, cpu, cswch, nvswch, minflt, majflt, netsnd, '' @
    ''netrcv, ratio, cpu_accesses,cmdline) VALUES('' @ ps_values p @
    '', '' @ [CHR 0x27] @ cmdline @ [CHR 0x27] @ '')''"

text \<open>A NULL command line is replaced by the empty string, in the caller's record too.\<close>

definition insert_ps ::
  "mysql \<Rightarrow> process_info \<Rightarrow> db_log \<Rightarrow> (process_info \<times> c_int \<times> db_log) res" where
  "insert_ps db pst tr =
    (let (result, conn, tr') = create_conn db tr
     in if result = 0 then Inr (pst, 1, tr')
        else (let cmdline = (case pi_cmdline pst of None \<Rightarrow> [] | Some c \<Rightarrow> c);
                  pst' = pst\<lparr>pi_cmdline := Some cmdline\<rparr>
              in bindR (send db (ps_query pst' cmdline) tr) (\<lambda>(rc, tr''). Inr (pst', rc, tr''))))"

definition sys_query :: "sys_info \<Rightarrow> string" where
  "sys_query st =
    ''INSERT INTO sys_info(time, netsend, netrcv, diskread, diskwrite,cpupower,memaccess, itv,runtime, apnum)'' @
    ''VALUES('' @ show_unsigned (si_time st) @ '', '' @ show_unsigned (si_totalnetsnd st) @ '', '' @
    show_unsigned (si_totalnetrcv st) @ '', '' @ show_unsigned (si_totaldiskread st) @ '', '' @
    show_unsigned (si_totaldiskwrite st) @ '', '' @ show_fp 9 2 (si_cpupower st) @ '', '' @
    show_unsigned (si_memaccess st) @ '', '' @ show_unsigned (si_itv st) @ '', '' @
    show_unsigned (si_runtime st) @ '', '' @ show_signed (si_active_process_num st) @ '')''"

definition insert_sys_info :: "mysql \<Rightarrow> sys_info \<Rightarrow> db_log \<Rightarrow> (c_int \<times> db_log) res" where
  "insert_sys_info db st = send db (sys_query st)"

section \<open>Deletion\<close>

text \<open>\<open>now\<close> is what \<^verbatim>\<open>time(NULL)\<close> returns; the interval is widened to a \<^verbatim>\<open>long\<close>.\<close>

definition freeup_device_energy :: "mysql \<Rightarrow> c_long \<Rightarrow> u32 \<Rightarrow> db_log \<Rightarrow> (c_int \<times> db_log) res" where
  "freeup_device_energy db now interval =
    send db (''DELETE FROM device_energy where time < '' @ show_signed (now - ucast interval))"

definition freeup_process_energy :: "mysql \<Rightarrow> c_long \<Rightarrow> u32 \<Rightarrow> db_log \<Rightarrow> (c_int \<times> db_log) res" where
  "freeup_process_energy db now interval =
    send db (''DELETE FROM process_energy where time < '' @ show_signed (now - ucast interval))"

definition freeup_ps :: "mysql \<Rightarrow> c_long \<Rightarrow> u32 \<Rightarrow> db_log \<Rightarrow> (c_int \<times> db_log) res" where
  "freeup_ps db now interval =
    send db (''DELETE FROM process_info where time < '' @ show_signed (now - ucast interval))"

definition freeup_sys_info :: "mysql \<Rightarrow> c_long \<Rightarrow> u32 \<Rightarrow> db_log \<Rightarrow> (c_int \<times> db_log) res" where
  "freeup_sys_info db now interval =
    send db (''DELETE FROM sys_info where time < '' @ show_signed (now - ucast interval))"

definition freeup_all :: "mysql \<Rightarrow> c_long \<Rightarrow> u32 \<Rightarrow> db_log \<Rightarrow> (c_int \<times> db_log) res" where
  "freeup_all db now interval tr =
    bindR (freeup_ps db now interval tr) (\<lambda>(r1, log1).
    bindR (freeup_sys_info db now interval log1) (\<lambda>(r2, log2).
    Inr (and (and 1 r1) r2, log2)))"

definition init_stat_data :: "mysql \<Rightarrow> c_long \<Rightarrow> db_log \<Rightarrow> (int \<times> db_log) res" where
  "init_stat_data db now tr =
    (let (result, conn, log1) = create_conn db tr
     in if result = 0 then Inr (1, log1)
        else bindR (freeup_all db now 0 log1) (\<lambda>(r, log2). Inr (1, log2 @ [Close conn])))"

definition clean_stat_data :: "mysql \<Rightarrow> c_long \<Rightarrow> db_log \<Rightarrow> db_log res" where
  "clean_stat_data db now tr = bindR (freeup_all db now 0 tr) (\<lambda>(r, tr'). Inr tr')"

section \<open>Sessions\<close>

text \<open>
  The handles that are allocated and not closed, and whether a history is well-formed: handles are
  numbered in order, and a query or a close uses a handle that is allocated and not closed.
\<close>

fun open_handles :: "db_log \<Rightarrow> nat set" where
  "open_handles [] = {}"
| "open_handles (Init h # es) = open_handles es \<union> {h}"
| "open_handles (Query h q rc # es) = open_handles es"
| "open_handles (Close h # es) = open_handles es - {h}"

fun wf_rev :: "db_log \<Rightarrow> bool" where
  "wf_rev [] = True"
| "wf_rev (Init h # es) \<longleftrightarrow> h = inits es \<and> wf_rev es"
| "wf_rev (Query h q rc # es) \<longleftrightarrow> h \<in> open_handles es \<and> wf_rev es"
| "wf_rev (Close h # es) \<longleftrightarrow> h \<in> open_handles es \<and> wf_rev es"

text \<open>Histories grow at the end, so both read them backwards.\<close>

definition leaked :: "db_log \<Rightarrow> nat set" where "leaked tr = open_handles (rev tr)"
definition log_ok :: "db_log \<Rightarrow> bool" where "log_ok tr \<longleftrightarrow> wf_rev (rev tr)"

lemma inits_append [simp]: "inits (xs @ ys) = inits xs + inits ys"
  by (induction xs rule: inits.induct) auto

lemma inits_rev [simp]: "inits (rev tr) = inits tr"
proof (induction tr)
  case (Cons e tr)
  then show ?case by (cases e) auto
qed simp

lemma open_handles_bound: "wf_rev es \<Longrightarrow> h \<in> open_handles es \<Longrightarrow> h < inits es"
  by (induction es rule: wf_rev.induct) auto

lemma leaked_bound: "log_ok tr \<Longrightarrow> inits tr \<notin> leaked tr"
  using open_handles_bound [of "rev tr" "inits tr"] by (auto simp: log_ok_def leaked_def)

lemma session_facts:
  "log_ok tr \<Longrightarrow> log_ok (tr @ [Init (inits tr)])"
  "leaked (tr @ [Init (inits tr)]) = insert (inits tr) (leaked tr)"
  "log_ok tr \<Longrightarrow> log_ok (tr @ [Init (inits tr), Query (inits tr) q rc, Close (inits tr)])"
  "log_ok tr \<Longrightarrow> leaked (tr @ [Init (inits tr), Query (inits tr) q rc, Close (inits tr)]) = leaked tr"
  using leaked_bound [of tr] by (auto simp: log_ok_def leaked_def)

text \<open>
  What every statement promises: it makes one handle; if the connection fails it returns 1 with
  the handle left, otherwise it sends one query on it, returns its result and closes it.
\<close>

locale db_statement =
  fixes db :: mysql and op :: "db_log \<Rightarrow> (c_int \<times> db_log) res"
  assumes session: "op tr = Inr (rc, tr') \<Longrightarrow>
    (if mysql_real_connect db (tr @ [Init (inits tr)])
     then \<exists>q. tr' = tr @ [Init (inits tr), Query (inits tr) q rc, Close (inits tr)]
     else rc = 1 \<and> tr' = tr @ [Init (inits tr)])"
begin

lemma keeps_log_ok: "log_ok tr \<Longrightarrow> op tr = Inr (rc, tr') \<Longrightarrow> log_ok tr'"
  by (drule session) (auto simp: session_facts split: if_splits)

lemma leak_iff_failed:
  "log_ok tr \<Longrightarrow> op tr = Inr (rc, tr') \<Longrightarrow>
    leaked tr' = (if mysql_real_connect db (tr @ [Init (inits tr)]) then leaked tr
                   else insert (inits tr) (leaked tr))"
  by (drule session) (auto simp: session_facts split: if_splits)

lemma failed_rc: "op tr = Inr (rc, tr') \<Longrightarrow> \<not> mysql_real_connect db (tr @ [Init (inits tr)]) \<Longrightarrow> rc = 1"
  by (drule session) simp

end

lemma send_session:
  "send db q tr = Inr (rc, tr') \<Longrightarrow>
    (if mysql_real_connect db (tr @ [Init (inits tr)])
     then \<exists>q. tr' = tr @ [Init (inits tr), Query (inits tr) q rc, Close (inits tr)]
     else rc = 1 \<and> tr' = tr @ [Init (inits tr)])"
  by (auto simp: send_def create_conn_def Let_def split: if_splits)

interpretation db_de: db_statement db "insert_device_energy db de" for db de
  by unfold_locales (simp add: insert_device_energy_def send_session)

interpretation db_pe: db_statement db "insert_process_energy db pe" for db pe
  by unfold_locales (simp add: insert_process_energy_def send_session)

interpretation db_si: db_statement db "insert_sys_info db st" for db st
  by unfold_locales (simp add: insert_sys_info_def send_session)

interpretation db_fde: db_statement db "freeup_device_energy db now itv" for db now itv
  by unfold_locales (simp add: freeup_device_energy_def send_session)

interpretation db_fpe: db_statement db "freeup_process_energy db now itv" for db now itv
  by unfold_locales (simp add: freeup_process_energy_def send_session)

interpretation db_fps: db_statement db "freeup_ps db now itv" for db now itv
  by unfold_locales (simp add: freeup_ps_def send_session)

interpretation db_fsi: db_statement db "freeup_sys_info db now itv" for db now itv
  by unfold_locales (simp add: freeup_sys_info_def send_session)

interpretation db_ps: db_statement db
  "\<lambda>tr. bindR (insert_ps db pst tr) (\<lambda>(p, rc, tr'). Inr (rc, tr'))" for db pst
proof unfold_locales
  fix tr rc tr'
  assume a: "bindR (insert_ps db pst tr) (\<lambda>(p, rc, tr'). Inr (rc, tr')) = Inr (rc, tr')"
  show "if mysql_real_connect db (tr @ [Init (inits tr)])
     then \<exists>q. tr' = tr @ [Init (inits tr), Query (inits tr) q rc, Close (inits tr)]
     else rc = 1 \<and> tr' = tr @ [Init (inits tr)]"
  proof (cases "mysql_real_connect db (tr @ [Init (inits tr)])")
    case True
    then have "\<exists>q. send db q tr = Inr (rc, tr')"
      using a by (auto simp: insert_ps_def create_conn_def Let_def bindR_eq_Inr split: if_splits)
    then show ?thesis using send_session by blast
  next
    case False
    then show ?thesis using a by (auto simp: insert_ps_def create_conn_def Let_def)
  qed
qed

lemma freeup_all_keeps:
  assumes "log_ok tr" and "freeup_all db now itv tr = Inr (rc, tr')"
  shows "log_ok tr' \<and> leaked tr \<subseteq> leaked tr' \<and>
    ((\<forall>l. mysql_real_connect db l) \<longrightarrow> leaked tr' = leaked tr)"
proof -
  obtain r1 log1 r2 where 1: "freeup_ps db now itv tr = Inr (r1, log1)"
    and 2: "freeup_sys_info db now itv log1 = Inr (r2, tr')"
    using assms(2) by (auto simp: freeup_all_def bindR_eq_Inr)
  have ok1: "log_ok log1" by (rule db_fps.keeps_log_ok [OF assms(1) 1])
  show ?thesis
    using db_fsi.keeps_log_ok [OF ok1 2] db_fps.leak_iff_failed [OF assms(1) 1]
      db_fsi.leak_iff_failed [OF ok1 2] by auto
qed

section \<open>Lengths\<close>

lemma show_fixed_length:
  assumes "0 \<le> x" and "x < 10 ^ 12"
  shows "length (show_fixed 2 x) \<le> 16"
proof -
  let ?k = "nat (rhe (x * 100))"
  have "x * 100 \<le> of_int (10 ^ 14)" using assms(2) by simp
  then have "rhe (x * 100) \<le> 10 ^ 14" by (rule rhe_le_of_int)
  then have "?k \<le> 10 ^ 14" by simp
  then have "?k div 100 \<le> 10 ^ 14 div 100" by (rule div_le_mono)
  then have "?k div 100 < 10 ^ 13" by simp
  then have "length (show_nat (?k div 100)) \<le> 13" by (intro show_nat_length) simp_all
  moreover have "length (show_nat (?k mod 100)) \<le> 2" by (intro show_nat_length) simp_all
  ultimately show ?thesis
    using assms(1) by (simp add: show_fixed_def Let_def pad_left_def power2_eq_square)
qed

text \<open>A finite value below \<open>10 ^ 12\<close>.\<close>

definition small_fp :: "fp \<Rightarrow> bool" where
  "small_fp v \<longleftrightarrow> (case v of Fin x \<Rightarrow> 0 \<le> x \<and> x < 10 ^ 12 | _ \<Rightarrow> False)"

lemma show_fp_length: "small_fp v \<Longrightarrow> w \<le> 16 \<Longrightarrow> length (show_fp w 2 v) \<le> 16"
  using show_fixed_length by (cases v) (fastforce simp: small_fp_def pad_left_def)+

lemma show_unsigned_length:
  fixes w :: "'a::len word"
  assumes "2 ^ LENGTH('a) \<le> (10::nat) ^ k" and "0 < k"
  shows "length (show_unsigned w) \<le> k"
  unfolding show_unsigned_def
  by (intro show_nat_length assms(2) less_le_trans [OF unsigned_less assms(1)])

lemma show_signed_length:
  fixes w :: "'a::len word"
  assumes "2 ^ LENGTH('a) \<le> (10::nat) ^ k" and "0 < k"
  shows "length (show_signed w) \<le> k + 1"
proof -
  have b: "(2::int) ^ LENGTH('a) \<le> 10 ^ k"
    using assms(1) by (simp flip: of_nat_le_iff [where 'a = int])
  have h: "(2::int) ^ (LENGTH('a) - 1) < 2 ^ LENGTH('a)" by simp
  have "- (10 ^ k) < sint w" "sint w < 10 ^ k"
    using sint_ge [of w] sint_lt [of w] b h by linarith+
  then have "nat (- sint w) < 10 ^ k" "nat (sint w) < 10 ^ k" by (simp_all add: nat_less_iff)
  then show ?thesis
    using show_nat_length [OF assms(2), of "nat (- sint w)"] show_nat_length [OF assms(2), of "nat (sint w)"]
    by (simp add: show_signed_def show_int_def)
qed

lemma freeup_fits:
  fixes v :: c_long
  assumes "length s \<le> 100"
  shows "length (s @ show_signed v) < QUERY_SIZE"
proof -
  have "length (show_signed v) \<le> 20 + 1" by (rule show_signed_length) simp_all
  then show ?thesis using assms by (simp add: QUERY_SIZE_def)
qed

lemma send_total: "length q < QUERY_SIZE \<Longrightarrow> \<exists>rc tr'. send db q tr = Inr (rc, tr')"
  by (auto simp: send_def Let_def split: prod.split)

lemma freeup_ps_total: "\<exists>rc tr'. freeup_ps db now itv tr = Inr (rc, tr')"
  unfolding freeup_ps_def by (intro send_total freeup_fits) simp

lemma freeup_sys_info_total: "\<exists>rc tr'. freeup_sys_info db now itv tr = Inr (rc, tr')"
  unfolding freeup_sys_info_def by (intro send_total freeup_fits) simp

lemma and_1_word: "and 1 (w :: c_int) = (if odd (uint w) then 1 else 0)"
proof -
  have "odd (uint w) \<longleftrightarrow> odd w"
    using bit_uint_iff [of w 0] by (simp add: bit_0)
  then show ?thesis by (simp add: one_and_eq mod_2_eq_odd)
qed

lemma freeup_all_total: "\<exists>rc tr'. freeup_all db now itv tr = Inr (rc, tr')"
proof -
  obtain r1 tr1 where "freeup_ps db now itv tr = Inr (r1, tr1)"
    using freeup_ps_total by blast
  moreover obtain r2 tr2 where "freeup_sys_info db now itv tr1 = Inr (r2, tr2)"
    using freeup_sys_info_total by blast
  ultimately show ?thesis by (simp add: freeup_all_def)
qed

lemma init_stat_data_total: "\<exists>tr'. init_stat_data db now tr = Inr (1, tr')"
proof -
  obtain rc tr2 where "freeup_all db now 0 (tr @ [Init (inits tr)]) = Inr (rc, tr2)"
    using freeup_all_total by blast
  then show ?thesis by (simp add: init_stat_data_def create_conn_def Let_def)
qed

lemma clean_stat_data_total: "\<exists>tr'. clean_stat_data db now tr = Inr tr'"
proof -
  obtain rc tr2 where "freeup_all db now 0 tr = Inr (rc, tr2)"
    using freeup_all_total by blast
  then show ?thesis by (simp add: clean_stat_data_def)
qed

section \<open>Properties\<close>

text \<open>Connections are balanced: starting from a well-formed history, an insertion of a process or
  a system record, or a purge, uses only handles that are open and closes what it connected; a
  handle is left over exactly when its connection failed, and then it leaks.\<close>

lemma sessions_balanced:
  assumes "log_ok tr"
  shows "(insert_sys_info db st tr = Inr (rc, tr') \<longrightarrow> log_ok tr' \<and>
      leaked tr' = (if mysql_real_connect db (tr @ [Init (inits tr)]) then leaked tr
                    else insert (inits tr) (leaked tr))) \<and>
    (insert_ps db pst tr = Inr (pst', rc, tr') \<longrightarrow> log_ok tr' \<and>
      leaked tr' = (if mysql_real_connect db (tr @ [Init (inits tr)]) then leaked tr
                    else insert (inits tr) (leaked tr))) \<and>
    (freeup_all db now itv tr = Inr (rc, tr') \<longrightarrow> log_ok tr' \<and> leaked tr \<subseteq> leaked tr')"
proof (intro conjI impI)
  assume "insert_ps db pst tr = Inr (pst', rc, tr')"
  then have "bindR (insert_ps db pst tr) (\<lambda>(p, rc, tr'). Inr (rc, tr')) = Inr (rc, tr')" by simp
  from db_ps.keeps_log_ok [OF assms this] db_ps.leak_iff_failed [OF assms this]
  show "log_ok tr'" and "leaked tr' = (if mysql_real_connect db (tr @ [Init (inits tr)]) then leaked tr
      else insert (inits tr) (leaked tr))" .
next
  assume i: "insert_sys_info db st tr = Inr (rc, tr')"
  show "log_ok tr'" by (rule db_si.keeps_log_ok [OF assms i])
  show "leaked tr' = (if mysql_real_connect db (tr @ [Init (inits tr)]) then leaked tr
      else insert (inits tr) (leaked tr))" by (rule db_si.leak_iff_failed [OF assms i])
next
  assume f: "freeup_all db now itv tr = Inr (rc, tr')"
  show "log_ok tr'" and "leaked tr \<subseteq> leaked tr'" using freeup_all_keeps [OF assms f] by simp_all
qed

text \<open>C38: the purge: it always comes back; with a connection it deletes the old rows of the two tables
  of records, each in its own session, and nothing else, so the rows of the two energy tables are
  never deleted.  Its result is 1 when both deletions report an odd error code and 0, success,
  otherwise, although the comment promises 1 on error.\<close>

theorem freeup_all_result:
  assumes "\<And>l. mysql_real_connect db l" and "n = inits tr"
  shows "(\<exists>r1 r2. freeup_all db now itv tr = Inr (if odd (uint r1) \<and> odd (uint r2) then 1 else 0,
      tr @ [Init n, Query n (''DELETE FROM process_info where time < '' @ show_signed (now - ucast itv)) r1, Close n,
            Init (n + 1), Query (n + 1) (''DELETE FROM sys_info where time < '' @ show_signed (now - ucast itv)) r2,
            Close (n + 1)])) \<and>
    (\<exists>r tr'. freeup_all db' now itv tr = Inr (r, tr'))"
proof
  let ?q = "\<lambda>t. ''DELETE FROM '' @ t @ '' where time < '' @ show_signed (now - ucast itv :: c_long)"
  let ?r1 = "mysql_real_query db (tr @ [Init n]) (?q ''process_info'')"
  let ?t1 = "tr @ [Init n, Query n (?q ''process_info'') ?r1, Close n]"
  let ?r2 = "mysql_real_query db (?t1 @ [Init (n + 1)]) (?q ''sys_info'')"
  have f: "\<not> QUERY_SIZE \<le> length (?q t)" if "length t \<le> 50" for t
    using freeup_fits [of "''DELETE FROM '' @ t @ '' where time < ''" "now - ucast itv"] that by simp
  have 1: "freeup_ps db now itv tr = Inr (?r1, ?t1)"
    using assms f [of "''process_info''"] by (simp add: freeup_ps_def send_def create_conn_def Let_def)
  have n: "inits ?t1 = n + 1" using assms(2) by simp
  have 2: "freeup_sys_info db now itv ?t1 = Inr (?r2, ?t1 @ [Init (n + 1), Query (n + 1) (?q ''sys_info'') ?r2, Close (n + 1)])"
    unfolding freeup_sys_info_def send_def create_conn_def Let_def n
    using assms(1) f [of "''sys_info''"] by simp
  have "and (and 1 ?r1) ?r2 = (if odd (uint ?r1) \<and> odd (uint ?r2) then 1 else 0)"
    by (simp add: and_1_word)
  then have "freeup_all db now itv tr = Inr (if odd (uint ?r1) \<and> odd (uint ?r2) then 1 else 0,
      ?t1 @ [Init (n + 1), Query (n + 1) (?q ''sys_info'') ?r2, Close (n + 1)])"
    unfolding freeup_all_def 1 by (simp only: bindR_Inr prod.case 2)
  then show "\<exists>r1 r2. freeup_all db now itv tr = Inr (if odd (uint r1) \<and> odd (uint r2) then 1 else 0,
      tr @ [Init n, Query n (''DELETE FROM process_info where time < '' @ show_signed (now - ucast itv)) r1, Close n,
            Init (n + 1), Query (n + 1) (''DELETE FROM sys_info where time < '' @ show_signed (now - ucast itv)) r2,
            Close (n + 1)])"
    by (intro exI [of _ ?r1] exI [of _ ?r2]) simp
  show "\<exists>r tr'. freeup_all db' now itv tr = Inr (r, tr')" by (rule freeup_all_total)
qed

theorem freeup_all_result_witness:
  "\<exists>r1 r2. freeup_all \<lparr>mysql_real_connect = \<lambda>l. True, mysql_real_query = \<lambda>l q. 2\<rparr> 100 31 [] =
    Inr (if odd (uint r1) \<and> odd (uint r2) then 1 else 0,
      [Init 0, Query 0 ''DELETE FROM process_info where time < 69'' r1, Close 0,
       Init 1, Query 1 ''DELETE FROM sys_info where time < 69'' r2, Close 1])"
proof -
  have "show_signed (69 :: c_long) = ''69''" by (simp add: show_signed_def show_int_def show_nat.simps)
  then show ?thesis
    using freeup_all_result [of "\<lparr>mysql_real_connect = \<lambda>l. True, mysql_real_query = \<lambda>l q. 2\<rparr>" 0 "[]" 100 31]
    by simp
qed

text \<open>C40: the command line is not escaped: with one that contains a quote and a parenthesis, the text
  sent to the database is the complete insertion of the part before it, followed by the rest of the
  name as further SQL.\<close>

theorem quote_ends_statement:
  assumes "mysql_real_connect db (tr @ [Init n])" and "n = inits tr"
    and "length (ps_query p (c @ [CHR 0x27] @ '')'' @ rest)) < QUERY_SIZE"
  shows "\<exists>rc. insert_ps db (p\<lparr>pi_cmdline := Some (c @ [CHR 0x27] @ '')'' @ rest)\<rparr>) tr =
    Inr (p\<lparr>pi_cmdline := Some (c @ [CHR 0x27] @ '')'' @ rest)\<rparr>, rc,
      tr @ [Init n, Query n (ps_query p c @ rest @ [CHR 0x27] @ '')'') rc, Close n])"
proof -
  have v: "ps_query (p\<lparr>pi_cmdline := x\<rparr>) d = ps_query p d" for x d
    by (simp add: ps_query_def ps_values_def)
  have q: "ps_query p (c @ [CHR 0x27] @ '')'' @ rest) = ps_query p c @ rest @ [CHR 0x27] @ '')''"
    by (simp add: ps_query_def)
  show ?thesis
    using assms unfolding insert_ps_def send_def create_conn_def Let_def q
    by (simp add: v q [simplified])
qed

theorem quote_ends_statement_witness:
  "\<exists>rc q. insert_ps \<lparr>mysql_real_connect = \<lambda>l. True, mysql_real_query = \<lambda>l q. 0\<rparr>
      (zero_process_info\<lparr>pi_cmdline := Some ([CHR 0x27] @ '')'' @ ''; DROP TABLE x; -- '')\<rparr>) [] =
    Inr (zero_process_info\<lparr>pi_cmdline := Some ([CHR 0x27] @ '')'' @ ''; DROP TABLE x; -- '')\<rparr>, rc,
      [Init 0, Query 0 (q @ ''; DROP TABLE x; -- '' @ [CHR 0x27] @ '')'') rc, Close 0])"
proof -
  have "length (show_fp w 2 (0 :: fp)) \<le> 16" if "w \<le> 16" for w
    using that by (intro show_fp_length) (simp_all add: small_fp_def zero_fp_def)
  note f = this [of 9] this [of 7] this [of 6]
  have i: "length (show_signed (0 :: u32)) \<le> 10 + 1" "length (show_unsigned (0 :: u32)) \<le> 10"
    "length (show_unsigned (0 :: u64)) \<le> 20"
    by (rule show_signed_length show_unsigned_length; simp)+
  have "length (ps_values zero_process_info) \<le> 400"
    using f i by (simp add: ps_values_def zero_process_info_def)
  then have "length (ps_query zero_process_info ([] @ [CHR 0x27] @ '')'' @ ''; DROP TABLE x; -- '')) < QUERY_SIZE"
    by (simp add: ps_query_def QUERY_SIZE_def)
  from quote_ends_statement [OF _ _ this, of "\<lparr>mysql_real_connect = \<lambda>l. True, mysql_real_query = \<lambda>l q. 0\<rparr>" "[]" 0]
  show ?thesis by auto
qed

text \<open>The insertion of a process stays in its buffer of 1024 bytes when every rate is finite and
  below \<open>10 ^ 12\<close> and the command line has at most 300 characters, so it never runs into
  undefined behaviour there.\<close>

lemma insert_ps_fits:
  assumes "\<And>f. f \<in> {pi_read_bytes, pi_write_bytes, pi_cancelled_write_bytes, pi_mem, pi_utime, pi_stime,
      pi_gtime, pi_cpu, pi_cswch, pi_nvcswch, pi_minflt, pi_majflt, pi_netsnd, pi_netrcv, pi_ratio} \<Longrightarrow>
      small_fp (f p)"
    and "length (case pi_cmdline p of None \<Rightarrow> [] | Some c \<Rightarrow> c) \<le> 300"
  shows "\<exists>p' rc tr'. insert_ps db p tr = Inr (p', rc, tr')"
proof -
  have f: "length (show_fp w 2 (f p)) \<le> 16"
    if "f \<in> {pi_read_bytes, pi_write_bytes, pi_cancelled_write_bytes, pi_mem, pi_utime, pi_stime,
      pi_gtime, pi_cpu, pi_cswch, pi_nvcswch, pi_minflt, pi_majflt, pi_netsnd, pi_netrcv, pi_ratio}"
      and "w \<le> 16" for f w
    using assms(1) [OF that(1)] that(2) by (rule show_fp_length)
  have i: "length (show_signed (pi_pid p)) \<le> 10 + 1" "length (show_unsigned (pi_time p)) \<le> 10"
    "length (show_unsigned (pi_vsz p)) \<le> 10" "length (show_unsigned (pi_rss p)) \<le> 10"
    "length (show_unsigned (pi_cpu_accesses p)) \<le> 20"
    by (rule show_signed_length show_unsigned_length; simp)+
  have "length (ps_values p) \<le> 400"
    using i f [of pi_read_bytes 9] f [of pi_write_bytes 9] f [of pi_cancelled_write_bytes 9] f [of pi_mem 6]
      f [of pi_utime 7] f [of pi_stime 7] f [of pi_gtime 7] f [of pi_cpu 7] f [of pi_cswch 9]
      f [of pi_nvcswch 9] f [of pi_minflt 9] f [of pi_majflt 9] f [of pi_netsnd 9] f [of pi_netrcv 9]
      f [of pi_ratio 9]
    by (simp add: ps_values_def)
  moreover have "ps_values (p\<lparr>pi_cmdline := c\<rparr>) = ps_values p" for c by (simp add: ps_values_def)
  ultimately have "length (ps_query (p\<lparr>pi_cmdline := Some c\<rparr>) c) < QUERY_SIZE" if "length c \<le> 300" for c
    using that by (simp add: ps_query_def QUERY_SIZE_def)
  then obtain rc tr' where
    "send db (ps_query (p\<lparr>pi_cmdline := Some c\<rparr>) c) tr = Inr (rc, tr')"
    if "c = (case pi_cmdline p of None \<Rightarrow> [] | Some c \<Rightarrow> c)" for c
    using assms(2) send_total by metis
  then show ?thesis
    by (simp add: insert_ps_def Let_def split: prod.split)
qed

end
