(* ===== verification/Sampling.thy ===== *)
theory Sampling
  imports PidStats CpuStats Database
begin

text \<open>
  The sampling half of \<^verbatim>\<open>ptop.c\<close>: reading all processes into the tree, comparing the two samples
  of a process, the rates written to the database, and the list of the most active processes.
  One pass over \<^verbatim>\<open>/proc\<close> is a fold over the directory entries; the recursion of \<^verbatim>\<open>write_stat\<close>
  follows the tree.
\<close>

section \<open>What a pass reads\<close>

text \<open>
  The files of each process (by id), the other inputs of a pass, and the contents of
  uninitialised locals.
\<close>

record proc_env =
  ev_dir :: "string list option"
  ev_cpu :: "string option"
  ev_stat1 :: "u32 \<Rightarrow> string option"
  ev_stat2 :: "u32 \<Rightarrow> string option"
  ev_status :: "u32 \<Rightarrow> string option"
  ev_io :: "u32 \<Rightarrow> string option"
  ev_smaps :: "u32 \<Rightarrow> string option"
  ev_meminfo :: "u32 \<Rightarrow> string option"
  ev_malloc :: "nat \<Rightarrow> bool"
  ev_popen :: perf_open
  ev_read :: fd_read
  ev_comm0 :: buf
  ev_line :: buf
  ev_stmaps :: stat_smaps

section \<open>Activity\<close>

text \<open>\<open>psti\<close> and \<open>pstj\<close> are pointers; the last test of the code is always taken.\<close>

definition is_active :: "pid_stats option \<Rightarrow> pid_stats option \<Rightarrow> int res" where
  "is_active pstj psti =
    (case psti of None \<Rightarrow> Inr 0
     | Some qi \<Rightarrow>
       if pid qi \<le> 0 then Inr 0
       else (case pstj of None \<Rightarrow> Inl (Undefined NullDeref)
        | Some pj \<Rightarrow>
          if utime qi \<noteq> utime pj \<or> stime qi \<noteq> stime pj then Inr 1
          else if cutime qi \<noteq> cutime pj \<or> cstime qi \<noteq> cstime pj then Inr 1
          else if minflt qi \<noteq> minflt pj \<or> majflt qi \<noteq> majflt pj then Inr 1
          else if vsz qi \<noteq> vsz pj \<or> rss qi \<noteq> rss pj then Inr 1
          else if cminflt qi \<noteq> cminflt pj \<or> cmajflt qi \<noteq> cmajflt pj then Inr 1
          else if read_bytes qi \<noteq> read_bytes pj \<or> write_bytes qi \<noteq> write_bytes pj \<or>
               cancelled_write_bytes qi \<noteq> cancelled_write_bytes pj then Inr 1
          else if nvcsw qi \<noteq> nvcsw pj \<or> nivcsw qi \<noteq> nivcsw pj then Inr 1
          else Inr (- 1)))"

section \<open>Reading the processes\<close>

text \<open>The result, the descriptor of the node and the sample.\<close>

definition read_pid_stats ::
  "proc_env \<Rightarrow> u32 \<Rightarrow> perf \<Rightarrow> u32 \<Rightarrow> int \<Rightarrow> pid_stats option \<Rightarrow> (int \<times> int \<times> pid_stats) res" where
  "read_pid_stats ev kb_shift pf tpid fd prev =
    (let (r1, p1) = read_proc_pid_stat kb_shift (ev_comm0 ev) (ev_line ev) (ev_stat1 ev tpid)
                      (ev_stat2 ev tpid) tpid zero_pid_stats
     in if r1 \<noteq> 0 then Inr (1, fd, p1) else
     (let (r2, p2) = read_proc_pid_status (ev_status ev tpid) (ev_line ev) tpid p1
      in if r2 \<noteq> 0 then Inr (1, fd, p2) else
      (let (r3, p3) = read_proc_pid_io (ev_io ev tpid) (ev_line ev) tpid p2
       in if r3 \<noteq> 0 then Inr (1, fd, p3) else
       bindR (is_active prev (Some p3)) (\<lambda>active.
       bindR (read_proc_pid_mem (ev_popen ev) (ev_read ev) pf (ev_smaps ev tpid) (ev_meminfo ev tpid)
                (ev_line ev) (ev_stmaps ev) tpid p3 fd active) (\<lambda>(fd', p4). Inr (0, fd', p4))))))"

text \<open>What \<^verbatim>\<open>read_process_stats\<close> does with a node: the sample \<open>cur\<close>, with id 0 when the process is gone.\<close>

definition read_into ::
  "proc_env \<Rightarrow> u32 \<Rightarrow> perf \<Rightarrow> nat \<Rightarrow> u32 \<Rightarrow> int \<times> samples \<Rightarrow> (int \<times> samples) res" where
  "read_into ev kb_shift pf cur tpid node =
    (case node of (fd, p) \<Rightarrow>
      (case pst_get cur p of None \<Rightarrow> Inl (Undefined NullDeref)
       | Some psti \<Rightarrow>
         bindR (read_pid_stats ev kb_shift pf tpid fd (pst_get (1 - cur) p)) (\<lambda>(rc, fd', pst).
           Inr (fd', pst_set cur (Some (if rc \<noteq> 0 then pst\<lparr>pid := 0\<rparr> else pst)) p))))"

definition visit_pid :: "proc_env \<Rightarrow> u32 \<Rightarrow> perf \<Rightarrow> nat \<Rightarrow> u32 \<Rightarrow> avl \<Rightarrow> avl res" where
  "visit_pid ev kb_shift pf cur tpid t =
    visit find_contents (\<lambda>x. insert_avl (ev_malloc ev) x (- 1)) (\<lambda>x v. update_at x (\<lambda>_. v))
      (sint tpid) (read_into ev kb_shift pf cur tpid) t"

definition pids_of :: "string list \<Rightarrow> u32 list" where
  "pids_of ds = map atoi (filter (\<lambda>d. d \<noteq> [] \<and> isdigit (hd d)) ds)"

definition read_process_stats ::
  "proc_env \<Rightarrow> u32 \<Rightarrow> perf \<Rightarrow> nat \<Rightarrow> sys_info \<Rightarrow> avl \<Rightarrow> (sys_info \<times> avl) res" where
  "read_process_stats ev kb_shift pf cur sy t =
    bindR (read_stat_cpu (ev_cpu ev) (ev_line ev) sy) (\<lambda>sy'.
      case ev_dir ev of None \<Rightarrow> Inl (Exit 4)
      | Some ds \<Rightarrow> bindR (foldR (visit_pid ev kb_shift pf cur) (pids_of ds) t) (\<lambda>t'. Inr (sy', t')))"

section \<open>Rates\<close>

definition u64f :: "u64 \<Rightarrow> fp" where "u64f v = fofint f32 (uint v)"

text \<open>The macros \<^verbatim>\<open>S_VALUE\<close> and \<^verbatim>\<open>SP_VALUE\<close>, in double precision, assigned to a float.\<close>

definition S_VALUE :: "u32 \<Rightarrow> u32 \<Rightarrow> u32 \<Rightarrow> u64 \<Rightarrow> fp" where
  "S_VALUE hz m n p = fcast f32
    (fmul f64 (fdiv f64 (fofint f64 (uint (n - m))) (fofint f64 (uint p))) (fofint f64 (uint hz)))"

definition SP_VALUE :: "u32 \<Rightarrow> u32 \<Rightarrow> u32 \<Rightarrow> fp" where
  "SP_VALUE m n p = fcast f32
    (fmul f64 (fdiv f64 (fofint f64 (uint (n - m))) (fofint f64 (uint p))) (fofint f64 100))"

text \<open>Times that went back by less than 100 ticks are replaced by the old ones.\<close>

definition no_jitter :: "pid_stats \<Rightarrow> pid_stats \<Rightarrow> pid_stats" where
  "no_jitter pj p =
    (let back = (\<lambda>f. f p < f pj \<and> f pj - f p < 100)
     in p\<lparr>utime := (if back utime then utime pj else utime p),
          stime := (if back stime then stime pj else stime p),
          gtime := (if back gtime then gtime pj else gtime p)\<rparr>)"

definition process_rates ::
  "u32 \<Rightarrow> u32 \<Rightarrow> c_long \<Rightarrow> u64 \<Rightarrow> pid_stats \<Rightarrow> pid_stats \<Rightarrow> process_info" where
  "process_rates hz tlm time itv qi pj =
    (let k = fdiv f32 (Fin 100) (u64f itv);
         wr = u64f (u64_subcount (write_bytes qi) (write_bytes pj));
         cw = u64f (u64_subcount (cancelled_write_bytes qi) (cancelled_write_bytes pj))
     in zero_process_info
        \<lparr>pi_time := ucast time, pi_pid := pid qi,
         pi_utime := fmul f32 (u64f (u64_subcount (utime qi) (utime qi) - u64_subcount (gtime qi) (gtime pj))) k,
         pi_stime := fmul f32 (u64f (u64_subcount (stime qi) (stime pj))) k,
         pi_gtime := fmul f32 (u64f (u64_subcount (gtime qi) (gtime pj))) k,
         pi_cpu := fmul f32 (u64f (u64_subcount (utime qi) (utime pj) + u64_subcount (stime qi) (stime pj))) k,
         pi_minflt := S_VALUE hz (minflt pj) (minflt qi) itv,
         pi_majflt := S_VALUE hz (majflt pj) (majflt qi) itv,
         pi_vsz := vsz qi, pi_rss := rss qi,
         pi_mem := (if tlm \<noteq> 0 then SP_VALUE 0 (rss qi) tlm else 0),
         pi_read_bytes := u64f (u64_subcount (read_bytes qi) (read_bytes pj)),
         pi_write_bytes := wr,
         pi_cancelled_write_bytes := (if wr < cw then wr else cw),
         pi_cswch := S_VALUE hz (nvcsw pj) (nvcsw qi) itv,
         pi_nvcswch := S_VALUE hz (nivcsw pj) (nivcsw qi) itv,
         pi_cmdline := Some (comm qi),
         pi_netsnd := u64f (u64_subcount (totalnetsnd (net qi)) (totalnetsnd (net pj))),
         pi_netrcv := u64f (u64_subcount (totalnetrcv (net qi)) (totalnetrcv (net pj))),
         pi_ratio := (if total_active (mem qi) > 0
            then fdiv f32 (fmul f32 (u64f (memory_used (mem qi))) (Fin 100)) (u64f (total_active (mem qi)))
            else 0),
         pi_cpu_accesses := (if cpu_accesses (mem qi) > 0
            then u64_subcount (cpu_accesses (mem qi)) (cpu_accesses (mem pj)) else 0)\<rparr>)"

section \<open>The list of the most active processes\<close>

definition SHOW_NUM :: nat where "SHOW_NUM = 40"

text \<open>The loop from \<^verbatim>\<open>i = length - 1\<close> down; the first component of the result is \<^verbatim>\<open>i + 1\<close>.\<close>

fun shift_loop :: "process_info \<Rightarrow> nat \<Rightarrow> process_info list \<Rightarrow> nat \<times> process_info list" where
  "shift_loop qi 0 l = (0, l)"
| "shift_loop qi (Suc i) l =
    (if pi_cpu (l ! i) < pi_cpu qi \<and> i \<noteq> SHOW_NUM - 1 then shift_loop qi i (l[Suc i := l ! i])
     else (Suc i, l))"

definition add_higher_process_info :: "process_info \<Rightarrow> nat \<Rightarrow> process_info list \<Rightarrow> process_info list" where
  "add_higher_process_info qi len l =
    (case shift_loop qi len l of (i, l') \<Rightarrow> if i \<le> SHOW_NUM - 1 then l'[i := qi] else l')"

section \<open>Writing the processes\<close>

text \<open>
  What the recursion changes besides the tree: the totals of the current sample, the list, the
  number of listed processes, the database history and the descriptors closed.
\<close>

record wstate =
  w_sys :: sys_info
  w_top :: "process_info list"
  w_idx :: int
  w_log :: db_log
  w_closed :: "int list"

record wparams =
  wp_db :: mysql
  wp_hz :: u32
  wp_tlmkb :: u32
  wp_screen :: bool
  wp_time :: c_long
  wp_itv :: u64

definition listed :: "process_info \<Rightarrow> bool" where
  "listed p \<longleftrightarrow> 0 < pi_cpu p \<or> pi_cpu_accesses p > 0 \<or> 0 < fadd f32 (pi_netrcv p) (pi_netsnd p)"

definition write_node ::
  "wparams \<Rightarrow> nat \<Rightarrow> int \<times> samples \<Rightarrow> wstate \<Rightarrow> ((int \<times> samples) \<times> wstate) res" where
  "write_node wp cur node s =
    (case node of (fd, p) \<Rightarrow>
     if fst p = None then Inr (node, s)
     else bindR (is_active (pst_get (1 - cur) p) (pst_get cur p)) (\<lambda>act.
       if act \<le> 0 then
         (let (fd', cl) = clear_position fd
          in Inr ((fd', p), s\<lparr>w_closed := w_closed s @ cl\<rparr>))
       else
         (case (pst_get cur p, pst_get (1 - cur) p) of
            (Some qi0, Some pj) \<Rightarrow>
              (let sy = (w_sys s)
                     \<lparr>si_totaldiskread := si_totaldiskread (w_sys s) +
                        ucast (subcount (ucast (read_bytes qi0)) (ucast (read_bytes pj))),
                      si_totaldiskwrite := si_totaldiskwrite (w_sys s) +
                        ucast (subcount (ucast (write_bytes qi0)) (ucast (write_bytes pj)) -
                               subcount (ucast (cancelled_write_bytes qi0)) (ucast (cancelled_write_bytes pj)))\<rparr>;
                   qi = no_jitter pj qi0;
                   rec = process_rates (wp_hz wp) (wp_tlmkb wp) (wp_time wp) (wp_itv wp) qi pj;
                   show_it = (wp_screen wp \<and> listed rec);
                   top = (if show_it then add_higher_process_info rec
                            (nat (if w_idx s \<ge> int SHOW_NUM then int SHOW_NUM else w_idx s)) (w_top s)
                          else w_top s);
                   idx = (if show_it then w_idx s + 1 else w_idx s)
               in bindR (insert_ps (wp_db wp) rec (w_log s)) (\<lambda>(rec', rc, tr').
                    Inr ((fd, pst_set cur (Some qi) p),
                         s\<lparr>w_sys := sy, w_top := top, w_idx := idx, w_log := tr'\<rparr>)))
          | _ \<Rightarrow> Inl (Undefined NullDeref))))"

fun write_stat :: "wparams \<Rightarrow> nat \<Rightarrow> avl \<Rightarrow> wstate \<Rightarrow> (avl \<times> wstate) res" where
  "write_stat wp cur NULL s = Inl (Undefined NullDeref)"
| "write_stat wp cur (AvlNode e f l r h p) s =
    bindR (write_node wp cur (f, p) s) (\<lambda>((f', p'), s1).
    bindR (if l = NULL then Inr (NULL, s1) else write_stat wp cur l s1) (\<lambda>(l', s2).
    bindR (if r = NULL then Inr (NULL, s2) else write_stat wp cur r s2) (\<lambda>(r', s3).
    Inr (AvlNode e f' l' r' h p', s3))))"

section \<open>Activity, abstractly\<close>

text \<open>The fields the comparison looks at.\<close>

definition same_sample :: "pid_stats \<Rightarrow> pid_stats \<Rightarrow> bool" where
  "same_sample a b \<longleftrightarrow>
    utime a = utime b \<and> stime a = stime b \<and> cutime a = cutime b \<and> cstime a = cstime b \<and>
    minflt a = minflt b \<and> majflt a = majflt b \<and> vsz a = vsz b \<and> rss a = rss b \<and>
    cminflt a = cminflt b \<and> cmajflt a = cmajflt b \<and> read_bytes a = read_bytes b \<and>
    write_bytes a = write_bytes b \<and> cancelled_write_bytes a = cancelled_write_bytes b \<and>
    nvcsw a = nvcsw b \<and> nivcsw a = nivcsw b"

lemma is_active_Some:
  "is_active (Some b) (Some a) = Inr (if pid a = 0 then 0 else if same_sample a b then - 1 else 1)"
proof -
  have merge: "(if A then x else if B then x else y) = (if A \<or> B then x else y)" for A B and x y :: "int res"
    by simp
  have ne: "(if A then x else y) = (if \<not> A then y else x)" for A and x y :: "int res"
    by simp
  show ?thesis
    unfolding is_active_def option.case merge same_sample_def
    by (subst (2) ne) (simp add: conj_ac if_distrib [of Inr] cong: if_cong split del: if_split)
qed

lemma same_sample_sym: "same_sample a b \<longleftrightarrow> same_sample b a"
  by (auto simp: same_sample_def)

lemma is_active_values: "is_active q p = Inr act \<Longrightarrow> act \<in> {0, - 1, 1}"
proof (cases p)
  case None
  then show "is_active q p = Inr act \<Longrightarrow> ?thesis" by (simp add: is_active_def)
next
  case (Some a)
  then show "is_active q p = Inr act \<Longrightarrow> ?thesis"
  proof (cases q)
    case None
    with Some show "is_active q p = Inr act \<Longrightarrow> ?thesis" by (simp add: is_active_def split: if_splits)
  next
    case (Some b)
    with \<open>p = Some a\<close> show "is_active q p = Inr act \<Longrightarrow> ?thesis"
      by (simp add: is_active_Some split: if_splits)
  qed
qed

section \<open>A pass over the processes\<close>

lemma foldR_map: "foldR f (map h xs) s = foldR (\<lambda>x. f (h x)) xs s"
  by (induction xs arbitrary: s) (auto intro: bindR_cong)

lemma visits_as_fold:
  "foldR (visit_pid ev kb pf cur) ps t =
    foldR (\<lambda>(x, g) t. visit find_contents (\<lambda>x. insert_avl (ev_malloc ev) x (- 1))
        (\<lambda>x v. update_at x (\<lambda>_. v)) x g t)
      (map (\<lambda>q. (sint q, read_into ev kb pf cur q)) ps) t"
proof -
  have "visit_pid ev kb pf cur = (\<lambda>q. visit find_contents (\<lambda>x. insert_avl (ev_malloc ev) x (- 1))
        (\<lambda>x v. update_at x (\<lambda>_. v)) (sint q) (read_into ev kb pf cur q))"
    by (intro ext) (simp add: visit_pid_def)
  then show ?thesis by (simp add: foldR_map)
qed

lemma read_process_stats_facts:
  assumes "avl_inv t" and "ev_dir ev = Some ds"
    and "read_process_stats ev kb pf cur sy t = Inr (sy', t')"
  shows "avl_inv t'" and "keys t' = keys t \<union> sint ` set (pids_of ds)"
    and "x \<notin> sint ` set (pids_of ds) \<Longrightarrow> lookup t' x = lookup t x"
proof -
  have run: "foldR (visit_pid ev kb pf cur) (pids_of ds) t = Inr t'"
    using assms(2,3) by (auto simp: read_process_stats_def bindR_eq_Inr)
  note r = run [unfolded visits_as_fold]
  from avl_table.visits_inv_dom [OF assms(1) r]
  show "avl_inv t'" and "keys t' = keys t \<union> sint ` set (pids_of ds)"
    by (simp_all add: dom_lookup [symmetric] image_image)
  show "lookup t' x = lookup t x" if "x \<notin> sint ` set (pids_of ds)"
    using avl_table.visits_other [OF assms(1) r, of x] that by (simp add: image_image)
qed

lemma read_process_stats_related:
  assumes "avl_inv t" and "read_process_stats ev kb pf cur sy t = Inr (sy', t')"
    and "\<And>q v v'. read_into ev kb pf cur q v = Inr v' \<Longrightarrow> R v v'" and "\<And>v. R v v"
    and "\<And>u v w. R u v \<Longrightarrow> R v w \<Longrightarrow> R u w" and "lookup t y = Some v"
  shows "\<exists>v'. lookup t' y = Some v' \<and> R v v'"
proof -
  obtain ds where run: "foldR (visit_pid ev kb pf cur) (pids_of ds) t = Inr t'"
    using assms(2) by (auto simp: read_process_stats_def bindR_eq_Inr split: option.splits)
  show ?thesis
    by (rule avl_table.visits_related [OF assms(1) run [unfolded visits_as_fold] _ assms(4) assms(5) assms(6)])
      (auto intro: assms(3))
qed

section \<open>Rates, abstractly\<close>

lemma f32_100: "fofint f32 100 = Fin 100" "fofint f64 100 = Fin 100"
  using f32_small [of 100] f64_small [of 100] by (simp_all add: fofint_def)

lemma u64f_fnn: "fnn f32 (u64f v)"
  unfolding u64f_def by (rule fofint_fnn [OF uint_ge_0]) simp

lemma fofint_pos:
  assumes "1 \<le> i" and "fl F 1 = Fin 1" and "fmt_ok F"
  shows "\<exists>x. (fofint F i = PInf \<or> fofint F i = Fin x) \<and> 1 \<le> x"
proof -
  have "fl F 1 \<le> fl F (of_int i)" using assms by (intro fl_mono) simp_all
  then show ?thesis using assms(2) unfolding fofint_def
    by (cases "fl F (of_int i)") (auto intro: exI [of _ 1])
qed

lemma fl_one: "fl f32 1 = Fin 1" "fl f64 1 = Fin 1"
  using f32_small [of 1] f64_small [of 1] by simp_all

text \<open>Division of a nonnegative number by a positive integer stays nonnegative and finite.\<close>

lemma fdiv_int_Fin:
  assumes "0 \<le> x" and "fl F x = Fin x" and "1 \<le> i" and "fl F 1 = Fin 1" and "fmt_ok F"
  shows "\<exists>y\<ge>0. fdiv F (Fin x) (fofint F i) = Fin y"
proof -
  obtain z where z: "fofint F i = PInf \<or> fofint F i = Fin z" "1 \<le> z"
    using fofint_pos [OF assms(3-5)] by blast
  have q: "0 \<le> x / z" "x / z \<le> x"
    using z(2) assms(1) by (simp_all add: divide_le_eq mult_le_cancel_left1)
  have "fl F (x / z) \<le> fl F x" using q assms(5) by (intro fl_mono)
  moreover have "Fin 0 \<le> fl F (x / z)"
    using fl_fnn [OF q(1) assms(5)] by (rule fnn_ge_zero)
  ultimately have "\<exists>y\<ge>0. fl F (x / z) = Fin y"
    using assms(2) by (cases "fl F (x / z)") auto
  then show ?thesis using z by auto
qed

text \<open>A 64-bit value as a float is finite.\<close>

lemma u64f_Fin: "\<exists>x\<ge>0. u64f v = Fin x"
proof -
  have "uint v < 2 ^ 64" using uint_lt2p [of v] by simp
  then have "(of_int (uint v) :: rat) \<le> of_int (2 ^ 64)" by (simp only: of_int_le_iff)
  then have "fl f32 (of_int (uint v)) \<le> fl f32 (of_int (2 ^ 64))"
    by (intro fl_mono) (simp_all del: of_int_uint)
  moreover have "fl f32 (of_int (2 ^ 64 * 2 ^ qexp f32) / 2 ^ qexp f32) = Fin (of_int (2 ^ 64 * 2 ^ qexp f32) / 2 ^ qexp f32)"
  proof (rule fl_exact)
    show "few_bits (prec f32) (2 ^ 64 * 2 ^ qexp f32)"
      unfolding few_bits_def
      by (intro exI [of _ 1] exI [of _ "64 + qexp f32"]) (simp add: power_add f32_def)
    show "2 ^ 64 * 2 ^ qexp f32 < (2 :: int) ^ (qexp f32 + etop f32)"
      by (simp add: f32_def)
  qed
  then have "fl f32 (of_int (2 ^ 64)) = Fin (of_int (2 ^ 64))" by simp
  ultimately have le: "u64f v \<le> Fin (of_int (2 ^ 64))" by (simp only: u64f_def fofint_def)
  have ge: "Fin 0 \<le> u64f v" using u64f_fnn by (rule fnn_ge_zero)
  show ?thesis by (cases "u64f v") (use le ge in auto)
qed

section \<open>Insertion into the list of the most active\<close>

lemma shift_insert:
  assumes "n \<le> 39" and "length l = 41"
  shows "\<exists>k l'. shift_loop it n l = (k, l') \<and> k \<le> n \<and> length l' = 41 \<and>
    l'[k := it] = take k l @ it # drop k (take n l) @ drop (Suc n) l \<and>
    (\<forall>x \<in> set (drop k (take n l)). pi_cpu x < pi_cpu it) \<and>
    (k = 0 \<or> \<not> pi_cpu (l ! (k - 1)) < pi_cpu it)"
  using assms
proof (induction n arbitrary: l)
  case 0
  then show ?case
    by (auto simp: upd_conv_take_nth_drop)
next
  case (Suc i)
  show ?case
  proof (cases "pi_cpu (l ! i) < pi_cpu it")
    case True
    let ?l = "l[Suc i := l ! i]"
    from Suc.IH [of ?l] Suc.prems obtain k l' where ih: "shift_loop it i ?l = (k, l')" "k \<le> i" "length l' = 41"
      "l'[k := it] = take k ?l @ it # drop k (take i ?l) @ drop (Suc i) ?l"
      "\<forall>x \<in> set (drop k (take i ?l)). pi_cpu x < pi_cpu it"
      "k = 0 \<or> \<not> pi_cpu (?l ! (k - 1)) < pi_cpu it" by auto
    have "drop (Suc i) ?l = l ! i # drop (Suc (Suc i)) l"
      using Suc.prems by (simp add: Cons_nth_drop_Suc [symmetric, of "Suc i" ?l])
    moreover have "drop k (take (Suc i) l) = drop k (take i l) @ [l ! i]"
      using Suc.prems ih(2) by (simp add: take_Suc_conv_app_nth)
    ultimately show ?thesis
      using True ih Suc.prems by (auto simp: SHOW_NUM_def intro!: exI [of _ k] exI [of _ l'])
  next
    case False
    then show ?thesis
      using Suc.prems by (auto simp: upd_conv_take_nth_drop intro!: exI [of _ "Suc i"])
  qed
qed

text \<open>The list is in order: its first \<open>n\<close> entries are sorted by decreasing CPU share, none is NaN.\<close>

definition top_ok :: "nat \<Rightarrow> process_info list \<Rightarrow> bool" where
  "top_ok n l \<longleftrightarrow> length l = 41 \<and> n \<le> 40 \<and> sorted_wrt (\<lambda>a b. pi_cpu b \<le> pi_cpu a) (take n l) \<and>
     (\<forall>a \<in> set (take n l). pi_cpu a \<noteq> NaN)"

lemma fp_le_total: "a \<noteq> NaN \<Longrightarrow> b \<noteq> NaN \<Longrightarrow> \<not> (a :: fp) < b \<Longrightarrow> b \<le> a"
  by (cases a; cases b) (auto simp: less_fp_def)

lemma fp_less_le: "(a :: fp) < b \<Longrightarrow> a \<le> b"
  by (simp add: less_fp_def)

lemma add_full: "length l = 41 \<Longrightarrow> add_higher_process_info it 40 l = l"
proof -
  have "shift_loop it (Suc i) l = (Suc i, l)" if "i = SHOW_NUM - 1" for i
    using that by simp
  from this [of 39] have "shift_loop it 40 l = (40, l)" by (simp add: SHOW_NUM_def)
  then show ?thesis by (simp add: add_higher_process_info_def SHOW_NUM_def)
qed

lemma add_splits:
  assumes "length l = 41" and "n < 40"
  obtains k where "k \<le> n"
    and "add_higher_process_info it n l = take k l @ it # drop k (take n l) @ drop (Suc n) l"
    and "\<forall>x \<in> set (drop k (take n l)). pi_cpu x < pi_cpu it"
    and "k = 0 \<or> \<not> pi_cpu (l ! (k - 1)) < pi_cpu it"
proof -
  have "n \<le> 39" using assms(2) by simp
  from shift_insert [OF this assms(1), of it] show ?thesis
  proof (elim exE conjE)
    fix k l'
    assume k: "shift_loop it n l = (k, l')" "k \<le> n"
      and l': "l'[k := it] = take k l @ it # drop k (take n l) @ drop (Suc n) l"
      and lo: "\<forall>x \<in> set (drop k (take n l)). pi_cpu x < pi_cpu it"
      and hi: "k = 0 \<or> \<not> pi_cpu (l ! (k - 1)) < pi_cpu it"
    have "k \<le> SHOW_NUM - 1" using k(2) assms(2) by (simp add: SHOW_NUM_def)
    then have "add_higher_process_info it n l = take k l @ it # drop k (take n l) @ drop (Suc n) l"
      using k(1) l' by (simp add: add_higher_process_info_def)
    then show ?thesis by (rule that [OF k(2) _ lo hi])
  qed
qed

lemma add_top_ok:
  assumes "top_ok n l" and "n < 40" and "pi_cpu it \<noteq> NaN"
  shows "top_ok (Suc n) (add_higher_process_info it n l)"
    and "mset (take (Suc n) (add_higher_process_info it n l)) = add_mset it (mset (take n l))"
proof -
  have len: "length l = 41" using assms(1) by (simp add: top_ok_def)
  obtain k where k: "k \<le> n"
    and eq: "add_higher_process_info it n l = take k l @ it # drop k (take n l) @ drop (Suc n) l"
    and lo: "\<forall>x \<in> set (drop k (take n l)). pi_cpu x < pi_cpu it"
    and hi: "k = 0 \<or> \<not> pi_cpu (l ! (k - 1)) < pi_cpu it"
    using add_splits [OF len assms(2)] .
  have split: "take n l = take k l @ drop k (take n l)"
    using k by (metis append_take_drop_id min.absorb1 take_take)
  have tk: "take (Suc n) (add_higher_process_info it n l) = take k l @ it # drop k (take n l)"
    using k len assms(2) by (simp add: eq Suc_diff_le)
  have sorted: "sorted_wrt (\<lambda>a b. pi_cpu b \<le> pi_cpu a) (take k l @ drop k (take n l))"
    using assms(1) split by (simp add: top_ok_def)
  have nn: "\<forall>a \<in> set (take k l @ drop k (take n l)). pi_cpu a \<noteq> NaN"
    using assms(1) split by (metis top_ok_def)
  have "pi_cpu it \<le> pi_cpu a" if a: "a \<in> set (take k l)" for a
  proof -
    obtain j where j: "k = Suc j" using a by (cases k) auto
    then have k0: "k \<noteq> 0" by simp
    have "j < length l" using j k len assms(2) by simp
    then have last: "take k l = take (k - 1) l @ [l ! (k - 1)]"
      by (simp add: j take_Suc_conv_app_nth)
    have "pi_cpu (l ! (k - 1)) \<noteq> NaN" using nn last by auto
    then have "pi_cpu it \<le> pi_cpu (l ! (k - 1))"
      using hi k0 assms(3) fp_le_total by blast
    moreover have "pi_cpu (l ! (k - 1)) \<le> pi_cpu a"
      using a sorted nn fp_le_refl unfolding last by (auto simp: sorted_wrt_append)
    ultimately show ?thesis by (rule fp_le_trans)
  qed
  then have "sorted_wrt (\<lambda>a b. pi_cpu b \<le> pi_cpu a) (take k l @ it # drop k (take n l))"
    using sorted lo fp_less_le by (auto simp: sorted_wrt_append)
  then show "top_ok (Suc n) (add_higher_process_info it n l)"
    using assms nn k len eq tk by (auto simp: top_ok_def)
  show "mset (take (Suc n) (add_higher_process_info it n l)) = add_mset it (mset (take n l))"
    unfolding tk by (subst (2) split) simp
qed

section \<open>The writing pass and the tree\<close>

definition open_fds :: "avl \<Rightarrow> int multiset" where
  "open_fds t = mset (filter (\<lambda>f. f > 0) (map (fst \<circ> snd) (entries t)))"

lemma write_node_closed:
  assumes "write_node wp cur (fd, p) s = Inr ((fd', p'), s')"
  shows "\<exists>cl. w_closed s' = w_closed s @ cl \<and>
    mset (filter (\<lambda>f. f > 0) [fd']) + mset cl = mset (filter (\<lambda>f. f > 0) [fd])"
  using assms
  by (auto simp: write_node_def clear_position_def Let_def bindR_eq_Inr split: if_splits option.splits prod.splits)

lemma write_stat_shape:
  "write_stat wp cur t s = Inr (t', s') \<Longrightarrow>
    keys t' = keys t \<and> ht t' = ht t \<and> (ordered t \<longrightarrow> ordered t') \<and> (balanced t \<longrightarrow> balanced t') \<and>
    (\<exists>cl. w_closed s' = w_closed s @ cl \<and> open_fds t' + mset cl = open_fds t)"
proof (induction wp cur t s arbitrary: t' s' rule: write_stat.induct)
  case (1 wp cur s)
  then show ?case by simp
next
  case (2 wp cur e f l r h p s)
  from "2.prems" obtain f' p' s1 l' s2 r' where
    1: "write_node wp cur (f, p) s = Inr ((f', p'), s1)"
    and l: "(if l = NULL then Inr (NULL, s1) else write_stat wp cur l s1) = Inr (l', s2)"
    and r: "(if r = NULL then Inr (NULL, s2) else write_stat wp cur r s2) = Inr (r', s')"
    and t': "t' = AvlNode e f' l' r' h p'"
    by (auto simp: bindR_eq_Inr)
  obtain c1 where c1: "w_closed s1 = w_closed s @ c1"
    "mset (filter (\<lambda>f. f > 0) [f']) + mset c1 = mset (filter (\<lambda>f. f > 0) [f])"
    using write_node_closed [OF 1] by blast
  have L: "keys l' = keys l \<and> ht l' = ht l \<and> (ordered l \<longrightarrow> ordered l') \<and> (balanced l \<longrightarrow> balanced l') \<and>
    (\<exists>cl. w_closed s2 = w_closed s1 @ cl \<and> open_fds l' + mset cl = open_fds l)"
  proof (cases "l = NULL")
    case True
    then show ?thesis using l by (auto simp: open_fds_def)
  next
    case False
    then show ?thesis using "2.IH"(1) [OF False] l by simp
  qed
  have R: "keys r' = keys r \<and> ht r' = ht r \<and> (ordered r \<longrightarrow> ordered r') \<and> (balanced r \<longrightarrow> balanced r') \<and>
    (\<exists>cl. w_closed s' = w_closed s2 @ cl \<and> open_fds r' + mset cl = open_fds r)"
  proof (cases "r = NULL")
    case True
    then show ?thesis using r by (auto simp: open_fds_def)
  next
    case False
    then show ?thesis using "2.IH"(2) [OF False] r by simp
  qed
  obtain cl cr where cl: "w_closed s2 = w_closed s1 @ cl" "open_fds l' + mset cl = open_fds l"
    and cr: "w_closed s' = w_closed s2 @ cr" "open_fds r' + mset cr = open_fds r"
    using L R by blast
  have o: "open_fds (AvlNode e f l r h p) = open_fds l + open_fds r + mset (filter (\<lambda>f. f > 0) [f])"
    for e f l r h p by (simp add: open_fds_def)
  have "open_fds t' + mset (c1 @ cl @ cr) = open_fds (AvlNode e f l r h p)"
    unfolding t' o cl(2) [symmetric] cr(2) [symmetric] c1(2) [symmetric] by simp
  moreover have "w_closed s' = w_closed s @ (c1 @ cl @ cr)"
    using c1(1) cl(1) cr(1) by simp
  ultimately show ?case using L R t' by auto
qed

section \<open>Rates of a process\<close>

lemma per_tick_Fin:
  assumes "itv \<noteq> 0"
  shows "\<exists>y\<ge>0. fdiv f32 (Fin 100) (u64f itv) = Fin y"
proof -
  have "1 \<le> uint itv"
  proof -
    have "uint itv \<noteq> 0" using assms by (simp add: uint_0_iff)
    then show ?thesis using uint_ge_0 [of itv] by linarith
  qed
  then show ?thesis
    using fdiv_int_Fin [of 100 f32 "uint itv"] f32_small [of 100] fl_one by (simp add: u64f_def)
qed

lemma share_fnn: "itv \<noteq> 0 \<Longrightarrow> fnn f32 (fmul f32 (u64f v) (fdiv f32 (Fin 100) (u64f itv)))"
  using per_tick_Fin [of itv] u64f_Fin [of v] fmul_fnn [of _ _ f32] by fastforce

lemma f64_word: "\<exists>x\<ge>0. fofint f64 (uint (w :: u32)) = Fin x \<and> fl f64 x = Fin x"
proof -
  have "uint w < 2 ^ 53" using uint_lt2p [of w] by simp
  then have "fl f64 (of_int (uint w)) = Fin (of_int (uint w))"
    using fl_exact_int [of "uint w" f64] uint_ge_0 [of w] by (simp add: f64_def del: of_int_uint)
  then show ?thesis unfolding fofint_def
    by (intro exI [of _ "of_int (uint w)"]) (simp del: of_int_uint)
qed

lemma S_VALUE_fnn:
  assumes "p \<noteq> 0"
  shows "fnn f32 (S_VALUE hz m n p)"
proof -
  obtain x where x: "0 \<le> x" "fofint f64 (uint (n - m)) = Fin x" "fl f64 x = Fin x"
    using f64_word by blast
  obtain z where z: "0 \<le> z" "fofint f64 (uint hz) = Fin z" using f64_word by blast
  have "uint p \<noteq> 0" using assms by (simp add: uint_0_iff)
  then have "1 \<le> uint p" using uint_ge_0 [of p] by linarith
  from fdiv_int_Fin [OF x(1,3) this fl_one(2)] obtain y where
    y: "0 \<le> y" "fdiv f64 (Fin x) (fofint f64 (uint p)) = Fin y" by auto
  have "Fin 0 \<le> fmul f64 (Fin y) (Fin z)"
    by (rule fnn_ge_zero [of f64], rule fmul_fnn) (use y z in simp_all)
  then show ?thesis
    unfolding S_VALUE_def x(2) y(2) z(2) by (intro fcast_fnn) simp_all
qed

lemma insert_ps_session:
  "insert_ps db q tr = Inr (q', rc, tr') \<Longrightarrow> inits tr' = inits tr + 1"
  using db_ps.session [of db q tr rc tr'] by (auto split: if_splits)

lemma no_jitter_simps [simp]:
  "pid (no_jitter b a) = pid a" "minflt (no_jitter b a) = minflt a"
  by (simp_all add: no_jitter_def Let_def)

text \<open>Without a connection nothing is printed, so nothing can fail.\<close>

lemma write_node_offline:
  assumes "\<And>l. \<not> mysql_real_connect (wp_db wp) l"
  shows "\<exists>n' s'. write_node wp cur (f, Some a, Some b) s = Inr (n', s')"
proof -
  obtain qi pj where q: "pst_get cur (Some a, Some b) = Some qi" "pst_get (1 - cur) (Some a, Some b) = Some pj"
    by (cases "cur = 0") (simp_all add: pst_get_def)
  obtain act where "is_active (Some pj) (Some qi) = Inr act" by (simp add: is_active_Some)
  then show ?thesis
    using assms q by (simp add: write_node_def insert_ps_def create_conn_def clear_position_def Let_def)
qed

section \<open>Properties\<close>

text \<open>C13: a pass over \<^verbatim>\<open>/proc\<close> that comes back leaves a balanced search tree that holds exactly the
  processes it held before and the listed ones, and does not touch the node of a process that is
  not listed; nodes are never removed.\<close>

theorem read_pass_tree:
  assumes "avl_inv t" and "ev_dir ev = Some ds"
    and "read_process_stats ev kb pf cur sy t = Inr (sy', t')"
  shows "avl_inv t' \<and> keys t' = keys t \<union> sint ` set (pids_of ds) \<and>
    (x \<notin> sint ` set (pids_of ds) \<longrightarrow> lookup t' x = lookup t x)"
  using read_process_stats_facts [OF assms] by blast

theorem read_pass_tree_witness:
  "\<exists>ev sy'. read_process_stats ev 2 perf0 0 zero_sys_info NULL = Inr (sy', NULL) \<and> avl_inv NULL"
proof -
  let ?ev = "\<lparr>ev_dir = Some [''self''], ev_cpu = Some ''cpu  1 2 3'', ev_stat1 = \<lambda>_. None, ev_stat2 = \<lambda>_. None,
    ev_status = \<lambda>_. None, ev_io = \<lambda>_. None, ev_smaps = \<lambda>_. None, ev_meminfo = \<lambda>_. None, ev_malloc = \<lambda>_. True,
    ev_popen = \<lambda>_ _ _ _. 0, ev_read = \<lambda>_ _. (0, \<lambda>_. 0), ev_comm0 = [], ev_line = [], ev_stmaps = zero_smaps\<rparr>"
  obtain b r where "fgets 1024 ''cpu  1 2 3'' [] = Some (b, r)"
    by (cases "fgets_chunk 1023 ''cpu  1 2 3''") (simp add: fgets_def)
  then obtain sy' where run: "read_process_stats ?ev 2 perf0 0 zero_sys_info NULL = Inr (sy', NULL)"
    by (simp add: read_process_stats_def read_stat_cpu_def pids_of_def isdigit_def Let_def)
  have "avl_inv NULL" by (simp add: avl_inv_def)
  from read_pass_tree [OF this _ run, of "[''self'']"] run show ?thesis by auto
qed



text \<open>The list of the most active processes: as long as it has room, adding a process keeps it
  sorted by CPU share and adds exactly that process; once 40 processes are in it, a further one is
  dropped even when it is the most active of all.\<close>

lemma top_list_insertion:
  assumes "top_ok n l" and "n < 40" and "pi_cpu it \<noteq> NaN" and "length l' = 41"
  shows "top_ok (Suc n) (add_higher_process_info it n l) \<and>
    mset (take (Suc n) (add_higher_process_info it n l)) = add_mset it (mset (take n l)) \<and>
    add_higher_process_info it 40 l' = l'"
  using add_top_ok [OF assms(1-3)] add_full [OF assms(4)] by simp

text \<open>Writing the statistics changes no key and no balance of the tree, and accounts for every
  performance counter: each open descriptor is afterwards either still open in its node or has
  been closed once, never both.\<close>

lemma write_pass_tree:
  assumes "avl_inv t" and "write_stat wp cur t s = Inr (t', s')"
  shows "avl_inv t' \<and> keys t' = keys t \<and>
    (\<exists>cl. w_closed s' = w_closed s @ cl \<and> open_fds t' + mset cl = open_fds t)"
  using write_stat_shape [OF assms(2)] assms(1) by (auto simp: avl_inv_def)

text \<open>C25: the rates of a process: over a nonempty interval every rate per tick is a nonnegative
  number, whatever the counters, but the user time reported is always zero when the guest time
  does not grow, since the code subtracts the new value from itself; over an empty interval the
  CPU share is not a number, or infinite.\<close>

theorem process_rates_sane:
  assumes "itv \<noteq> 0" and "r = process_rates hz tlm time itv qi qj"
  shows "fnn f32 (pi_cpu r) \<and> fnn f32 (pi_utime r) \<and> fnn f32 (pi_stime r) \<and> fnn f32 (pi_gtime r) \<and>
    fnn f32 (pi_minflt r) \<and> fnn f32 (pi_majflt r) \<and> fnn f32 (pi_cswch r) \<and> fnn f32 (pi_nvcswch r) \<and>
    (gtime qi = gtime qj \<longrightarrow> pi_utime r = 0) \<and>
    pi_cpu (process_rates hz tlm time 0 qi qj) \<in> {NaN, PInf}"
proof -
  have z: "u64f 0 = Fin 0" by (simp add: u64f_def fofint_def)
  obtain y where "fdiv f32 (Fin 100) (u64f itv) = Fin y" using per_tick_Fin [OF assms(1)] by blast
  then have "fmul f32 (u64f 0) (fdiv f32 (Fin 100) (u64f itv)) = 0" by (simp add: z zero_fp_def)
  moreover have "fmul f32 (u64f v) (fdiv f32 (Fin 100) (u64f 0)) \<in> {NaN, PInf}" for v
    using u64f_Fin [of v] by (auto simp: z finf_def split: if_splits)
  moreover have "u64_subcount x x = 0" for x by (rule u64c.sub_self)
  ultimately show ?thesis
    unfolding assms(2) process_rates_def Let_def
    using share_fnn [OF assms(1)] S_VALUE_fnn [OF assms(1)] by simp
qed

theorem process_rates_sane_witness:
  "pi_utime (process_rates 100 0 5 30 (zero_pid_stats\<lparr>utime := 12\<rparr>) zero_pid_stats) = 0"
  using process_rates_sane [of 30 _ 100 0 5 "zero_pid_stats\<lparr>utime := 12\<rparr>" zero_pid_stats]
  by (simp add: zero_pid_stats_def)

end
