(* ===== verification/Energy.thy ===== *)
theory Energy
  imports Sampling
begin

text \<open>
  \<^verbatim>\<open>energy.c\<close>: the energy of a process and of the system, computed from rows of the database.  The
  rows a query returns are a parameter, a list of columns each (None for SQL NULL), depending on the
  history of calls; the constants and every operation keep their C type, \<^verbatim>\<open>float\<close> or \<^verbatim>\<open>double\<close>.
\<close>

section \<open>Constants\<close>

definition dbl :: "rat \<Rightarrow> fp" where "dbl x = fl f64 x"

definition MEMORY_POWER :: fp where "MEMORY_POWER = dbl (2016/1000)"
definition L2CACHE_MISS_LATENCY :: fp where "L2CACHE_MISS_LATENCY = dbl (598/10)"
definition L2CACHE_LINE_SIZE :: int where "L2CACHE_LINE_SIZE = 128"
definition EDISKRPERKB :: fp where "EDISKRPERKB = fmul f64 (dbl (2/100000)) (dbl (278/100))"
definition EDISKWPERKB :: fp where "EDISKWPERKB = fmul f64 (dbl (2/100000)) (dbl (219/100))"
definition ENETSNDPERKB :: fp where
  "ENETSNDPERKB = fdiv f64 (dbl (18/10)) (fmul f64 (dbl 1024) (dbl (1233/100)))"
definition ENETRCVPERKB :: fp where
  "ENETRCVPERKB = fdiv f64 (dbl (14/10)) (fmul f64 (dbl 1024) (dbl (5665/1000)))"

section \<open>Battery\<close>

definition getEBattery :: "string option \<Rightarrow> c_long res" where
  "getEBattery energy_now =
    (case energy_now of None \<Rightarrow> Inr (- 1)
     | Some f \<Rightarrow> (case scan_int Signed f of None \<Rightarrow> Inl (Undefined Uninitialised) | Some (e, r) \<Rightarrow> Inr e))"

section \<open>Queries\<close>

type_synonym row = "string option list"
type_synonym fetch = "db_log \<Rightarrow> row list"

definition col :: "row \<Rightarrow> nat \<Rightarrow> string res" where
  "col r i = (case r ! i of None \<Rightarrow> Inl (Undefined NullDeref) | Some s \<Rightarrow> Inr s)"

definition ENERGY_QUERY_SIZE :: nat where "ENERGY_QUERY_SIZE = 500"

text \<open>
  The body the functions share: connect, send, add up the rows, close; the value so far (zero) is
  returned when the connection or the query fails.
\<close>

definition select :: "mysql \<Rightarrow> fetch \<Rightarrow> string \<Rightarrow> (row \<Rightarrow> 'a \<Rightarrow> 'a res) \<Rightarrow> 'a \<Rightarrow> db_log \<Rightarrow> ('a \<times> db_log) res" where
  "select db fetch query step zero tr =
    (let (result, conn, tr1) = create_conn db tr
     in if result = 0 then Inr (zero, tr1)
        else if length query \<ge> ENERGY_QUERY_SIZE then Inl (Undefined OutOfBounds)
        else (let rc = mysql_real_query db tr1 query; tr2 = tr1 @ [Query conn query rc]
              in if rc \<noteq> 0 then Inr (zero, tr2 @ [Close conn])
                 else bindR (foldR step (fetch tr2) zero) (\<lambda>v. Inr (v, tr2 @ [Close conn]))))"

text \<open>\<open>e += x\<close> for a float \<open>e\<close> and a double \<open>x\<close>.\<close>

definition add_double :: "fp \<Rightarrow> fp \<Rightarrow> fp" where
  "add_double e x = fcast f32 (fadd f64 (fcast f64 e) x)"

definition flt :: "string \<Rightarrow> fp" where "flt s = fcast f32 (atof s)"

definition period :: "c_int \<Rightarrow> c_long \<Rightarrow> string" where
  "period len now = '' and p.time>('' @ show_signed (now - scast len) @ '') and p.time <='' @ show_signed now"

definition period0 :: "c_int \<Rightarrow> c_long \<Rightarrow> string" where
  "period0 len now = '' and time>('' @ show_signed (now - scast len) @ '') and time <='' @ show_signed now"

section \<open>Energy of a process\<close>

definition cpu_step :: "row \<Rightarrow> fp \<Rightarrow> fp res" where
  "cpu_step r e =
    bindR (col r 0) (\<lambda>c0. bindR (col r 1) (\<lambda>c1. bindR (col r 2) (\<lambda>c2. bindR (col r 3) (\<lambda>c3. bindR (col r 4) (\<lambda>c4.
      let cpu = flt c0; power = flt c1; itv = atoi c2; runtime = atoi c3;
          run_percent = fdiv f32 (fmul f32 (fofint f32 (uint runtime)) (Fin 1)) (fofint f32 (uint itv))
      in Inr (fadd f32 e (fdiv f32 (fmul f32 (fmul f32 cpu power) run_percent) (fofint f32 100))))))))"

definition CPUEnergy :: "mysql \<Rightarrow> fetch \<Rightarrow> c_int \<Rightarrow> c_int \<Rightarrow> c_long \<Rightarrow> db_log \<Rightarrow> (fp \<times> db_log) res" where
  "CPUEnergy db fetch PID len now =
    select db fetch
      (''SELECT p.cpu, s.cpupower, s.itv, s.runtime, s.apnum FROM process_info p, sys_info s WHERE p.time = s.time and p.pid='' @
       show_signed PID @ period len now) cpu_step 0"

definition DsplyEnergy :: "c_int \<Rightarrow> c_int \<Rightarrow> c_long \<Rightarrow> fp" where
  "DsplyEnergy PID len now = 0"

definition net_step :: "row \<Rightarrow> fp \<Rightarrow> fp res" where
  "net_step r e =
    bindR (col r 0) (\<lambda>c0. bindR (col r 1) (\<lambda>c1.
      Inr (add_double e
        (fadd f64 (fdiv f64 (fmul f64 (fcast f64 (flt c0)) ENETSNDPERKB) (dbl 1024))
                  (fdiv f64 (fmul f64 (fcast f64 (flt c1)) ENETRCVPERKB) (dbl 1024))))))"

definition NtwkEnergy :: "mysql \<Rightarrow> fetch \<Rightarrow> c_int \<Rightarrow> c_int \<Rightarrow> c_long \<Rightarrow> db_log \<Rightarrow> (fp \<times> db_log) res" where
  "NtwkEnergy db fetch PID len now =
    select db fetch (''SELECT netsnd, netrcv FROM process_info WHERE pid='' @ show_signed PID @ period0 len now)
      net_step 0"

definition disk_energy :: "u64 \<Rightarrow> u64 \<Rightarrow> fp" where
  "disk_energy rd wr =
    fadd f64 (fmul f64 (fofint f64 (uint (rd div 1024))) EDISKRPERKB)
             (fmul f64 (fofint f64 (uint (wr div 1024))) EDISKWPERKB)"

definition disk_step :: "row \<Rightarrow> fp \<Rightarrow> fp res" where
  "disk_step r e =
    bindR (col r 0) (\<lambda>c0. bindR (col r 1) (\<lambda>c1.
      let rKB = atol c0; wKB = atol c1 in Inr (add_double e (disk_energy rKB wKB))))"

definition DiskEnergy :: "mysql \<Rightarrow> fetch \<Rightarrow> c_int \<Rightarrow> c_int \<Rightarrow> c_long \<Rightarrow> db_log \<Rightarrow> (fp \<times> db_log) res" where
  "DiskEnergy db fetch PID len now =
    select db fetch
      (''SELECT read_bytes, write_bytes - cancelled_write_bytes FROM process_info WHERE pid='' @ show_signed PID @
       '' and time>('' @ show_signed (now - scast len) @ '') and time<= '' @ show_signed now)
      disk_step 0"

text \<open>\<open>x * L2CACHE_MISS_LATENCY * MEMORY_POWER / 1000000000\<close>.\<close>

definition miss_energy :: "fp \<Rightarrow> fp" where
  "miss_energy x = fdiv f64 (fmul f64 (fmul f64 x L2CACHE_MISS_LATENCY) MEMORY_POWER) (dbl 1000000000)"

definition mem_step :: "row \<Rightarrow> fp \<Rightarrow> fp res" where
  "mem_step r e =
    bindR (col r 0) (\<lambda>c0. bindR (col r 1) (\<lambda>c1. bindR (col r 2) (\<lambda>c2. bindR (col r 3) (\<lambda>c3.
      let dma_rbytes = flt c1; dma_wbytes = flt c2; accesses = atol c3;
          lines = fadd f32 (fdiv f32 dma_rbytes (fofint f32 L2CACHE_LINE_SIZE))
                           (fdiv f32 dma_wbytes (fofint f32 L2CACHE_LINE_SIZE))
      in Inr (add_double e (fadd f64 (miss_energy (fcast f64 lines)) (miss_energy (fofint f64 (sint accesses)))))))))"

definition MemoryEnergy ::
  "mysql \<Rightarrow> fetch \<Rightarrow> c_int \<Rightarrow> c_int \<Rightarrow> c_int \<Rightarrow> c_long \<Rightarrow> db_log \<Rightarrow> (fp \<times> db_log) res" where
  "MemoryEnergy db fetch PID len interval now =
    select db fetch
      (''SELECT ratio, read_bytes,write_bytes - cancelled_write_bytes, cpu_accesses FROM process_info WHERE pid='' @
       show_signed PID @ period0 len now) mem_step 0"

section \<open>Energy of the system\<close>

definition sys_step :: "row \<Rightarrow> device_energy \<Rightarrow> device_energy res" where
  "sys_step r pe =
    bindR (col r 0) (\<lambda>c0. bindR (col r 1) (\<lambda>c1. bindR (col r 2) (\<lambda>c2. bindR (col r 3) (\<lambda>c3.
    bindR (col r 4) (\<lambda>c4. bindR (col r 5) (\<lambda>c5. bindR (col r 6) (\<lambda>c6.
      let totalnetsnd = atol c0; totalnetrcv = atol c1; totaldiskread = atol c2; totaldiskwrite = atol c3;
          cpupower = flt c4; memaccess = atol c5;
          emem = fcast f32 (fadd f64
            (miss_energy (fofint f64 (uint (totaldiskread div 128 + totaldiskwrite div 128))))
            (miss_energy (fofint f64 (uint memaccess))));
          edisk = fcast f32 (disk_energy totaldiskread totaldiskwrite);
          enet = fcast f32 (fadd f64
            (fdiv f64 (fmul f64 (fofint f64 (uint totalnetsnd)) ENETSNDPERKB) (dbl 1024))
            (fdiv f64 (fmul f64 (fofint f64 (uint totalnetrcv)) ENETRCVPERKB) (dbl 1024)))
      in Inr (pe\<lparr>de_ecpu := fadd f32 (de_ecpu pe) cpupower, de_emem := fadd f32 (de_emem pe) emem,
                 de_edisk := fadd f32 (de_edisk pe) edisk, de_enet := fadd f32 (de_enet pe) enet\<rparr>))))))))"

text \<open>
  The \<^verbatim>\<open>memset\<close> clears \<^verbatim>\<open>sizeof(struct process_energy)\<close> bytes at \<open>pe\<close>; \<open>room\<close> is the number of bytes of
  the object \<open>pe\<close> points to.
\<close>

definition systemEnergy ::
  "mysql \<Rightarrow> fetch \<Rightarrow> c_int \<Rightarrow> c_long \<Rightarrow> nat \<Rightarrow> db_log \<Rightarrow> (device_energy \<times> db_log) res" where
  "systemEnergy db fetch len now room tr =
    (if room < PROCESS_ENERGY_SIZE then Inl (Undefined OutOfBounds)
     else select db fetch
       (''SELECT s.netsend, s.netrcv, s.diskread, s.diskwrite, s.cpupower, s.memaccess, s.itv FROM sys_info s WHERE s.time>('' @
        show_signed (now - scast len) @ '') and s.time <='' @ show_signed now @ '' '')
       sys_step zero_device_energy tr)"

section \<open>Adding up rows\<close>

lemma nn64:
  "Fin 0 \<le> x \<Longrightarrow> 0 < c \<Longrightarrow> Fin 0 \<le> fmul f64 x (Fin c)"
  "Fin 0 \<le> x \<Longrightarrow> 0 < c \<Longrightarrow> Fin 0 \<le> fdiv f64 x (Fin c)"
  "Fin 0 \<le> x \<Longrightarrow> Fin 0 \<le> y \<Longrightarrow> Fin 0 \<le> fadd f64 x y"
  "0 \<le> i \<Longrightarrow> Fin 0 \<le> fofint f64 i"
  by (rule fnn_ge_zero [of f64]; intro fmul_pos_fnn' fdiv_fnn fadd_fnn fofint_fnn; simp)+

lemma add_double_mono:
  assumes "fnn f32 e" and "Fin 0 \<le> x"
  shows "fnn f32 (add_double e x)" and "e \<le> add_double e x"
proof -
  have e0: "Fin 0 \<le> e" using assms(1) by (rule fnn_ge_zero)
  have e64: "fnn f64 e" using assms(1) by (rule fnn_f32_f64)
  then have c: "fcast f64 e = e" by (cases e) (auto simp: fnn_fl_id)
  have "fnn f64 (fadd f64 e x)" using e0 assms(2) by (rule fadd_fnn) simp
  then have s0: "Fin 0 \<le> fadd f64 e x" by (rule fnn_ge_zero)
  then show "fnn f32 (add_double e x)" unfolding add_double_def c by (rule fcast_fnn) simp
  have le: "e \<le> fadd f64 e x" using e64 assms(2) by (rule fadd_ge_left) simp
  show "e \<le> add_double e x"
  proof (cases e)
    case (Fin a)
    show ?thesis
    proof (cases "fadd f64 e x")
      case (Fin b)
      have "fl f32 a \<le> fl f32 b"
        using e0 le \<open>e = Fin a\<close> Fin by (intro fl_mono) simp_all
      moreover have "add_double e x = fl f32 b" by (simp add: add_double_def c Fin)
      moreover have "fl f32 a = e" using assms(1) \<open>e = Fin a\<close> by (simp add: fnn_fl_id)
      ultimately show ?thesis by simp
    qed (use s0 c \<open>e = Fin a\<close> in \<open>auto simp: add_double_def\<close>)
  qed (use assms in \<open>auto simp: add_double_def fnn_def fp_zero_le\<close>)
qed

text \<open>
  What the four process energies share: a row whose columns are nonnegative numbers never makes
  the energy smaller and never makes it NaN.
\<close>

locale row_energy =
  fixes step :: "row \<Rightarrow> fp \<Rightarrow> fp res" and good :: "row \<Rightarrow> bool"
  assumes step_up: "good r \<Longrightarrow> fnn f32 e \<Longrightarrow> \<exists>e'. step r e = Inr e' \<and> fnn f32 e' \<and> e \<le> e'"
begin

lemma rows_up:
  assumes "\<And>r. r \<in> set rs \<Longrightarrow> good r" and "fnn f32 e"
  shows "\<exists>e'. foldR step rs e = Inr e' \<and> fnn f32 e' \<and> e \<le> e'"
  using assms
proof (induction rs arbitrary: e)
  case Nil
  have "e \<noteq> NaN" using Nil(2) by (auto simp: fnn_def)
  then show ?case using Nil by (simp add: fp_le_refl)
next
  case (Cons r rs)
  obtain e1 where e1: "step r e = Inr e1" "fnn f32 e1" "e \<le> e1"
    using step_up [of r e] Cons.prems by auto
  obtain e2 where "foldR step rs e1 = Inr e2" "fnn f32 e2" "e1 \<le> e2"
    using Cons.IH [OF _ e1(2)] Cons.prems(1) by auto
  then show ?case using e1 fp_le_trans by fastforce
qed

text \<open>A longer period has at least the energy of a shorter one that it starts with.\<close>

lemma rows_longer:
  assumes "\<And>r. r \<in> set (rs @ qs) \<Longrightarrow> good r"
  shows "\<exists>a b. foldR step rs 0 = Inr a \<and> foldR step (rs @ qs) 0 = Inr b \<and> fnn f32 a \<and> a \<le> b"
proof -
  have z: "fnn f32 0" by (simp add: zero_fp_def)
  obtain a where a: "foldR step rs 0 = Inr a" "fnn f32 a"
    using rows_up [OF _ z, of rs] assms by auto
  obtain b where "foldR step qs a = Inr b" "a \<le> b"
    using rows_up [OF _ a(2), of qs] assms by auto
  then show ?thesis using a by (simp add: foldR_append)
qed

lemma select_up:
  assumes "\<And>r tr. r \<in> set (fetch tr) \<Longrightarrow> good r" and "select db fetch query step 0 tr = Inr (e, tr')"
  shows "fnn f32 e"
proof -
  have z: "fnn f32 0" by (simp add: zero_fp_def)
  have "\<exists>e'. foldR step (fetch l) 0 = Inr e' \<and> fnn f32 e' \<and> 0 \<le> e'" for l
    by (rule rows_up [OF _ z]) (rule assms(1))
  then have "fnn f32 e" if "foldR step (fetch l) 0 = Inr e" for l
    using that by (metis sum.inject(2))
  then show ?thesis
    using assms(2) z by (auto simp: select_def Let_def bindR_eq_Inr split: if_splits prod.splits)
qed

end

section \<open>Constants are positive\<close>

lemma dbl_between:
  assumes "0 \<le> i" "i < 2 ^ 53" "0 \<le> j" "j < 2 ^ 53" "of_int i / 2 ^ s \<le> x" "x \<le> of_int j" "s \<le> 1000"
  obtains w where "fl f64 x = Fin w" "of_int i / 2 ^ s \<le> w" "w \<le> of_int j"
proof -
  have lo: "fl f64 (of_int i / 2 ^ s) = Fin (of_int i / 2 ^ s)"
    using assms by (intro fl_exact_dyadic) (simp_all add: f64_def)
  have hi: "fl f64 (of_int j) = Fin (of_int j)"
    using assms by (intro fl_exact_int) (simp_all add: f64_def)
  have "0 \<le> (of_int i / 2 ^ s :: rat)" using assms(1) by simp
  then show ?thesis using fl_between [OF _ assms(5,6) _ lo hi] that by auto
qed

lemma disk_consts: "\<exists>c>0. EDISKRPERKB = Fin c" "\<exists>c>0. EDISKWPERKB = Fin c"
proof -
  obtain a where a: "dbl (2/100000) = Fin a" "1 / 2 ^ 16 \<le> a" "a \<le> 1"
    using dbl_between [of 1 1 16 "2/100000"] by (auto simp: dbl_def)
  have k: "\<exists>c>0. fl f64 (a * b) = Fin c" if "2 \<le> b" "b \<le> 3" for b
  proof -
    have "1 / 2 ^ 16 * 2 \<le> a * b" using a that by (intro mult_mono) simp_all
    moreover have "a * b \<le> 1 * 3" using a that by (intro mult_mono) simp_all
    ultimately show ?thesis using dbl_between [of 1 3 15 "a * b"] by fastforce
  qed
  obtain b where b: "dbl (278/100) = Fin b" "2 \<le> b" "b \<le> 3"
    using dbl_between [of 2 3 0 "278/100"] by (auto simp: dbl_def)
  obtain b' where b': "dbl (219/100) = Fin b'" "2 \<le> b'" "b' \<le> 3"
    using dbl_between [of 2 3 0 "219/100"] by (auto simp: dbl_def)
  show "\<exists>c>0. EDISKRPERKB = Fin c" unfolding EDISKRPERKB_def a(1) b(1) using k [OF b(2,3)] by simp
  show "\<exists>c>0. EDISKWPERKB = Fin c" unfolding EDISKWPERKB_def a(1) b'(1) using k [OF b'(2,3)] by simp
qed

lemma dbl_int: "0 \<le> i \<Longrightarrow> i < 2 ^ 53 \<Longrightarrow> dbl (of_int i) = Fin (of_int i)"
  unfolding dbl_def by (intro fl_exact_int) (simp_all add: f64_def)

lemma net_const:
  assumes "1 \<le> x" "x \<le> 2" "1 \<le> y" "y \<le> 13"
  shows "\<exists>c>0. fdiv f64 (dbl x) (fmul f64 (dbl 1024) (dbl y)) = Fin c"
proof -
  obtain a where a: "dbl x = Fin a" "1 \<le> a" "a \<le> 2"
    using dbl_between [of 1 2 0 x] assms by (auto simp: dbl_def)
  obtain b where b: "dbl y = Fin b" "1 \<le> b" "b \<le> 13"
    using dbl_between [of 1 13 0 y] assms by (auto simp: dbl_def)
  obtain d where d: "fl f64 (1024 * b) = Fin d" "1024 \<le> d" "d \<le> 13312"
    using dbl_between [of 1024 13312 0 "1024 * b"] b by auto
  have q: "1 / 2 ^ 14 \<le> a / d" "a / d \<le> 1" using a d by (simp_all add: field_simps)
  then obtain c where "fl f64 (a / d) = Fin c" "1 / 2 ^ 14 \<le> c"
    using dbl_between [of 1 1 14 "a / d"] by auto
  moreover have "dbl 1024 = Fin 1024" using dbl_int [of 1024] by simp
  ultimately show ?thesis using a b d by (auto intro!: exI [of _ c])
qed

lemma net_consts: "\<exists>c>0. ENETSNDPERKB = Fin c" "\<exists>c>0. ENETRCVPERKB = Fin c"
  unfolding ENETSNDPERKB_def ENETRCVPERKB_def by (rule net_const; simp)+

lemma miss_energy_nn: "Fin 0 \<le> x \<Longrightarrow> Fin 0 \<le> miss_energy x"
proof -
  assume x: "Fin 0 \<le> x"
  obtain a where a: "L2CACHE_MISS_LATENCY = Fin a" "59 \<le> a"
    using dbl_between [of 59 60 0 "598/10"] by (auto simp: dbl_def L2CACHE_MISS_LATENCY_def)
  obtain b where b: "MEMORY_POWER = Fin b" "2 \<le> b"
    using dbl_between [of 2 3 0 "2016/1000"] by (auto simp: dbl_def MEMORY_POWER_def)
  have d: "dbl 1000000000 = Fin 1000000000" using dbl_int [of 1000000000] by simp
  show ?thesis unfolding miss_energy_def a(1) b(1) d
    using a(2) b(2) x by (intro nn64) simp_all
qed

lemma disk_energy_nn: "Fin 0 \<le> disk_energy rd wr"
proof -
  obtain a b where a: "EDISKRPERKB = Fin a" "a > 0" and b: "EDISKWPERKB = Fin b" "b > 0"
    using disk_consts by blast
  show ?thesis unfolding disk_energy_def a(1) b(1)
    using a(2) b(2) by (intro nn64) simp_all
qed

lemma net_part_nn: "Fin 0 \<le> x \<Longrightarrow> c > 0 \<Longrightarrow> Fin 0 \<le> fdiv f64 (fmul f64 x (Fin c)) (dbl 1024)"
  using dbl_int [of 1024] by (simp add: nn64)

section \<open>The four energies\<close>

definition nonneg_col :: "row \<Rightarrow> nat \<Rightarrow> bool" where
  "nonneg_col r i \<longleftrightarrow> (case r ! i of None \<Rightarrow> False | Some s \<Rightarrow> Fin 0 \<le> flt s)"

definition net_good :: "row \<Rightarrow> bool" where
  "net_good r \<longleftrightarrow> nonneg_col r 0 \<and> nonneg_col r 1"

definition disk_good :: "row \<Rightarrow> bool" where
  "disk_good r \<longleftrightarrow> r ! 0 \<noteq> None \<and> r ! 1 \<noteq> None"

definition mem_good :: "row \<Rightarrow> bool" where
  "mem_good r \<longleftrightarrow> r ! 0 \<noteq> None \<and> nonneg_col r 1 \<and> nonneg_col r 2 \<and>
     (case r ! 3 of None \<Rightarrow> False | Some s \<Rightarrow> 0 \<le> sint (atol s))"

text \<open>For the CPU the factors are bounded, so that no product overflows; the interval is not empty.\<close>

definition small32 :: "nat \<Rightarrow> fp \<Rightarrow> bool" where
  "small32 k v \<longleftrightarrow> (case v of Fin x \<Rightarrow> 0 \<le> x \<and> x \<le> 2 ^ k | _ \<Rightarrow> False)"

definition cpu_good :: "row \<Rightarrow> bool" where
  "cpu_good r \<longleftrightarrow> r ! 4 \<noteq> None \<and> r ! 3 \<noteq> None \<and>
     (case r ! 0 of None \<Rightarrow> False | Some s \<Rightarrow> small32 40 (flt s)) \<and>
     (case r ! 1 of None \<Rightarrow> False | Some s \<Rightarrow> small32 40 (flt s)) \<and>
     (case r ! 2 of None \<Rightarrow> False | Some s \<Rightarrow> atoi s \<noteq> 0)"

lemma small32_round:
  assumes "0 \<le> x" and "x \<le> 2 ^ k" and "k < 128"
  shows "small32 k (fl f32 x)"
proof -
  have p: "fl f32 (2 ^ k) = Fin (2 ^ k)" using assms(3) by (intro fl_pow2 fmt_ok_f32) (simp add: f32_def)
  obtain w where "fl f32 x = Fin w" "0 \<le> w" "w \<le> 2 ^ k"
    using fl_between [of 0 x "2 ^ k" f32] assms p by auto
  then show ?thesis by (simp add: small32_def)
qed

lemma small32_nn: "small32 k v \<Longrightarrow> Fin 0 \<le> v"
  by (cases v) (simp_all add: small32_def)

lemma small32_fmul: "small32 a v \<Longrightarrow> small32 b w \<Longrightarrow> a + b < 128 \<Longrightarrow> small32 (a + b) (fmul f32 v w)"
proof -
  assume v: "small32 a v" and w: "small32 b w" and ab: "a + b < 128"
  obtain x y where x: "v = Fin x" "0 \<le> x" "x \<le> 2 ^ a" and y: "w = Fin y" "0 \<le> y" "y \<le> 2 ^ b"
    using v w by (auto simp: small32_def split: fp.splits)
  have "x * y \<le> 2 ^ (a + b)" unfolding power_add using x y by (intro mult_mono) simp_all
  then show ?thesis using x y ab by (simp add: small32_round)
qed

lemma small32_fdiv: "small32 a v \<Longrightarrow> a < 128 \<Longrightarrow> 1 \<le> y \<Longrightarrow> small32 a (fdiv f32 v (Fin y))"
proof -
  assume v: "small32 a v" and a: "a < 128" and y: "1 \<le> y"
  obtain x where x: "v = Fin x" "0 \<le> x" "x \<le> 2 ^ a" using v by (auto simp: small32_def split: fp.splits)
  have "x / y \<le> x" using x y by (simp add: divide_le_eq mult_le_cancel_left1)
  then have "x / y \<le> 2 ^ a" using x by linarith
  then show ?thesis using x y a by (simp add: small32_round)
qed

lemma small32_word: "small32 32 (fofint f32 (uint (w :: u32)))"
proof -
  have "uint w \<le> 2 ^ 32" using uint_lt2p [of w] by simp
  then have "(of_int (uint w) :: rat) \<le> of_int (2 ^ 32)" by (simp only: of_int_le_iff)
  then show ?thesis unfolding fofint_def by (intro small32_round) (simp_all del: of_int_uint)
qed

interpretation cpu_rows: row_energy cpu_step cpu_good
proof unfold_locales
  fix r e
  assume g: "cpu_good r" and e: "fnn f32 e"
  obtain c0 c1 c2 c3 c4 where c: "r ! 0 = Some c0" "r ! 1 = Some c1" "r ! 2 = Some c2" "r ! 3 = Some c3"
    "r ! 4 = Some c4" and s: "small32 40 (flt c0)" "small32 40 (flt c1)" and i: "atoi c2 \<noteq> 0"
    using g by (auto simp: cpu_good_def split: option.splits)
  have "uint (atoi c2) \<noteq> 0" using i by (simp add: uint_0_iff)
  then have "1 \<le> uint (atoi c2)" using uint_ge_0 [of "atoi c2"] by linarith
  then obtain y where y: "fofint f32 (uint (atoi c2)) = Fin y" "1 \<le> y"
    using fofint_pos [of "uint (atoi c2)" f32] fl_one small32_word [of "atoi c2"]
    by (auto simp: small32_def)
  have one: "small32 0 (Fin 1)" by (simp add: small32_def)
  let ?rp = "fdiv f32 (fmul f32 (fofint f32 (uint (atoi c3))) (Fin 1)) (Fin y)"
  have "small32 32 ?rp"
    using small32_fmul [OF small32_word one] y(2) by (intro small32_fdiv) simp_all
  then have "small32 112 (fmul f32 (fmul f32 (flt c0) (flt c1)) ?rp)"
    using small32_fmul [OF small32_fmul [OF s]] by fastforce
  then have "small32 112 (fdiv f32 (fmul f32 (fmul f32 (flt c0) (flt c1)) ?rp) (Fin 100))"
    by (rule small32_fdiv) simp_all
  then have "Fin 0 \<le> fdiv f32 (fmul f32 (fmul f32 (flt c0) (flt c1)) ?rp) (Fin 100)"
    by (rule small32_nn)
  then show "\<exists>e'. cpu_step r e = Inr e' \<and> fnn f32 e' \<and> e \<le> e'"
    using c e y fadd_ge_left [OF e] fnn_ge_zero [OF e] f32_100
    by (simp add: cpu_step_def col_def fadd_fnn Let_def)
qed

interpretation net_rows: row_energy net_step net_good
proof unfold_locales
  fix r e
  assume g: "net_good r" and e: "fnn f32 e"
  obtain c0 c1 where c: "r ! 0 = Some c0" "r ! 1 = Some c1" "Fin 0 \<le> flt c0" "Fin 0 \<le> flt c1"
    using g by (auto simp: net_good_def nonneg_col_def split: option.splits)
  obtain a b where a: "ENETSNDPERKB = Fin a" "a > 0" and b: "ENETRCVPERKB = Fin b" "b > 0"
    using net_consts by blast
  have "Fin 0 \<le> fcast f64 (flt c0)" "Fin 0 \<le> fcast f64 (flt c1)"
    using c by (auto intro!: fnn_ge_zero [OF fcast_fnn])
  then have "Fin 0 \<le> fadd f64 (fdiv f64 (fmul f64 (fcast f64 (flt c0)) ENETSNDPERKB) (dbl 1024))
      (fdiv f64 (fmul f64 (fcast f64 (flt c1)) ENETRCVPERKB) (dbl 1024))"
    unfolding a(1) b(1) using a(2) b(2) by (intro nn64(3) net_part_nn)
  from add_double_mono [OF e this] show "\<exists>e'. net_step r e = Inr e' \<and> fnn f32 e' \<and> e \<le> e'"
    using c by (simp add: net_step_def col_def)
qed

interpretation disk_rows: row_energy disk_step disk_good
proof unfold_locales
  fix r e
  assume g: "disk_good r" and e: "fnn f32 e"
  then show "\<exists>e'. disk_step r e = Inr e' \<and> fnn f32 e' \<and> e \<le> e'"
    using add_double_mono [OF e disk_energy_nn]
    by (auto simp: disk_good_def disk_step_def col_def Let_def)
qed

interpretation mem_rows: row_energy mem_step mem_good
proof unfold_locales
  fix r e
  assume g: "mem_good r" and e: "fnn f32 e"
  obtain c0 c1 c2 c3 where c: "r ! 0 = Some c0" "r ! 1 = Some c1" "r ! 2 = Some c2" "r ! 3 = Some c3"
    and nn: "Fin 0 \<le> flt c1" "Fin 0 \<le> flt c2" "0 \<le> sint (atol c3)"
    using g by (auto simp: mem_good_def nonneg_col_def split: option.splits)
  have l: "fofint f32 L2CACHE_LINE_SIZE = Fin 128"
    using f32_small [of 128] by (simp add: fofint_def L2CACHE_LINE_SIZE_def)
  let ?l = "fadd f32 (fdiv f32 (flt c1) (Fin 128)) (fdiv f32 (flt c2) (Fin 128))"
  have "Fin 0 \<le> fdiv f32 (flt c1) (Fin 128)" "Fin 0 \<le> fdiv f32 (flt c2) (Fin 128)"
    using nn by (auto intro!: fnn_ge_zero [OF fdiv_fnn])
  then have "Fin 0 \<le> ?l" by (intro fnn_ge_zero [OF fadd_fnn]) simp_all
  then have "Fin 0 \<le> fcast f64 ?l" by (intro fnn_ge_zero [OF fcast_fnn]) simp_all
  then have "Fin 0 \<le> fadd f64 (miss_energy (fcast f64 ?l)) (miss_energy (fofint f64 (sint (atol c3))))"
    using nn(3) by (intro nn64(3) miss_energy_nn nn64(4))
  from add_double_mono [OF e this] show "\<exists>e'. mem_step r e = Inr e' \<and> fnn f32 e' \<and> e \<le> e'"
    using c l by (simp add: mem_step_def col_def Let_def)
qed

section \<open>Properties\<close>



text \<open>C29: errors are not reported: when the connection or the query fails, all four energies are 0,
  never the \<open>-1\<close> and \<open>-2\<close> the comment of \<^verbatim>\<open>CPUEnergy\<close> announces, so a failure looks like a process
  that used nothing.\<close>

theorem energy_errors_are_zero:
  assumes "\<And>q. \<not> mysql_real_connect db (tr @ [Init (inits tr)]) \<or>
      mysql_real_query db (tr @ [Init (inits tr)]) q \<noteq> 0"
    and "CPUEnergy db fetch p len now tr = Inr (e1, tr1)" and "NtwkEnergy db fetch p len now tr = Inr (e2, tr2)"
    and "DiskEnergy db fetch p len now tr = Inr (e3, tr3)" and "MemoryEnergy db fetch p len itv now tr = Inr (e4, tr4)"
  shows "e1 = 0 \<and> e2 = 0 \<and> e3 = 0 \<and> e4 = 0"
proof -
  have "e = 0" if "select db fetch query step 0 tr = Inr (e, tr')" for query step and e :: fp and tr'
    using that assms(1) [of query]
    by (auto simp: select_def create_conn_def Let_def split: if_splits)
  then show ?thesis
    using assms(2-5) unfolding CPUEnergy_def NtwkEnergy_def DiskEnergy_def MemoryEnergy_def by blast
qed

theorem energy_errors_are_zero_witness:
  "\<exists>db e tr'. CPUEnergy db (\<lambda>_. [[Some ''5'']]) 7 3 60 [] = Inr (e, tr') \<and> e = 0"
proof -
  let ?db = "\<lparr>mysql_real_connect = \<lambda>l. False, mysql_real_query = \<lambda>l q. 0\<rparr>"
  let ?f = "\<lambda>_ :: db_log. [[Some ''5'']]"
  have s: "select ?db ?f query step 0 [] = Inr (0, [Init 0])" for query step
    by (simp add: select_def create_conn_def Let_def)
  have c: "\<not> mysql_real_connect ?db ([] @ [Init (inits [])]) \<or>
      mysql_real_query ?db ([] @ [Init (inits [])]) q \<noteq> 0" for q by simp
  have "CPUEnergy ?db ?f 7 3 60 [] = Inr (0, [Init 0])" "NtwkEnergy ?db ?f 7 3 60 [] = Inr (0, [Init 0])"
    "DiskEnergy ?db ?f 7 3 60 [] = Inr (0, [Init 0])" "MemoryEnergy ?db ?f 7 3 1 60 [] = Inr (0, [Init 0])"
    unfolding CPUEnergy_def NtwkEnergy_def DiskEnergy_def MemoryEnergy_def by (rule s)+
  with energy_errors_are_zero [OF c this] show ?thesis by blast
qed

text \<open>\<^verbatim>\<open>systemEnergy\<close> clears 40 bytes (the size of \<^verbatim>\<open>struct process_energy\<close>) of its argument: called
  with a \<^verbatim>\<open>struct device_energy\<close>, which has 24, as both callers do, it always writes out of bounds,
  whatever the database answers; given room for 40 bytes, a failing connection leaves zeros.\<close>

lemma system_energy_overflow:
  "systemEnergy db fetch len now DEVICE_ENERGY_SIZE tr = Inl (Undefined OutOfBounds) \<and>
   (mysql_real_connect db (tr @ [Init (inits tr)]) \<or>
    systemEnergy db fetch len now PROCESS_ENERGY_SIZE tr = Inr (zero_device_energy, tr @ [Init (inits tr)]))"
  by (cases "mysql_real_connect db (tr @ [Init (inits tr)])")
    (simp_all add: systemEnergy_def select_def create_conn_def Let_def)

end
