(* ===== verification/Display.thy ===== *)
theory Display
  imports Energy
begin

text \<open>
  \<^verbatim>\<open>display.c\<close>: the banner, the conversions of times and numbers, the energy table, the text of the
  screen and the keys.  The terminal is a set of inputs (its size, the key pressed, the lines typed);
  colours, attributes and cursor moves are left out.
\<close>

section \<open>Banner\<close>

text \<open>\<open>strftime\<close> formats a date; the result is the output and the return code.\<close>

definition print_gal_header ::
  "string option \<Rightarrow> (string \<Rightarrow> 'tm \<Rightarrow> string) \<Rightarrow> 'tm \<Rightarrow> string \<Rightarrow> string \<Rightarrow> string \<Rightarrow> string \<Rightarrow> c_int \<Rightarrow> string \<times> int" where
  "print_gal_header env_time_fmt strftime rectime sysname release nodename machine cpu_nr =
    (let (cur_date, rc) = (case env_time_fmt of
         Some e \<Rightarrow> if e = ''ISO'' then (strftime ''%Y-%m-%d'' rectime, 1) else (strftime ''%x'' rectime, 0)
       | None \<Rightarrow> (strftime ''%x'' rectime, 0))
     in (sysname @ '' '' @ release @ '' ('' @ nodename @ '') '' @ [CHR 0x09] @ cur_date @ '' '' @ [CHR 0x09] @
         ''_'' @ machine @ ''_'' @ [CHR 0x09] @ ''('' @ show_signed cpu_nr @ '' CPU)'' @ [newline], rc))"

section \<open>Elapsed time\<close>

definition DAYSECS :: int where "DAYSECS = 24 * 60 * 60"
definition HOURSECS :: int where "HOURSECS = 60 * 60"
definition MINSECS :: int where "MINSECS = 60"

text \<open>The parts printed, each with its unit; then the text.  Division truncates as in C.\<close>

definition elapsed_parts :: "int \<Rightarrow> (int \<times> char) list" where
  "elapsed_parts value =
    (let (p1, v1) = (if value > DAYSECS then ([(value div DAYSECS, CHR ''d'')], value mod DAYSECS) else ([], value));
         (p2, v2) = (if v1 > HOURSECS then ([(v1 div HOURSECS, CHR ''h'')], v1 mod HOURSECS) else ([], v1));
         (p3, v3) = (if v2 > MINSECS then ([(v2 div MINSECS, CHR ''m'')], v2 mod MINSECS) else ([], v2))
     in p1 @ p2 @ p3 @ (if v3 \<noteq> 0 then [(v3, CHR ''s'')] else []))"

definition val2elapstr :: "int \<Rightarrow> string" where
  "val2elapstr value = concat (map (\<lambda>(n, u). show_int n @ [u]) (elapsed_parts value))"

section \<open>What the screen does\<close>

text \<open>Text printed at a prompt, a beep, the alarm set, a signal sent, the help text shown; and how it ends.\<close>

datatype ui_event = Print string | Beep | Alarm int | Kill c_int c_int | ShowHelp "string list"

datatype ui_result = Return int | CleanStop int

section \<open>Numbers typed by the user\<close>

fun numeric :: "string \<Rightarrow> bool" where
  "numeric [] = True"
| "numeric (c # s) = (if (of_char c :: nat) < 48 \<or> (of_char c :: nat) > 57 then False else numeric s)"

text \<open>
  \<open>typed\<close> is the line \<^verbatim>\<open>scanw("%15s", numval)\<close> reads from.  The conversion in \<open>ask\<close> is an \<^verbatim>\<open>int\<close>, the
  argument a \<^verbatim>\<open>long\<close>: the low 32 bits are printed.  The events are the texts and the beep.
\<close>

definition getnumval :: "string \<Rightarrow> string \<Rightarrow> c_long \<Rightarrow> c_long \<times> ui_event list" where
  "getnumval ask typed valuenow =
    (let prompt = Print (fmt1 (CHR ''d'') (show_signed (ucast valuenow :: c_int)) ask);
         numval = (case scan_str (Some 15) typed of None \<Rightarrow> [] | Some (v, r) \<Rightarrow> v)
     in if numval \<noteq> [] then
          (if numeric numval then (atol numval, [prompt])
           else (valuenow, [prompt, Beep, Print ''Value not numeric (current value kept)!'']))
        else (valuenow, [prompt]))"

section \<open>Clock\<close>

record tm =
  tm_sec :: int
  tm_min :: int
  tm_hour :: int
  tm_mday :: int
  tm_mon :: int
  tm_year :: int

text \<open>\<^verbatim>\<open>%0wd\<close>.\<close>

definition show_zero :: "nat \<Rightarrow> int \<Rightarrow> string" where
  "show_zero w i = (if i < 0 then CHR ''-'' # pad_left (w - 1) (CHR ''0'') (show_nat (nat (- i)))
     else pad_left w (CHR ''0'') (show_nat (nat i)))"

definition convtime :: "(c_long \<Rightarrow> tm option) \<Rightarrow> c_long \<Rightarrow> string res" where
  "convtime localtime secs =
    (case localtime secs of None \<Rightarrow> Inl (Undefined NullDeref)
     | Some tt \<Rightarrow> Inr (show_zero 2 (tm_hour tt) @ '':'' @ show_zero 2 (tm_min tt) @ '':'' @ show_zero 2 (tm_sec tt)))"

definition convdate :: "(c_long \<Rightarrow> tm option) \<Rightarrow> c_long \<Rightarrow> string res" where
  "convdate localtime secs =
    (case localtime secs of None \<Rightarrow> Inl (Undefined NullDeref)
     | Some tt \<Rightarrow> Inr (show_zero 4 (tm_year tt + 1900) @ ''/'' @ show_zero 2 (tm_mon tt + 1) @ ''/'' @
         show_zero 2 (tm_mday tt)))"

section \<open>Kernel patch\<close>

definition check_kernelpatch_status :: "string option \<Rightarrow> buf \<Rightarrow> int" where
  "check_kernelpatch_status stat1_file line =
    (case stat1_file of None \<Rightarrow> 0
     | Some f \<Rightarrow>
       (let (b, f') = (case fgets 4096 f line of None \<Rightarrow> (line, f) | Some x \<Rightarrow> x)
        in case fgets 4096 f' b of None \<Rightarrow> 0 | Some y \<Rightarrow> 1))"

section \<open>Help\<close>

definition MQUIT :: char where "MQUIT = CHR ''q''"
definition MKILLPROC :: char where "MKILLPROC = CHR ''k''"
definition MPAUSE :: char where "MPAUSE = CHR ''z''"
definition MHELP :: char where "MHELP = CHR ''h''"

definition helptext :: "(string \<times> char) list" where
  "helptext =
    [(''General commands:'' @ [newline], CHR '' ''),
     ([CHR 0x09] @ ''^L  - redraw the screen                       '' @ [newline], CHR '' ''),
     ([CHR 0x09] @ [CHR 0x27] @ ''%c'' @ [CHR 0x27] @ '' - pause-button to freeze current sample (toggle)'' @ [newline], MPAUSE),
     ([newline], CHR '' ''),
     ([CHR 0x09] @ [CHR 0x27] @ ''%c'' @ [CHR 0x27] @ '' - kill a process (i.e. send a signal)'' @ [newline], MKILLPROC),
     ([newline], CHR '' ''),
     ([CHR 0x09] @ [CHR 0x27] @ ''%c'' @ [CHR 0x27] @ '' - help-information'' @ [newline], MHELP),
     ([CHR 0x09] @ [CHR 0x27] @ ''%c'' @ [CHR 0x27] @ '' - quit this program'' @ [newline], MQUIT)]"

text \<open>
  The texts written to the help window, for the keys pressed at the prompts; reading past the keys
  counts as one that is not \<^verbatim>\<open>q\<close>.
\<close>

fun showhelp_loop :: "int \<Rightarrow> nat \<Rightarrow> (string \<times> char) list \<Rightarrow> char list \<Rightarrow> string list" where
  "showhelp_loop winlines lin [] pressed = [''End of help - press any key to continue....'']"
| "showhelp_loop winlines lin (h # hs) pressed =
    fmt1 (CHR ''c'') [snd h] (fst h) #
    (if int lin \<ge> winlines - 2 then
       (''Press any key for next line or '' @ [CHR 0x27] @ ''q'' @ [CHR 0x27] @ '' to leave help .......'') #
       (case pressed of [] \<Rightarrow> showhelp_loop winlines (Suc lin) hs []
        | k # ks \<Rightarrow> if k = CHR ''q'' then [] else showhelp_loop winlines (Suc lin) hs ks)
     else showhelp_loop winlines (Suc lin) hs pressed)"

definition showhelp :: "int \<Rightarrow> int \<Rightarrow> char list \<Rightarrow> string list" where
  "showhelp LINES helpline pressed = showhelp_loop (LINES - helpline) 0 helptext pressed"

section \<open>Storing the energies\<close>

text \<open>
  \<open>usable\<close> gives the number of bytes behind a pointer from \<^verbatim>\<open>malloc(n)\<close>; the C standard guarantees \<open>n\<close>.
\<close>

definition persists_process_energy ::
  "mysql \<Rightarrow> (nat \<Rightarrow> nat) \<Rightarrow> c_long \<Rightarrow> fp \<Rightarrow> fp \<Rightarrow> fp \<Rightarrow> fp \<Rightarrow> process_info \<Rightarrow> db_log \<Rightarrow> db_log res" where
  "persists_process_energy db usable now ecpu emem entw edisk pst tr =
    (case pi_cmdline pst of None \<Rightarrow> Inl (Undefined NullDeref)
     | Some c \<Rightarrow>
       if usable (length c) < length c + 1 then Inl (Undefined OutOfBounds)
       else bindR (insert_process_energy db
              \<lparr>pe_pid = pi_pid pst, pe_time = now, pe_ecpu = ecpu, pe_emem = emem, pe_enet = entw,
               pe_edisk = edisk, pe_cmdline = c\<rparr> tr) (\<lambda>(rc, tr'). Inr tr'))"

definition persist_device_energy :: "mysql \<Rightarrow> device_energy \<Rightarrow> db_log \<Rightarrow> db_log res" where
  "persist_device_energy db de tr = bindR (insert_device_energy db de tr) (\<lambda>(rc, tr'). Inr tr')"

section \<open>The energy table\<close>

record erow =
  er_pid :: u32
  er_percent :: fp
  er_ecpu :: fp
  er_edisk :: fp
  er_enet :: fp
  er_emem :: fp
  er_cmd :: "string option"

definition energy_row ::
  "mysql \<Rightarrow> fetch \<Rightarrow> (nat \<Rightarrow> nat) \<Rightarrow> c_int \<Rightarrow> c_long \<Rightarrow> fp \<Rightarrow> process_info \<Rightarrow> erow list \<times> db_log \<Rightarrow> (erow list \<times> db_log) res" where
  "energy_row db fetch usable interval now etotalsys pst s =
    (case s of (rows, tr) \<Rightarrow>
    bindR (CPUEnergy db fetch (pi_pid pst) interval now tr) (\<lambda>(ecpu, tr1).
    bindR (DiskEnergy db fetch (pi_pid pst) interval now tr1) (\<lambda>(edisk, tr2).
    bindR (NtwkEnergy db fetch (pi_pid pst) interval now tr2) (\<lambda>(entw, tr3).
    bindR (MemoryEnergy db fetch (pi_pid pst) interval interval now tr3) (\<lambda>(emem, tr4).
    let eall = fadd f32 (fadd f32 ecpu edisk) emem;
        percent = (if 0 < etotalsys then fmul f32 (fdiv f32 eall etotalsys) (fofint f32 100) else 0);
        row = \<lparr>er_pid = pi_pid pst, er_percent = percent, er_ecpu = ecpu, er_edisk = edisk,
               er_enet = entw, er_emem = emem, er_cmd = pi_cmdline pst\<rparr>
    in bindR (persists_process_energy db usable now ecpu emem entw edisk pst tr4) (\<lambda>tr5.
         Inr (rows @ [row], tr5)))))))"

text \<open>\<open>room\<close> is the size of the object behind \<^verbatim>\<open>&deviceEnergy\<close>, \<^verbatim>\<open>DEVICE_ENERGY_SIZE\<close> in the code.\<close>

definition energy_table ::
  "mysql \<Rightarrow> fetch \<Rightarrow> (nat \<Rightarrow> nat) \<Rightarrow> nat \<Rightarrow> c_int \<Rightarrow> c_long \<Rightarrow> process_info list \<Rightarrow> int \<Rightarrow> db_log \<Rightarrow>
   (device_energy \<times> erow list \<times> db_log) res" where
  "energy_table db fetch usable room interval now pst_list amount tr =
    (let amount = (if amount > int SHOW_NUM then int SHOW_NUM else amount)
     in bindR (systemEnergy db fetch interval now room tr) (\<lambda>(de, tr1).
        bindR (persist_device_energy db de tr1) (\<lambda>tr2.
        let etotalsys = fadd f32 (fadd f32 (de_ecpu de) (de_edisk de)) (de_emem de)
        in bindR (foldR (energy_row db fetch usable interval now etotalsys)
                   (take (nat amount) pst_list) ([], tr2)) (\<lambda>(rows, tr3). Inr (de, rows, tr3)))))"

section \<open>Keys\<close>

definition KEY_RESIZE :: int where "KEY_RESIZE = 410"

text \<open>
  \<open>lastchar\<close> is the character read, \<open>help\<close> what \<^verbatim>\<open>showhelp(2)\<close> shows, \<open>typed1\<close> and \<open>typed2\<close> are the
  lines typed at the two prompts, \<open>kill_ok\<close> tells whether \<^verbatim>\<open>kill\<close> succeeds.
\<close>

definition handle_key ::
  "int \<Rightarrow> int \<Rightarrow> bool \<Rightarrow> string list \<Rightarrow> string \<Rightarrow> string \<Rightarrow> (c_int \<Rightarrow> c_int \<Rightarrow> bool) \<Rightarrow> ui_event list \<times> ui_result" where
  "handle_key interval lastchar paused help typed1 typed2 kill_ok =
    (if lastchar = -1 \<or> lastchar = 0 then ([], Return lastchar)
     else if lastchar = of_char MQUIT then ([], CleanStop 0)
     else if lastchar = of_char MHELP then
       ([Alarm 0, ShowHelp help] @ (if interval \<noteq> 0 \<and> \<not> paused then [Alarm 3] else []), Return 1)
     else if lastchar = of_char MKILLPROC then
       (let (pidval, out1) = getnumval ''Pid of process: '' typed1 0; killpid = ucast pidval :: c_int;
            evs = (if killpid = 0 \<or> killpid = -1 then []
                   else if killpid = 1 then [Beep]
                   else (let (sigval, out2) = getnumval ''Signal [%d]: '' typed2 15; killsig = ucast sigval :: c_int
                         in out2 @ [Kill killpid killsig] @
                            (if kill_ok killpid killsig then [] else [Beep])))
        in ([Alarm 0] @ out1 @ evs @ (if paused then [] else [Alarm 3]), Return 1))
     else if lastchar = KEY_RESIZE then ([], Return 1)
     else ([Beep], Return 1))"

record ui_env =
  ui_tty :: bool
  ui_node :: string
  ui_lines :: int
  ui_cols :: int
  ui_select :: int
  ui_char :: int
  ui_pressed :: "char list"
  ui_typed1 :: string
  ui_typed2 :: string
  ui_kill :: "c_int \<Rightarrow> c_int \<Rightarrow> bool"

definition LEAST_COLUMS :: int where "LEAST_COLUMS = 30"

section \<open>The text of the screen\<close>

text \<open>
  The texts given to \<^verbatim>\<open>printw\<close>; colours and attributes are left out.  \<open>node\<close> is the node name up to
  its first dot, the elapsed time is always that of two seconds.  C halves with truncation.
\<close>

definition half :: "int \<Rightarrow> int" where "half i = sgn i * (\<bar>i\<bar> div 2)"

definition screen_header :: "int \<Rightarrow> string \<Rightarrow> string \<Rightarrow> string \<Rightarrow> string" where
  "screen_header COLS node format1 format2 =
    (let buf = val2elapstr 2; lenavail = COLS - 35 - int (length buf) - int (length node); len1 = half lenavail
     in ''pTop - '' @ node @ pad_arg len1 [] @ format1 @ ''  '' @ format2 @ pad_arg (lenavail - len1) [] @
        buf @ '' elapsed'')"

definition screen_banner :: "int \<Rightarrow> string" where
  "screen_banner COLS = pad_arg (half (COLS - 38)) '' '' @ ''** All process activity since boot **'' @ [newline]"

text \<open>Six columns of a seventh of the width, the last one takes the rest.\<close>

definition table_line :: "int \<Rightarrow> string list \<Rightarrow> string \<Rightarrow> string" where
  "table_line COLS cells rest =
    (let len2 = COLS div 7
     in concat (map (pad_right (nat len2)) cells) @ pad_right (nat (COLS - 6 * len2)) rest)"

definition screen_titles :: "int \<Rightarrow> string" where
  "screen_titles COLS = table_line COLS [''PID'', ''ALL(Percent)'', ''ECPU'', ''EDISK'', ''ENET'', ''EMEM''] ''CMD''"

definition screen_total :: "int \<Rightarrow> device_energy \<Rightarrow> string" where
  "screen_total COLS de =
    table_line COLS (''Total'' # map (show_fp 0 3) [fofint f32 100, de_ecpu de, de_edisk de, de_enet de, de_emem de]) [] @
    [newline]"

definition screen_row :: "int \<Rightarrow> erow \<Rightarrow> string" where
  "screen_row COLS r =
    table_line COLS (show_signed (er_pid r) #
        map (show_fp 0 3) [er_percent r, er_ecpu r, er_edisk r, er_enet r, er_emem r])
      (case er_cmd r of None \<Rightarrow> [] | Some c \<Rightarrow> c)"

text \<open>The new value of \<^verbatim>\<open>screen\<close>, what the keys did, the texts shown and the result.\<close>

text \<open>Waiting for a key: none when \<^verbatim>\<open>select\<close> times out, 0 (what \<^verbatim>\<open>lastchar\<close> was set to) when it fails.\<close>

definition wait_key :: "ui_env \<Rightarrow> int option" where
  "wait_key ui =
    (if ui_select ui < 0 then Some 0
     else if ui_select ui = 0 then None
     else Some (ui_char ui))"

definition show_proc_stat ::
  "mysql \<Rightarrow> fetch \<Rightarrow> (nat \<Rightarrow> nat) \<Rightarrow> nat \<Rightarrow> ui_env \<Rightarrow> (c_long \<Rightarrow> tm option) \<Rightarrow> c_long \<Rightarrow> c_int \<Rightarrow> process_info list \<Rightarrow> int \<Rightarrow> c_long \<Rightarrow>
   db_log \<Rightarrow> (bool \<times> ui_event list \<times> string list \<times> ui_result \<times> db_log) res" where
  "show_proc_stat db fetch usable room ui localtime curtime interval pst_list amount now tr =
    (let COLS = ui_cols ui; node = takeWhile (\<lambda>c. c \<noteq> CHR ''.'') (ui_node ui)
     in if \<not> ui_tty ui then Inr (False, [], [], Return 0, tr)
     else if COLS < LEAST_COLUMS then
       Inr (True, [], [''Not enough columns (need at least '' @ show_int LEAST_COLUMS @ '' columns)'' @ [newline]],
            CleanStop 1, tr)
     else bindR (convdate localtime curtime) (\<lambda>format1. bindR (convtime localtime curtime) (\<lambda>format2.
       if length format1 \<ge> 16 \<or> length format2 \<ge> 16 \<or> length (val2elapstr 2) \<ge> 13
       then Inl (Undefined OutOfBounds)
       else bindR (energy_table db fetch usable room interval now pst_list amount tr) (\<lambda>(de, rows, tr').
         let texts = [screen_header COLS node format1 format2, screen_banner COLS, screen_titles COLS,
                      screen_total COLS de] @ map (screen_row COLS) rows
         in (case wait_key ui of None \<Rightarrow> Inr (True, [], texts, Return 0, tr')
            | Some lastchar \<Rightarrow>
              (let (evs, res) = handle_key (sint interval) lastchar False
                        (showhelp (ui_lines ui) 2 (ui_pressed ui)) (ui_typed1 ui) (ui_typed2 ui) (ui_kill ui)
               in Inr (True, evs, texts, res, tr')))))))"

section \<open>Numbers typed, abstractly\<close>

lemma numeric_digits: "numeric s \<longleftrightarrow> (\<forall>c \<in> set s. isdigit c)"
  by (induction s) (auto simp: isdigit_def)

lemma getnumval_nat:
  assumes "length (show_nat n) \<le> 15"
  shows "fst (getnumval ask (show_nat n) old) = of_nat n"
proof -
  have "scan_str (Some 15) (show_nat n @ []) = Some (show_nat n, [])"
    using assms show_nat_chars(4) by (intro scan_str_word) auto
  moreover have "numeric (show_nat n)" using show_nat_chars(1) by (auto simp: numeric_digits)
  moreover have "atol (show_nat n) = of_nat n"
  proof -
    have "n < 10 ^ 15"
    proof (rule ccontr)
      assume "\<not> n < 10 ^ 15"
      have big: "Suc k \<le> length (show_nat m)" if "10 ^ k \<le> m" for k m
        using that
      proof (induction k arbitrary: m)
        case 0
        then show ?case using show_nat_nonempty [of m] by (simp add: Suc_le_eq)
      next
        case (Suc k)
        have "10 ^ k * 10 \<le> m" using Suc.prems by (simp add: mult.commute)
        then have le: "10 ^ k \<le> m div 10" by (simp add: less_eq_div_iff_mult_less_eq)
        have "(1::nat) \<le> 10 ^ k" by simp
        then have "\<not> m < 10" using \<open>10 ^ k * 10 \<le> m\<close> by linarith
        then show ?case using Suc.IH [OF le] by (subst show_nat.simps) simp
      qed
      then show False using big [of 15 n] \<open>\<not> n < 10 ^ 15\<close> assms by simp
    qed
    then show ?thesis
      using scan_num_show_nat [of "[]" "[]" n]
      by (simp add: atol_def scan_int_def strtol_val_def)
  qed
  ultimately show ?thesis by (simp add: getnumval_def Let_def)
qed

lemma getnumval_empty: "fst (getnumval ask [] old) = old"
  by (simp add: getnumval_def Let_def scan_str_def skip_ws_def)

lemma getnumval_kills [simp]: "Kill w sig \<notin> set (snd (getnumval ask typed old))"
  by (auto simp: getnumval_def Let_def split: option.splits)

section \<open>Elapsed time, abstractly\<close>

definition unit_secs :: "char \<Rightarrow> int" where
  "unit_secs u = (if u = CHR ''d'' then DAYSECS else if u = CHR ''h'' then HOURSECS
     else if u = CHR ''m'' then MINSECS else 1)"

lemma part_sum:
  fixes v S :: int
  shows "(if v > S then ([(v div S, u)], v mod S) else ([], v)) = (p, w) \<Longrightarrow> unit_secs u = S \<Longrightarrow>
    sum_list (map (\<lambda>(n, u). n * unit_secs u) p) + w = v"
  by (auto split: if_splits)

lemma part_bounds:
  fixes v S :: int
  assumes "(if v > S then ([(v div S, u)], v mod S) else ([], v)) = (p, w)" and "0 < S" "0 \<le> v" "v < 100 * S"
  shows "0 \<le> w \<and> w \<le> S \<and> length p \<le> 1 \<and> (\<forall>x \<in> set p. 0 \<le> fst x \<and> fst x < 100)"
proof -
  have "v div S * S \<le> v" using pos_mod_sign [OF assms(2), of v] div_mult_mod_eq [of v S] by linarith
  then have "v div S * S < 100 * S" using assms(4) by linarith
  then have "v div S < 100" using assms(2) by (simp add: mult_less_cancel_right)
  then show ?thesis
    using assms pos_mod_bound [OF assms(2), of v]
    by (auto split: if_splits simp: pos_imp_zdiv_nonneg_iff less_imp_le)
qed

lemma elapsed_split:
  obtains p1 v1 p2 v2 p3 v3 where
    "(if v > DAYSECS then ([(v div DAYSECS, CHR ''d'')], v mod DAYSECS) else ([], v)) = (p1, v1)"
    and "(if v1 > HOURSECS then ([(v1 div HOURSECS, CHR ''h'')], v1 mod HOURSECS) else ([], v1)) = (p2, v2)"
    and "(if v2 > MINSECS then ([(v2 div MINSECS, CHR ''m'')], v2 mod MINSECS) else ([], v2)) = (p3, v3)"
    and "elapsed_parts v = p1 @ p2 @ p3 @ (if v3 \<noteq> 0 then [(v3, CHR ''s'')] else [])"
proof -
  obtain p1 v1 where 1: "(if v > DAYSECS then ([(v div DAYSECS, CHR ''d'')], v mod DAYSECS) else ([], v)) = (p1, v1)"
    by (rule prod.exhaust)
  obtain p2 v2 where 2: "(if v1 > HOURSECS then ([(v1 div HOURSECS, CHR ''h'')], v1 mod HOURSECS) else ([], v1)) = (p2, v2)"
    by (rule prod.exhaust)
  obtain p3 v3 where 3: "(if v2 > MINSECS then ([(v2 div MINSECS, CHR ''m'')], v2 mod MINSECS) else ([], v2)) = (p3, v3)"
    by (rule prod.exhaust)
  show ?thesis
    by (rule that [OF 1 2 3]) (simp only: elapsed_parts_def Let_def 1 2 3 prod.case)
qed

lemma elapsed_sum: "sum_list (map (\<lambda>(n, u). n * unit_secs u) (elapsed_parts v)) = v"
proof -
  obtain p1 v1 p2 v2 p3 v3 where p:
    "(if v > DAYSECS then ([(v div DAYSECS, CHR ''d'')], v mod DAYSECS) else ([], v)) = (p1, v1)"
    "(if v1 > HOURSECS then ([(v1 div HOURSECS, CHR ''h'')], v1 mod HOURSECS) else ([], v1)) = (p2, v2)"
    "(if v2 > MINSECS then ([(v2 div MINSECS, CHR ''m'')], v2 mod MINSECS) else ([], v2)) = (p3, v3)"
    and e: "elapsed_parts v = p1 @ p2 @ p3 @ (if v3 \<noteq> 0 then [(v3, CHR ''s'')] else [])"
    by (rule elapsed_split)
  have "sum_list (map (\<lambda>(n, u). n * unit_secs u) p1) + v1 = v"
    "sum_list (map (\<lambda>(n, u). n * unit_secs u) p2) + v2 = v1"
    "sum_list (map (\<lambda>(n, u). n * unit_secs u) p3) + v3 = v2"
    using part_sum [OF p(1)] part_sum [OF p(2)] part_sum [OF p(3)] by (simp_all add: unit_secs_def)
  then show ?thesis by (simp add: e unit_secs_def [of "CHR ''s''"])
qed

lemma show_int_two:
  assumes "0 \<le> n" and "n < 100"
  shows "length (show_int n) \<le> 2"
proof -
  have "length (show_nat (nat n)) \<le> 2" using assms by (intro show_nat_length) simp_all
  then show ?thesis using assms by (simp add: show_int_def)
qed

lemma elapsed_length:
  assumes "0 \<le> v" and "v < 100 * DAYSECS"
  shows "length (val2elapstr v) \<le> 12"
proof -
  obtain p1 v1 p2 v2 p3 v3 where p:
    "(if v > DAYSECS then ([(v div DAYSECS, CHR ''d'')], v mod DAYSECS) else ([], v)) = (p1, v1)"
    "(if v1 > HOURSECS then ([(v1 div HOURSECS, CHR ''h'')], v1 mod HOURSECS) else ([], v1)) = (p2, v2)"
    "(if v2 > MINSECS then ([(v2 div MINSECS, CHR ''m'')], v2 mod MINSECS) else ([], v2)) = (p3, v3)"
    and e: "elapsed_parts v = p1 @ p2 @ p3 @ (if v3 \<noteq> 0 then [(v3, CHR ''s'')] else [])"
    by (rule elapsed_split)
  have secs: "0 < DAYSECS" "0 < HOURSECS" "0 < MINSECS" "DAYSECS < 100 * HOURSECS" "HOURSECS < 100 * MINSECS"
    "MINSECS < 100" by (simp_all add: DAYSECS_def HOURSECS_def MINSECS_def)
  note b1 = part_bounds [OF p(1) secs(1) assms]
  have "0 \<le> v1" "v1 < 100 * HOURSECS" using b1 secs by linarith+
  note b2 = part_bounds [OF p(2) secs(2) this]
  have "0 \<le> v2" "v2 < 100 * MINSECS" using b2 secs by linarith+
  note b3 = part_bounds [OF p(3) secs(3) this]
  have b: "\<forall>x \<in> set (elapsed_parts v). 0 \<le> fst x \<and> fst x < 100" "length (elapsed_parts v) \<le> 4"
    using b1 b2 b3 secs by (auto simp: e)
  have p: "n < 100 \<and> 0 \<le> n" if "(n, u) \<in> set (elapsed_parts v)" for n u
    using b(1) that by auto
  have l: "length (concat (map (\<lambda>(n, u). show_int n @ [u]) ps)) \<le> 3 * length ps"
    if "\<And>n u. (n, u) \<in> set ps \<Longrightarrow> n < 100 \<and> 0 \<le> n" for ps
    using that
  proof (induction ps)
    case (Cons x ps)
    obtain n u where x: "x = (n, u)" by fastforce
    then have "length (show_int n) \<le> 2" using Cons.prems by (intro show_int_two) auto
    moreover have "length (concat (map (\<lambda>(n, u). show_int n @ [u]) ps)) \<le> 3 * length ps"
      using Cons by auto
    ultimately show ?case by (simp add: x)
  qed simp
  show ?thesis using l [of "elapsed_parts v"] p b(2) unfolding val2elapstr_def by fastforce
qed

section \<open>The text of the screen, abstractly\<close>

lemma length_table_line:
  "length (table_line COLS cells rest) =
    sum_list (map (\<lambda>c. max (nat (COLS div 7)) (length c)) cells) + max (nat (COLS - 6 * (COLS div 7))) (length rest)"
  by (simp add: table_line_def Let_def length_concat o_def)

lemma sum_list_max:
  "(\<forall>c \<in> set cells. length c \<le> w) \<Longrightarrow> sum_list (map (\<lambda>c. max w (length c)) cells) = length cells * w"
  by (induction cells) auto

lemma table_line_fills:
  assumes "0 \<le> COLS" and "length cells = 6" and "\<forall>c \<in> set cells. int (length c) \<le> COLS div 7"
    and "int (length rest) \<le> COLS - 6 * (COLS div 7)"
  shows "length (table_line COLS cells rest) = nat COLS"
proof -
  obtain n where n: "COLS = int n" using assms(1) by (rule nonneg_int_cases)
  then have d: "COLS div 7 = int (n div 7)" by (simp add: zdiv_int)
  have "\<forall>c \<in> set cells. length c \<le> n div 7" using assms(3) by (simp add: d)
  then have "sum_list (map (\<lambda>c. max (n div 7) (length c)) cells) = 6 * (n div 7)"
    by (simp only: sum_list_max assms(2))
  moreover have "length rest \<le> n - 6 * (n div 7)" "6 * (n div 7) \<le> n"
    using assms(4) [unfolded d, unfolded n] by linarith+
  moreover have "nat (COLS - 6 * (COLS div 7)) = n - 6 * (n div 7)" unfolding d unfolding n by linarith
  ultimately show ?thesis by (simp add: length_table_line d max_absorb1) (simp add: n)
qed

lemma length_elapsed_two: "length (val2elapstr 2) = 2"
  by (simp add: val2elapstr_def elapsed_parts_def DAYSECS_def HOURSECS_def MINSECS_def show_int_def show_nat.simps)

lemma half_bounds: "0 \<le> l \<Longrightarrow> 0 \<le> half l \<and> half l \<le> l" "l < 0 \<Longrightarrow> l \<le> half l \<and> half l \<le> 0"
  by (cases "l = 0"; auto simp: half_def sgn_if)+

lemma length_screen_header:
  assumes "length format1 = 10" and "length format2 = 8"
  shows "int (length (screen_header COLS node format1 format2)) =
    (let l = COLS - 37 - int (length node) in if 0 \<le> l then COLS else COLS - 2 * l)"
proof -
  define l where "l = COLS - 37 - int (length node)"
  have h: "screen_header COLS node format1 format2 =
      ''pTop - '' @ node @ pad_arg (half l) [] @ format1 @ ''  '' @ format2 @ pad_arg (l - half l) [] @
      val2elapstr 2 @ '' elapsed''"
    by (simp add: screen_header_def Let_def length_elapsed_two l_def)
  show ?thesis
  proof (cases "0 \<le> l")
    case True
    then show ?thesis using half_bounds(1) [of l] assms by (simp add: h length_elapsed_two Let_def l_def)
  next
    case False
    then show ?thesis using half_bounds(2) [of l] assms by (simp add: h length_elapsed_two Let_def l_def)
  qed
qed

section \<open>Properties\<close>

text \<open>C36: the kill command never signals process 0, 1 or -1; but every other value of an \<^verbatim>\<open>int\<close> can be
  reached, the negative ones (process groups) included, although only digits are accepted: the
  number typed is a \<^verbatim>\<open>long\<close> that is cut to 32 bits.\<close>

theorem kill_targets:
  "(Kill w sig \<in> set (fst (handle_key itv lastchar paused help typed1 typed2 ok)) \<longrightarrow> w \<notin> {0, 1, - 1}) \<and>
   (w \<notin> {0, 1, - 1} \<longrightarrow>
     Kill w 15 \<in> set (fst (handle_key itv (of_char MKILLPROC) paused help (show_nat (unat w)) [] ok)))"
proof (intro conjI impI)
  assume "Kill w sig \<in> set (fst (handle_key itv lastchar paused help typed1 typed2 ok))"
  then show "w \<notin> {0, 1, - 1}"
    by (auto simp: handle_key_def Let_def case_prod_beta split: if_splits)
next
  assume w: "w \<notin> {0, 1, - 1}"
  have "unat w < 2 ^ LENGTH(32)" by (rule unsigned_less)
  then have "length (show_nat (unat w)) \<le> 10" by (intro show_nat_length) simp_all
  then have p: "fst (getnumval ask (show_nat (unat w)) 0) = of_nat (unat w)" for ask by (intro getnumval_nat) simp
  have "ucast (ucast w :: c_long) = w"
    by (rule bit_word_eqI) (simp add: bit_unsigned_iff)
  then have c: "ucast (of_nat (unat w) :: c_long) = w" by simp
  have "of_char MKILLPROC \<noteq> (-1 :: int) \<and> of_char MKILLPROC \<noteq> (0 :: int) \<and>
      of_char MKILLPROC \<noteq> (of_char MQUIT :: int) \<and> of_char MKILLPROC \<noteq> (of_char MHELP :: int)"
    by (simp add: MKILLPROC_def MQUIT_def MHELP_def)
  then show "Kill w 15 \<in> set (fst (handle_key itv (of_char MKILLPROC) paused help (show_nat (unat w)) [] ok))"
    using w c by (simp add: handle_key_def Let_def case_prod_beta p getnumval_empty)
qed

theorem kill_targets_witness:
  "Kill (- 2) 15 \<in> set (fst (handle_key 1 (of_char MKILLPROC) False [] ''4294967294'' [] (\<lambda>p s. True)))"
proof -
  have "(- 2 :: c_int) = 4294967294" by simp
  then have "unat (- 2 :: c_int) = 4294967294" by simp
  moreover have "show_nat 4294967294 = ''4294967294''" by (simp add: show_nat.simps)
  ultimately show ?thesis
    using kill_targets [of "- 2" 15 1 0 False "[]" "[]" "[]" "\<lambda>p s. True"] by simp
qed

text \<open>C35: the layout of the screen, for a date and a time of the usual lengths: the header line fills the
  width exactly unless the node name is too long for it, then it is longer; the line of titles fills it
  exactly from 84 columns on and is one to nine characters longer below (81 on a terminal of 80);
  every process line whose cells fit their columns fills it exactly.\<close>

theorem screen_layout:
  assumes "LEAST_COLUMS \<le> COLS" and "length format1 = 10" and "length format2 = 8"
  shows "(length (screen_header COLS node format1 format2) = nat COLS \<longleftrightarrow> int (length node) + 37 \<le> COLS) \<and>
    length (screen_titles COLS) = nat COLS + (12 - nat (COLS div 7)) + (5 - nat (COLS div 7)) \<and>
    (list_all (\<lambda>x. int (length (show_fp 0 3 x)) \<le> COLS div 7)
        [er_percent r, er_ecpu r, er_edisk r, er_enet r, er_emem r] \<and>
      int (length (show_signed (er_pid r))) \<le> COLS div 7 \<and>
      er_cmd r = Some c \<and> int (length c) \<le> COLS - 6 * (COLS div 7) \<longrightarrow>
      length (screen_row COLS r) = nat COLS)"
proof (intro conjI impI)
  have c: "30 \<le> COLS" using assms(1) by (simp add: LEAST_COLUMS_def)
  show "length (screen_header COLS node format1 format2) = nat COLS \<longleftrightarrow> int (length node) + 37 \<le> COLS"
    using length_screen_header [OF assms(2,3), of COLS node] c by (auto simp: Let_def split: if_splits)
  obtain n where n: "COLS = int n" using c by (metis nonneg_int_cases order_trans zero_le_numeral)
  define w where "w = n div 7"
  then have d: "COLS div 7 = int w" by (simp add: n zdiv_int)
  have w: "4 \<le> w" "6 * w + 4 \<le> n" using c unfolding w_def n by presburger+
  have "nat (COLS - 6 * (COLS div 7)) = n - 6 * w" unfolding d unfolding n by linarith
  then have "length (screen_titles COLS) = 4 * w + max w 12 + max w 5 + (n - 6 * w)"
    using w by (simp add: screen_titles_def length_table_line d)
  then show "length (screen_titles COLS) = nat COLS + (12 - nat (COLS div 7)) + (5 - nat (COLS div 7))"
    using w unfolding d unfolding n by linarith
next
  assume f: "list_all (\<lambda>x. int (length (show_fp 0 3 x)) \<le> COLS div 7)
        [er_percent r, er_ecpu r, er_edisk r, er_enet r, er_emem r] \<and>
      int (length (show_signed (er_pid r))) \<le> COLS div 7 \<and>
      er_cmd r = Some c \<and> int (length c) \<le> COLS - 6 * (COLS div 7)"
  have "0 \<le> COLS" using assms(1) by (simp add: LEAST_COLUMS_def)
  then show "length (screen_row COLS r) = nat COLS"
    using f unfolding screen_row_def by (intro table_line_fills) auto
qed

theorem screen_layout_witness:
  "length (screen_titles 80) = 81 \<and> length (screen_header 80 ''node'' ''2010/06/04'' ''03:02:01'') = 80"
  using screen_layout [of 80 "''2010/06/04''" "''03:02:01''" "''node''" undefined undefined]
  by (simp add: LEAST_COLUMS_def)

text \<open>The help text advertises a pause key, but pressing it, like Control-L, only beeps.\<close>

lemma pause_key_dead:
  "MPAUSE \<in> set (map snd helptext) \<and>
   handle_key itv (of_char MPAUSE) paused help typed1 typed2 ok = ([Beep], Return 1) \<and>
   handle_key itv 12 paused help typed1 typed2 ok = ([Beep], Return 1)"
  by (simp add: helptext_def handle_key_def MPAUSE_def MQUIT_def MHELP_def MKILLPROC_def KEY_RESIZE_def)

text \<open>The elapsed time printed always adds up to the seconds given, and below 100 days it fits,
  with its terminator, in the 13 bytes its callers provide; a full hour is printed as 60 minutes.\<close>

lemma elapsed_time_text:
  assumes "0 \<le> v" and "v < 100 * DAYSECS"
  shows "sum_list (map (\<lambda>(n, u). n * unit_secs u) (elapsed_parts v)) = v \<and>
    length (val2elapstr v) < 13 \<and> val2elapstr 3600 = ''60m''"
proof -
  have "val2elapstr 3600 = ''60m''"
    by (simp add: val2elapstr_def elapsed_parts_def DAYSECS_def HOURSECS_def MINSECS_def show_int_def show_nat.simps)
  then show ?thesis using elapsed_sum [of v] elapsed_length [OF assms] by simp
qed

text \<open>The energy table has one row for each of the first \<open>amount\<close> processes of the list, at most
  40, in the order of the list.\<close>

lemma energy_table_rows:
  assumes "energy_table db fetch usable room interval now pst_list amount tr = Inr (de, rows, tr')"
  shows "map er_pid rows = map pi_pid (take (nat (min amount 40)) pst_list)"
proof -
  have step: "map er_pid (fst s') = map er_pid (fst s) @ [pi_pid p]"
    if "energy_row db fetch usable interval now et p s = Inr s'" for et p s s'
    using that by (auto simp: energy_row_def Let_def bindR_eq_Inr split: prod.splits)
  have all: "map er_pid (fst s') = map er_pid (fst s) @ map pi_pid ps"
    if "foldR (energy_row db fetch usable interval now et) ps s = Inr s'" for et ps s s'
    using that
  proof (induction ps arbitrary: s)
    case (Cons p ps)
    then obtain u where u: "energy_row db fetch usable interval now et p s = Inr u"
      "foldR (energy_row db fetch usable interval now et) ps u = Inr s'" by (auto simp: bindR_eq_Inr)
    show ?case using Cons.IH [OF u(2)] step [OF u(1)] by simp
  qed simp
  from assms obtain et tr2 where
    "foldR (energy_row db fetch usable interval now et)
      (take (nat (if amount > int SHOW_NUM then int SHOW_NUM else amount)) pst_list) ([], tr2) = Inr (rows, tr')"
    by (auto simp: energy_table_def Let_def bindR_eq_Inr)
  from all [OF this] show ?thesis by (simp add: SHOW_NUM_def min_def split: if_splits)
qed

text \<open>Storing the energy of a process always writes one byte past its allocation: the copy of the
  command line gets \<^verbatim>\<open>strlen\<close> bytes and needs one more, so with an allocator that gives exactly
  what was asked for it is undefined behaviour for every command line.\<close>

lemma energy_copy_overflow:
  "persists_process_energy db (\<lambda>n. n) now ecpu emem entw edisk (p\<lparr>pi_cmdline := Some c\<rparr>) tr =
    Inl (Undefined OutOfBounds)"
  by (simp add: persists_process_energy_def)

end
