(* ===== verification/Sessions.thy ===== *)
theory Sessions
  imports Display
begin

text \<open>
  What every operation of the program does to the history of database calls: it only adds to it, it
  keeps it well-formed, and it leaves no handle open unless a connection fails.  The relation is
  closed under sequencing, so it passes from the statements to the energy queries, the energy
  table and the screen.
\<close>

definition db_grows :: "mysql \<Rightarrow> db_log \<Rightarrow> db_log \<Rightarrow> bool" where
  "db_grows db tr tr' \<longleftrightarrow> (\<exists>es. tr' = tr @ es) \<and>
    (log_ok tr \<longrightarrow> log_ok tr' \<and> leaked tr \<subseteq> leaked tr' \<and>
       ((\<forall>l. mysql_real_connect db l) \<longrightarrow> leaked tr' = leaked tr))"

lemma db_grows_refl [simp]: "db_grows db tr tr"
  by (simp add: db_grows_def)

lemma db_grows_trans: "db_grows db tr tr1 \<Longrightarrow> db_grows db tr1 tr2 \<Longrightarrow> db_grows db tr tr2"
  by (auto simp: db_grows_def)

lemma db_grows_session: "db_grows db tr (tr @ [Init (inits tr), Query (inits tr) q rc, Close (inits tr)])"
  by (auto simp: db_grows_def session_facts)

lemma db_grows_failed: "\<not> mysql_real_connect db (tr @ [Init (inits tr)]) \<Longrightarrow> db_grows db tr (tr @ [Init (inits tr)])"
  by (auto simp: db_grows_def session_facts)

lemma db_grows_send: "send db q tr = Inr (rc, tr') \<Longrightarrow> db_grows db tr tr'"
  by (drule send_session) (auto simp: db_grows_session db_grows_failed split: if_splits)

lemma db_grows_insert_ps: "insert_ps db p tr = Inr (p', rc, tr') \<Longrightarrow> db_grows db tr tr'"
  by (auto simp: insert_ps_def create_conn_def Let_def bindR_eq_Inr db_grows_send db_grows_failed split: if_splits)

lemma db_grows_inserts:
  "insert_sys_info db st tr = Inr (rc, tr') \<Longrightarrow> db_grows db tr tr'"
  "insert_device_energy db de tr = Inr (rc, tr') \<Longrightarrow> db_grows db tr tr'"
  "insert_process_energy db pe tr = Inr (rc, tr') \<Longrightarrow> db_grows db tr tr'"
  by (simp_all add: insert_sys_info_def insert_device_energy_def insert_process_energy_def db_grows_send)

lemma db_grows_freeup_all: "freeup_all db now itv tr = Inr (rc, tr') \<Longrightarrow> db_grows db tr tr'"
  unfolding freeup_all_def freeup_ps_def freeup_sys_info_def
  by (auto simp: bindR_eq_Inr intro: db_grows_trans dest!: db_grows_send)

lemma db_grows_clean: "clean_stat_data db now tr = Inr tr' \<Longrightarrow> db_grows db tr tr'"
  by (auto simp: clean_stat_data_def bindR_eq_Inr dest: db_grows_freeup_all)

text \<open>The initialisation holds its connection open while the deletions use their own.\<close>

lemma db_grows_init:
  assumes "init_stat_data db now tr = Inr (r, tr')"
  shows "db_grows db tr tr'"
proof (cases "mysql_real_connect db (tr @ [Init (inits tr)])")
  case True
  let ?tr1 = "tr @ [Init (inits tr)]"
  obtain r2 tr2 where f: "freeup_all db now 0 ?tr1 = Inr (r2, tr2)" and tr': "tr' = tr2 @ [Close (inits tr)]"
    using assms True by (auto simp: init_stat_data_def create_conn_def Let_def bindR_eq_Inr)
  have g: "db_grows db ?tr1 tr2" using f by (rule db_grows_freeup_all)
  then obtain es where "tr2 = ?tr1 @ es" by (auto simp: db_grows_def)
  then have ext: "\<exists>es. tr' = tr @ es" by (simp add: tr')
  have "log_ok tr' \<and> leaked tr \<subseteq> leaked tr' \<and> ((\<forall>l. mysql_real_connect db l) \<longrightarrow> leaked tr' = leaked tr)"
    if ok: "log_ok tr"
  proof -
    have ok1: "log_ok ?tr1" and l1: "leaked ?tr1 = insert (inits tr) (leaked tr)"
      using session_facts(1) [OF ok] session_facts(2) by simp_all
    then have ok2: "log_ok tr2" and l2: "insert (inits tr) (leaked tr) \<subseteq> leaked tr2"
      and e: "(\<forall>l. mysql_real_connect db l) \<longrightarrow> leaked tr2 = insert (inits tr) (leaked tr)"
      using g by (simp_all add: db_grows_def)
    have c: "leaked tr' = leaked tr2 - {inits tr}" "log_ok tr'"
      using ok2 l2 by (auto simp: tr' leaked_def log_ok_def)
    then show ?thesis using l2 e leaked_bound [OF ok] by auto
  qed
  then show ?thesis using ext by (simp add: db_grows_def)
next
  case False
  then show ?thesis
    using assms db_grows_failed [OF False] by (auto simp: init_stat_data_def create_conn_def Let_def)
qed

section \<open>Energy queries\<close>

lemma db_grows_select: "select db fetch q step z tr = Inr (v, tr') \<Longrightarrow> db_grows db tr tr'"
  by (auto simp: select_def create_conn_def Let_def bindR_eq_Inr db_grows_failed db_grows_session split: if_splits)

lemma db_grows_energies:
  "CPUEnergy db fetch PID len now tr = Inr (v, tr') \<Longrightarrow> db_grows db tr tr'"
  "DiskEnergy db fetch PID len now tr = Inr (v, tr') \<Longrightarrow> db_grows db tr tr'"
  "NtwkEnergy db fetch PID len now tr = Inr (v, tr') \<Longrightarrow> db_grows db tr tr'"
  "MemoryEnergy db fetch PID len itv now tr = Inr (v, tr') \<Longrightarrow> db_grows db tr tr'"
  by (simp_all add: CPUEnergy_def DiskEnergy_def NtwkEnergy_def MemoryEnergy_def db_grows_select)

lemma db_grows_systemEnergy: "systemEnergy db fetch len now room tr = Inr (v, tr') \<Longrightarrow> db_grows db tr tr'"
  by (auto simp: systemEnergy_def db_grows_select split: if_splits)

section \<open>The screen\<close>

lemma db_grows_persist:
  "persists_process_energy db usable now a b c d p tr = Inr tr' \<Longrightarrow> db_grows db tr tr'"
  "persist_device_energy db de tr = Inr tr' \<Longrightarrow> db_grows db tr tr'"
  by (auto simp: persists_process_energy_def persist_device_energy_def bindR_eq_Inr
      split: option.splits if_splits dest: db_grows_inserts)

lemma db_grows_energy_row:
  assumes "energy_row db fetch usable itv now et p s = Inr s'"
  shows "db_grows db (snd s) (snd s')"
proof -
  obtain rows tr where s: "s = (rows, tr)" by (rule prod.exhaust)
  obtain e1 t1 e2 t2 e3 t3 e4 t4 t5 rows' where
    "CPUEnergy db fetch (pi_pid p) itv now tr = Inr (e1, t1)"
    "DiskEnergy db fetch (pi_pid p) itv now t1 = Inr (e2, t2)"
    "NtwkEnergy db fetch (pi_pid p) itv now t2 = Inr (e3, t3)"
    "MemoryEnergy db fetch (pi_pid p) itv itv now t3 = Inr (e4, t4)"
    "persists_process_energy db usable now e1 e4 e3 e2 p t4 = Inr t5" "s' = (rows', t5)"
    using assms by (auto simp: s energy_row_def Let_def bindR_eq_Inr)
  then show ?thesis
    by (simp add: s) (meson db_grows_energies db_grows_persist(1) db_grows_trans)
qed

lemma db_grows_foldR:
  assumes "\<And>x s s'. f x s = Inr s' \<Longrightarrow> db_grows db (snd s) (snd s')"
  shows "foldR f xs s = Inr s' \<Longrightarrow> db_grows db (snd s) (snd s')"
proof (induction xs arbitrary: s)
  case (Cons x xs)
  then obtain u where u: "f x s = Inr u" "foldR f xs u = Inr s'" by (auto simp: bindR_eq_Inr)
  show ?case using db_grows_trans [OF assms [OF u(1)] Cons.IH [OF u(2)]] .
qed simp

lemma db_grows_energy_table:
  assumes "energy_table db fetch usable room itv now pl amount tr = Inr (de, rows, tr')"
  shows "db_grows db tr tr'"
proof -
  obtain tr1 tr2 et where 1: "systemEnergy db fetch itv now room tr = Inr (de, tr1)"
    and 2: "persist_device_energy db de tr1 = Inr tr2"
    and 3: "foldR (energy_row db fetch usable itv now et)
      (take (nat (if amount > int SHOW_NUM then int SHOW_NUM else amount)) pl) ([], tr2) = Inr (rows, tr')"
    using assms by (auto simp: energy_table_def Let_def bindR_eq_Inr)
  have "db_grows db tr2 tr'"
    using db_grows_foldR [OF db_grows_energy_row 3] by simp
  then show ?thesis
    using db_grows_systemEnergy [OF 1] db_grows_persist(2) [OF 2] by (blast intro: db_grows_trans)
qed

lemma db_grows_show:
  assumes "show_proc_stat db fetch usable room ui localtime curtime itv pl amount now tr = Inr (scr, evs, texts, res, tr')"
  shows "db_grows db tr tr'"
  using assms
  by (auto simp: show_proc_stat_def Let_def bindR_eq_Inr case_prod_beta split: if_splits option.splits dest: db_grows_energy_table)

end
