(* ===== verification/Ptop.thy ===== *)
theory Ptop
  imports Display "HOL-Library.Transitive_Closure_Table"
begin

text \<open>
  The rest of \<^verbatim>\<open>ptop.c\<close>: start, main loop and stop.  The state collects the global variables and the
  locals of \<^verbatim>\<open>main_loop\<close>; one iteration of the loop is a function of what the system answers during
  it, and the loop is a step relation over such iterations (it only ends by leaving the program).
\<close>

section \<open>State and inputs\<close>

record ptop =
  sys_stats :: "sys_info list"
  pst_list :: "process_info list"
  tree :: avl
  pfs :: perf
  frs :: freq_state
  dbl_log :: db_log
  hz :: u32
  kb_shift :: u32
  tlm_kb :: u32
  cpufreq_stats :: bool
  interval :: c_int
  cpu_nr :: c_int
  screen :: bool
  cur :: nat
  cyc :: nat
  closed_fds :: "int list"

text \<open>The database, the allocator and the clock, which stay the same.\<close>

record config =
  c_db :: mysql
  c_fetch :: fetch
  c_usable :: "nat \<Rightarrow> nat"
  c_room :: nat
  c_localtime :: "c_long \<Rightarrow> tm option"

text \<open>What one iteration sees besides the process files.\<close>

record inputs =
  in_proc :: proc_env
  in_ctime :: c_long
  in_now :: c_long
  in_time :: u32
  in_freq_dir :: "string list option"
  in_freq_open :: "string \<Rightarrow> string option"
  in_wireless :: "string option"
  in_dev :: "string option"
  in_word :: buf
  in_name :: buf
  in_ui :: ui_env

definition CLEAN_INTERVAL :: nat where "CLEAN_INTERVAL = 31"

section \<open>Signals\<close>

datatype sig_event = SetHandler | SetAlarm c_int

definition alarm_handler :: "c_int \<Rightarrow> sig_event list" where
  "alarm_handler itv = [SetHandler, SetAlarm itv]"

section \<open>Start and stop\<close>

text \<open>
  \<open>page\<close>, \<open>ticks\<close> and \<open>nprocs\<close> are the answers of \<^verbatim>\<open>sysconf\<close>, \<open>now1\<close> and \<open>now2\<close> those of \<^verbatim>\<open>time\<close>.
\<close>

definition system_init ::
  "mysql \<Rightarrow> (string \<Rightarrow> string option) \<Rightarrow> perf_open \<Rightarrow> int \<Rightarrow> int \<Rightarrow> int \<Rightarrow> c_long \<Rightarrow> c_long \<Rightarrow> ptop \<Rightarrow> ptop res" where
  "system_init db fopen popen page ticks nprocs now1 now2 st =
    bindR (init_stat_data db now1 (dbl_log st)) (\<lambda>(r, tr1).
    if r = 0 then Inl (Exit 0)
    else bindR (get_cpu_nr nprocs (- 1)) (\<lambda>n.
      bindR (init_perf popen nprocs (pfs st)) (\<lambda>pf.
      bindR (clean_stat_data db now2 tr1) (\<lambda>tr2.
      Inr (st\<lparr>hz := get_HZ ticks, kb_shift := get_kb_shift page, cpufreq_stats := check_cpufreq_stats fopen,
              cpu_nr := n, sys_stats := [zero_sys_info, zero_sys_info, sys_stats st ! 2],
              pfs := pf, dbl_log := tr2\<rparr>)))))"

definition system_clean :: "mysql \<Rightarrow> c_long \<Rightarrow> ptop \<Rightarrow> ptop res" where
  "system_clean db now st =
    bindR (clean_stat_data db now (dbl_log st)) (\<lambda>tr.
    bindR (close_all_counters (tree st) (pfs st)) (\<lambda>(cl, pf).
    Inr (st\<lparr>dbl_log := tr, pfs := pf, closed_fds := closed_fds st @ cl\<rparr>)))"

text \<open>\<^verbatim>\<open>cleanstop\<close>: the last state and the exit code.\<close>

definition cleanstop :: "mysql \<Rightarrow> c_long \<Rightarrow> int \<Rightarrow> ptop \<Rightarrow> (ptop \<times> int) res" where
  "cleanstop db now exitcode st = bindR (system_clean db now st) (\<lambda>st'. Inr (st', exitcode))"

section \<open>One sample\<close>

definition read_system_stats ::
  "inputs \<Rightarrow> bool \<Rightarrow> perf \<Rightarrow> freq_state \<Rightarrow> sys_info \<Rightarrow> (freq_state \<times> sys_info) res" where
  "read_system_stats inp cpufreq pf fr sy =
    (let (fr', sy1) = read_cpufreq_stats (in_time inp) cpufreq (in_freq_dir inp) (in_freq_open inp) fr sy
     in bindR (stat_sysmem_stats (ev_read (in_proc inp)) pf (Some sy1)) (\<lambda>r.
        bindR (stat_sysnet_stats (in_wireless inp) (in_dev inp) (ev_line (in_proc inp)) (in_word inp) (in_name inp)
                 (case r of None \<Rightarrow> sy1 | Some sy2 \<Rightarrow> sy2)) (\<lambda>sy3. Inr (fr', sy3))))"

definition write_system_stats ::
  "mysql \<Rightarrow> nat \<Rightarrow> c_long \<Rightarrow> int \<Rightarrow> sys_info list \<Rightarrow> db_log \<Rightarrow> (sys_info list \<times> db_log) res" where
  "write_system_stats db cr time amount ss tr =
    (let prev = 1 - cr; now = (ss ! cr)\<lparr>si_time := ucast time\<rparr>; old = ss ! prev;
         st = now\<lparr>si_totalnetrcv := u64_subcount (si_totalnetrcv now) (si_totalnetrcv old),
                  si_totalnetsnd := u64_subcount (si_totalnetsnd now) (si_totalnetsnd old),
                  si_itv := ucast (u64_subcount (ucast (si_itv now)) (ucast (si_itv old))),
                  si_runtime := ucast (u64_subcount (ucast (si_runtime now)) (ucast (si_runtime old))),
                  si_memaccess := u64_subcount (si_memaccess now) (si_memaccess old),
                  si_active_process_num := of_int amount\<rparr>
     in bindR (insert_sys_info db st tr) (\<lambda>(rc, tr'). Inr (ss[cr := now, 2 := st], tr')))"

text \<open>The result also holds the tree and what the recursion changed.\<close>

definition write_process_stats ::
  "mysql \<Rightarrow> nat \<Rightarrow> c_long \<Rightarrow> ptop \<Rightarrow> sys_info list \<Rightarrow> avl \<Rightarrow> (int \<times> avl \<times> wstate) res" where
  "write_process_stats db cr time st ss t =
    (let itv = u64_subcount (ucast (si_runtime (ss ! cr))) (ucast (si_runtime (ss ! (1 - cr))));
         wp = \<lparr>wp_db = db, wp_hz = hz st, wp_tlmkb = tlm_kb st, wp_screen = screen st, wp_time = time, wp_itv = itv\<rparr>;
         s0 = \<lparr>w_sys = ss ! cr, w_top = pst_list st, w_idx = 0, w_log = dbl_log st, w_closed = closed_fds st\<rparr>
     in bindR (write_stat wp cr t s0) (\<lambda>(t', s). Inr (w_idx s - 1, t', s)))"

text \<open>The part of an iteration from the reset of the current totals to the system record.\<close>

definition sample :: "config \<Rightarrow> inputs \<Rightarrow> ptop \<Rightarrow> (int \<times> ptop) res" where
  "sample cf inp st =
    (let cr = cur st; ss0 = (sys_stats st)[cr := zero_sys_info]
     in bindR (read_process_stats (in_proc inp) (kb_shift st) (pfs st) cr (ss0 ! cr) (tree st)) (\<lambda>(sy1, t1).
        bindR (read_system_stats inp (cpufreq_stats st) (pfs st) (frs st) sy1) (\<lambda>(fr, sy2).
        let ss1 = ss0[cr := sy2]
        in bindR (write_process_stats (c_db cf) cr (in_ctime inp) st ss1 t1) (\<lambda>(amount, t2, w).
           bindR (write_system_stats (c_db cf) cr (in_ctime inp) amount (ss1[cr := w_sys w]) (w_log w)) (\<lambda>(ss2, tr).
           Inr (amount, st\<lparr>sys_stats := ss2, tree := t2, frs := fr, pst_list := w_top w, dbl_log := tr,
                closed_fds := w_closed w\<rparr>))))))"

section \<open>The loop\<close>

definition show_step :: "config \<Rightarrow> inputs \<Rightarrow> int \<Rightarrow> ptop \<Rightarrow> ptop res" where
  "show_step cf inp amount st =
    (if screen st \<and> cyc st mod 3 = 0 then
       bindR (show_proc_stat (c_db cf) (c_fetch cf) (c_usable cf) (c_room cf) (in_ui inp) (c_localtime cf)
                (in_now inp) (interval st) (pst_list st) amount (in_ctime inp) (dbl_log st))
         (\<lambda>(scr, evs, texts, res, tr).
           case res of Return n \<Rightarrow> Inr (st\<lparr>screen := scr, dbl_log := tr\<rparr>)
           | CleanStop n \<Rightarrow>
               bindR (cleanstop (c_db cf) (in_now inp) n (st\<lparr>dbl_log := tr\<rparr>)) (\<lambda>(st', code). Inl (Exit code)))
     else Inr st)"

definition purge_step :: "config \<Rightarrow> inputs \<Rightarrow> ptop \<Rightarrow> ptop res" where
  "purge_step cf inp st =
    (if cyc st mod CLEAN_INTERVAL = 0
     then bindR (freeup_all (c_db cf) (in_now inp) (of_nat CLEAN_INTERVAL) (dbl_log st)) (\<lambda>(r, tr).
            Inr (st\<lparr>dbl_log := tr\<rparr>))
     else Inr st)"

definition iteration :: "config \<Rightarrow> inputs \<Rightarrow> ptop \<Rightarrow> ptop res" where
  "iteration cf inp st =
    bindR (sample cf inp st) (\<lambda>(amount, st1).
    bindR (show_step cf inp amount st1) (\<lambda>st2.
    bindR (purge_step cf inp st2) (\<lambda>st3.
    Inr (st3\<lparr>cyc := cyc st3 + 1, cur := 1 - cur st3\<rparr>))))"

inductive loop_step :: "config \<Rightarrow> ptop \<Rightarrow> ptop \<Rightarrow> bool" for cf where
  step: "iteration cf inp st = Inr st' \<Longrightarrow> loop_step cf st st'"

inductive reachable :: "config \<Rightarrow> ptop \<Rightarrow> ptop \<Rightarrow> bool" for cf st0 where
  start: "reachable cf st0 st0"
| more: "reachable cf st0 st \<Longrightarrow> loop_step cf st st' \<Longrightarrow> reachable cf st0 st'"

inductive_cases loop_stepE: "loop_step cf st st'"

text \<open>The state before \<^verbatim>\<open>main\<close> runs: the initial values of the globals, with the argument's interval.\<close>

definition main_interval :: "nat \<Rightarrow> string \<Rightarrow> c_int" where
  "main_interval argc argv1 =
    (let i = (if argc \<noteq> 2 then 1 else atoi argv1) in if sint i \<le> 0 then 1 else i)"

definition globals0 :: "nat \<Rightarrow> string \<Rightarrow> ptop" where
  "globals0 argc argv1 =
    \<lparr>sys_stats = replicate 3 zero_sys_info, pst_list = replicate 41 zero_process_info, tree = NULL, pfs = perf0,
     frs = freq0, dbl_log = [], hz = 0, kb_shift = 0, tlm_kb = 0, cpufreq_stats = False,
     interval = main_interval argc argv1, cpu_nr = 0, screen = True, cur = 1, cyc = 1, closed_fds = []\<rparr>"

text \<open>\<^verbatim>\<open>main\<close> up to the loop, with the banner it prints; \<open>uts\<close> is what \<^verbatim>\<open>uname\<close> answers.\<close>

definition main_start ::
  "mysql \<Rightarrow> (string \<Rightarrow> string option) \<Rightarrow> perf_open \<Rightarrow> int \<Rightarrow> int \<Rightarrow> int \<Rightarrow> c_long \<Rightarrow> c_long \<Rightarrow> c_long \<Rightarrow>
   (c_long \<Rightarrow> tm option) \<Rightarrow> string option \<Rightarrow> (string \<Rightarrow> tm \<Rightarrow> string) \<Rightarrow> string \<times> string \<times> string \<times> string \<Rightarrow>
   nat \<Rightarrow> string \<Rightarrow> (string \<times> ptop) res" where
  "main_start db fopen popen page ticks nprocs now1 now2 now3 localtime env strftime uts argc argv1 =
    bindR (system_init db fopen popen page ticks nprocs now1 now2 (globals0 argc argv1)) (\<lambda>st.
    bindR (get_localtime now3 localtime) (\<lambda>(rectime, timer).
    case uts of (sysname, release, nodename, machine) \<Rightarrow>
      Inr (fst (print_gal_header env strftime rectime sysname release nodename machine (cpu_nr st)), st)))"

text \<open>The energies \<^verbatim>\<open>test\<close> would print (its only call is commented out).\<close>

definition test ::
  "mysql \<Rightarrow> fetch \<Rightarrow> nat \<Rightarrow> c_int \<Rightarrow> process_info list \<Rightarrow> int \<Rightarrow> c_long \<Rightarrow> db_log \<Rightarrow>
   (device_energy \<times> erow list \<times> db_log) res" where
  "test db fetch room itv pl amount now tr =
    (let amount = (if amount > int SHOW_NUM then int SHOW_NUM else amount)
     in bindR (systemEnergy db fetch itv now room tr) (\<lambda>(pe, tr1).
        let etotalsys = fadd f32 (fadd f32 (fadd f32 (de_ecpu pe) (de_edisk pe)) (de_emem pe)) (de_enet pe)
        in bindR (foldR (\<lambda>p (rows, tr).
             bindR (CPUEnergy db fetch (pi_pid p) itv now tr) (\<lambda>(ecpu, tr).
             bindR (DiskEnergy db fetch (pi_pid p) itv now tr) (\<lambda>(edisk, tr).
             bindR (NtwkEnergy db fetch (pi_pid p) itv now tr) (\<lambda>(entw, tr).
             bindR (MemoryEnergy db fetch (pi_pid p) itv itv now tr) (\<lambda>(emem, tr).
             let eall = fadd f32 (fadd f32 ecpu edisk) emem;
                 percent = (if 0 < etotalsys then fmul f32 (fdiv f32 eall etotalsys) (fofint f32 100) else 0)
             in Inr (rows @ [\<lparr>er_pid = pi_pid p, er_percent = percent, er_ecpu = ecpu, er_edisk = edisk,
                   er_enet = entw, er_emem = emem, er_cmd = pi_cmdline p\<rparr>], tr))))))
             (take (nat amount) pl) ([], tr1)) (\<lambda>(rows, tr2). Inr (pe, rows, tr2))))"

section \<open>The invariant of the loop\<close>

text \<open>Every node of the tree has both samples allocated.\<close>

definition sampled :: "avl \<Rightarrow> bool" where
  "sampled t \<longleftrightarrow> list_all (\<lambda>(k, f, p). fst p \<noteq> None \<and> snd p \<noteq> None) (entries t)"

definition ptop_inv :: "ptop \<Rightarrow> bool" where
  "ptop_inv st \<longleftrightarrow> length (sys_stats st) = 3 \<and> length (pst_list st) = 41 \<and> avl_inv (tree st) \<and>
     sampled (tree st) \<and> perf_inv (pfs st) \<and> cur st = cyc st mod 2 \<and> 1 \<le> sint (interval st)"

lemma sampled_simps [simp]:
  "sampled NULL"
  "sampled (AvlNode e f l r h p) \<longleftrightarrow> fst p \<noteq> None \<and> snd p \<noteq> None \<and> sampled l \<and> sampled r"
  by (auto simp: sampled_def)

lemma sampled_lookup:
  assumes "ordered t"
  shows "sampled t \<longleftrightarrow> (\<forall>k f p. lookup t k = Some (f, p) \<longrightarrow> fst p \<noteq> None \<and> snd p \<noteq> None)"
  using assms
proof (induction t)
  case NULL
  then show ?case by simp
next
  case (AvlNode e f l r h p)
  have l: "\<forall>k v. lookup l k = Some v \<longrightarrow> k < e" and r: "\<forall>k v. lookup r k = Some v \<longrightarrow> e < k"
    using AvlNode.prems dom_lookup [of l] dom_lookup [of r] by auto
  show ?case
  proof
    assume "sampled (AvlNode e f l r h p)"
    then show "\<forall>k f' p'. lookup (AvlNode e f l r h p) k = Some (f', p') \<longrightarrow> fst p' \<noteq> None \<and> snd p' \<noteq> None"
      using AvlNode by (auto split: if_splits)
  next
    assume a: "\<forall>k f' p'. lookup (AvlNode e f l r h p) k = Some (f', p') \<longrightarrow> fst p' \<noteq> None \<and> snd p' \<noteq> None"
    have "sampled l"
      using AvlNode a l by (metis (no_types, lifting) lookup_Node ordered.simps(2))
    moreover have "sampled r"
      using AvlNode a r by (metis (no_types, lifting) lookup_Node ordered.simps(2) order_less_asym)
    moreover have "lookup (AvlNode e f l r h p) e = Some (f, p)" using AvlNode.prems by simp
    then have "fst p \<noteq> None \<and> snd p \<noteq> None" using a by blast
    ultimately show "sampled (AvlNode e f l r h p)" by simp
  qed
qed

lemma read_into_sampled:
  assumes "read_into ev kb pf cr q (f, p) = Inr (f', p')" and "fst p \<noteq> None" and "snd p \<noteq> None"
  shows "fst p' \<noteq> None \<and> snd p' \<noteq> None"
  using assms
  by (auto simp: read_into_def pst_set_def bindR_eq_Inr split: option.splits)

lemma visit_pid_sampled:
  assumes "avl_inv t" and "sampled t" and "visit_pid ev kb pf cr q t = Inr t'"
  shows "avl_inv t' \<and> sampled t' \<and> sint q \<in> keys t' \<and> keys t \<subseteq> keys t'"
proof -
  have o: "ordered t" using assms(1) by (simp add: avl_inv_def)
  show ?thesis
  proof (rule avl_table.visit_cases [OF assms(1) assms(3) [unfolded visit_pid_def]])
    fix v v'
    assume v: "v = (case lookup t (sint q) of None \<Rightarrow> (- 1, fresh_samples) | Some w \<Rightarrow> w)"
      and g: "read_into ev kb pf cr q v = Inr v'" and i: "avl_inv t'"
      and m: "lookup t' = (lookup t)(sint q \<mapsto> v')"
    obtain f p where fp: "v = (f, p)" by (rule prod.exhaust)
    obtain f' p' where fp': "v' = (f', p')" by (rule prod.exhaust)
    have "fst p \<noteq> None \<and> snd p \<noteq> None"
      using v fp assms(2) sampled_lookup [OF o] by (cases p; cases "lookup t (sint q)") auto
    then have "fst p' \<noteq> None \<and> snd p' \<noteq> None" using read_into_sampled g fp fp' by simp
    moreover have "ordered t'" using i by (simp add: avl_inv_def)
    ultimately have "sampled t'"
      using m fp' assms(2) sampled_lookup [OF o] sampled_lookup [of t'] by auto
    moreover have "keys t' = insert (sint q) (keys t)"
      using m dom_lookup [of t] dom_lookup [of t'] by auto
    ultimately show ?thesis using i by auto
  qed
qed

lemma visits_sampled:
  assumes "avl_inv t" and "sampled t" and "foldR (visit_pid ev kb pf cr) qs t = Inr t'"
  shows "avl_inv t' \<and> sampled t'"
  using assms
proof (induction qs arbitrary: t)
  case (Cons q qs)
  then obtain u where "visit_pid ev kb pf cr q t = Inr u" "foldR (visit_pid ev kb pf cr) qs u = Inr t'"
    by (auto simp: bindR_eq_Inr)
  then show ?case using Cons visit_pid_sampled by blast
qed simp

lemma read_process_stats_sampled:
  "avl_inv t \<Longrightarrow> sampled t \<Longrightarrow> read_process_stats ev kb pf cr sy t = Inr (sy', t') \<Longrightarrow> avl_inv t' \<and> sampled t'"
proof -
  assume t: "avl_inv t" "sampled t" and run: "read_process_stats ev kb pf cr sy t = Inr (sy', t')"
  obtain ds where "foldR (visit_pid ev kb pf cr) (pids_of ds) t = Inr t'"
    using run by (auto simp: read_process_stats_def bindR_eq_Inr split: option.splits)
  then show ?thesis using t by (intro visits_sampled)
qed

text \<open>Visiting a process looks up or makes its node and then reads into it.\<close>

lemma visit_pid_reads:
  assumes "avl_inv t" and "sampled t" and "\<And>i. ev_malloc ev i"
  obtains f p t1 where "fst p \<noteq> None" and "snd p \<noteq> None" and
    "visit_pid ev kb pf cr q t = bindR (read_into ev kb pf cr q (f, p)) (\<lambda>v'. Inr (update_at (sint q) (\<lambda>_. v') t1))"
proof -
  let ?x = "sint q"
  have o: "ordered t" and b: "balanced t" using assms(1) by (simp_all add: avl_inv_def)
  show ?thesis
  proof (cases "lookup t ?x")
    case None
    then have nk: "?x \<notin> keys t" using dom_lookup [of t] by (metis domIff)
    obtain t' np where i: "insert_avl (ev_malloc ev) ?x (- 1) t = Inr (t', np)"
      using insert_avl_grown [where malloc_ok = "ev_malloc ev" and x = ?x and fd = "- 1", OF assms(3) b] by blast
    then have np: "np = Some ?x" using insert_avl_position [OF o i] nk by simp
    have "avl_inv t'" using insert_avl_inv [OF assms(1) i] .
    then have "find_contents ?x t' = Some (- 1, fresh_samples)"
      using insert_avl_lookup [OF assms(1) i] nk by (simp add: find_contents_lookup avl_inv_def)
    then show ?thesis
      using that [of fresh_samples "- 1" t'] None i np o
      by (simp add: visit_pid_def visit_def find_contents_lookup)
  next
    case (Some w)
    obtain f p where w: "w = (f, p)" by (rule prod.exhaust)
    have "fst p \<noteq> None \<and> snd p \<noteq> None" using sampled_lookup [OF o] assms(2) Some w by blast
    then show ?thesis
      using that [of p f t] Some w o by (simp add: visit_pid_def visit_def find_contents_lookup)
  qed
qed

lemma visit_no_smaps:
  assumes "avl_inv t" and "sampled t" and "\<And>i. ev_malloc ev i"
    and "ev_stat1 ev q = Some f1" and "ev_stat2 ev q = Some f2" and "ev_status ev q = Some f3"
    and "ev_io ev q = Some f4" and "ev_smaps ev q = None"
  shows "visit_pid ev kb pf cr q t = Inl (Exit 2)"
proof -
  obtain f p t1 where p: "fst p \<noteq> None" "snd p \<noteq> None" and v:
    "visit_pid ev kb pf cr q t = bindR (read_into ev kb pf cr q (f, p)) (\<lambda>v'. Inr (update_at (sint q) (\<lambda>_. v') t1))"
    using visit_pid_reads [OF assms(1-3)] .
  obtain a b where ab: "pst_get cr p = Some a" "pst_get (1 - cr) p = Some b"
    using p by (cases "cr = 0") (auto simp: pst_get_def)
  obtain r1 p1 where r: "read_proc_pid_stat kb (ev_comm0 ev) (ev_line ev) (Some f1) (Some f2) q zero_pid_stats = (r1, p1)"
    by (rule prod.exhaust)
  then have "r1 = 0"
    by (auto simp: read_proc_pid_stat_def Let_def split: option.splits)
  with r have "read_pid_stats ev kb pf q f (Some b) = Inl (Exit 2)"
    by (simp add: read_pid_stats_def assms(4-8) read_proc_pid_status_def read_proc_pid_io_def is_active_Some
        read_proc_pid_mem_def read_smaps_def)
  then show ?thesis using ab by (simp add: v read_into_def)
qed

section \<open>The writing pass, with samples and ranks\<close>

text \<open>What holds of the state of the recursion: the list is ranked up to the number of listed processes.\<close>

definition ranked :: "wstate \<Rightarrow> bool" where
  "ranked s \<longleftrightarrow> 0 \<le> w_idx s \<and> top_ok (nat (min (w_idx s) 40)) (w_top s)"

lemma write_node_sampled:
  "write_node wp cr (f, p) s = Inr ((f', p'), s') \<Longrightarrow> fst p \<noteq> None \<and> snd p \<noteq> None \<Longrightarrow>
    fst p' \<noteq> None \<and> snd p' \<noteq> None"
  by (auto simp: write_node_def clear_position_def pst_set_def Let_def bindR_eq_Inr
      split: if_splits option.splits prod.splits)

lemma write_node_length:
  assumes "write_node wp cr n s = Inr (n', s')" and "length (w_top s) = 41"
  shows "length (w_top s') = 41"
proof -
  have "length (add_higher_process_info it k l) = length l" for it k l
  proof -
    have "length (snd (shift_loop it k l)) = length l"
      by (induction it k l rule: shift_loop.induct) auto
    then show ?thesis by (simp add: add_higher_process_info_def split: prod.split) (metis snd_conv)
  qed
  then show ?thesis using assms
    by (auto simp: write_node_def clear_position_def Let_def bindR_eq_Inr split: if_splits option.splits prod.splits)
qed

lemma process_rates_cpu: "itv \<noteq> 0 \<Longrightarrow> pi_cpu (process_rates hzv tlm time itv qi qj) \<noteq> NaN"
  using share_fnn [of itv "u64_subcount (utime qi) (utime qj) + u64_subcount (stime qi) (stime qj)"]
  by (auto simp: process_rates_def Let_def fnn_def)

lemma rank_one:
  assumes "ranked s" and "pi_cpu it \<noteq> NaN"
  shows "ranked (s\<lparr>w_top := add_higher_process_info it (nat (if w_idx s \<ge> int SHOW_NUM then int SHOW_NUM else w_idx s)) (w_top s),
    w_idx := w_idx s + 1\<rparr>)"
proof (cases "w_idx s \<ge> 40")
  case True
  then have "nat (min (w_idx s) 40) = 40" "nat (min (w_idx s + 1) 40) = 40" by simp_all
  moreover have "length (w_top s) = 41" using assms(1) by (simp add: ranked_def top_ok_def)
  ultimately show ?thesis
    using assms True add_full [of "w_top s" it] by (simp add: ranked_def SHOW_NUM_def)
next
  case False
  then have n: "nat (min (w_idx s) 40) = nat (w_idx s)" "nat (min (w_idx s + 1) 40) = Suc (nat (w_idx s))"
    using assms(1) by (auto simp: ranked_def)
  have "top_ok (Suc (nat (w_idx s))) (add_higher_process_info it (nat (w_idx s)) (w_top s))"
    using assms n False by (intro add_top_ok) (auto simp: ranked_def)
  then show ?thesis using assms n False by (simp add: ranked_def SHOW_NUM_def)
qed

lemma write_node_ranked:
  assumes "write_node wp cr n s = Inr (n', s')" and "ranked s" and "wp_itv wp \<noteq> 0"
  shows "ranked s'"
proof -
  obtain f p where n: "n = (f, p)" by (rule prod.exhaust)
  have keep: "ranked (s\<lparr>w_closed := c\<rparr>)" "ranked (s\<lparr>w_sys := a, w_top := w_top s, w_idx := w_idx s, w_log := b\<rparr>)" for a b c
    using assms(2) by (simp_all add: ranked_def)
  have add: "ranked (s\<lparr>w_sys := a, w_top := add_higher_process_info (process_rates hzv tlm time (wp_itv wp) x y)
      (nat (if w_idx s \<ge> int SHOW_NUM then int SHOW_NUM else w_idx s)) (w_top s), w_idx := w_idx s + 1, w_log := b\<rparr>)"
    for a b hzv tlm time x y
    using rank_one [OF assms(2) process_rates_cpu [OF assms(3)], of hzv tlm time x y]
    by (simp add: ranked_def)
  show ?thesis
    using assms(1,2) keep add
    by (auto simp: n write_node_def clear_position_def Let_def bindR_eq_Inr
        split: if_splits option.splits prod.splits)
qed

lemma write_stat_keeps:
  assumes "\<And>n s n' s'. write_node wp cr n s = Inr (n', s') \<Longrightarrow> Q s \<Longrightarrow> Q s'"
  shows "write_stat wp cr t s = Inr (t', s') \<Longrightarrow> Q s \<Longrightarrow> Q s'"
proof (induction t arbitrary: s t' s')
  case (AvlNode e f l r h p)
  from AvlNode.prems(1) obtain f' p' s1 l' s2 r' where
    1: "write_node wp cr (f, p) s = Inr ((f', p'), s1)"
    and l: "(if l = NULL then Inr (NULL, s1) else write_stat wp cr l s1) = Inr (l', s2)"
    and r: "(if r = NULL then Inr (NULL, s2) else write_stat wp cr r s2) = Inr (r', s')"
    by (auto simp: bindR_eq_Inr)
  have "Q s1" using assms 1 AvlNode.prems(2) by blast
  then have "Q s2" using AvlNode.IH(1) [of s1] l by (auto split: if_splits)
  then show ?case using AvlNode.IH(2) [of s2] r by (auto split: if_splits)
qed simp

lemma write_stat_sampled:
  "write_stat wp cr t s = Inr (t', s') \<Longrightarrow> sampled t \<Longrightarrow> sampled t'"
proof (induction t arbitrary: s t' s')
  case (AvlNode e f l r h p)
  from AvlNode.prems(1) obtain f' p' s1 l' s2 r' where
    1: "write_node wp cr (f, p) s = Inr ((f', p'), s1)"
    and l: "(if l = NULL then Inr (NULL, s1) else write_stat wp cr l s1) = Inr (l', s2)"
    and r: "(if r = NULL then Inr (NULL, s2) else write_stat wp cr r s2) = Inr (r', s')"
    and t': "t' = AvlNode e f' l' r' h p'"
    by (auto simp: bindR_eq_Inr)
  have "sampled l'" using AvlNode.IH(1) [of s1] AvlNode.prems(2) l by (auto split: if_splits)
  moreover have "sampled r'" using AvlNode.IH(2) [of s2] AvlNode.prems(2) r by (auto split: if_splits)
  moreover have "fst p' \<noteq> None \<and> snd p' \<noteq> None"
    using write_node_sampled [OF 1] AvlNode.prems(2) by simp
  ultimately show ?case by (simp add: t')
qed simp

section \<open>No NULL pointer is followed\<close>

definition null_free :: "'a res \<Rightarrow> bool" where
  "null_free r \<longleftrightarrow> (case r of Inl (Undefined NullDeref) \<Rightarrow> False | _ \<Rightarrow> True)"

lemma null_free_simps [simp]:
  "null_free (Inr x)" "null_free (Inl (Exit n))" "null_free (Inl (Undefined OutOfBounds))"
  "null_free (Inl (Undefined Uninitialised))" "\<not> null_free (Inl (Undefined NullDeref))"
  by (simp_all add: null_free_def)

lemma null_free_Inl [simp]: "null_free (Inl e :: 'a res) \<longleftrightarrow> e \<noteq> Undefined NullDeref"
  by (simp add: null_free_def split: stop.split ub.split)

lemma null_free_bind: "null_free r \<Longrightarrow> (\<And>x. r = Inr x \<Longrightarrow> null_free (f x)) \<Longrightarrow> null_free (bindR r f)"
  by (cases r) auto

lemma null_free_foldR:
  assumes "\<And>x s. x \<in> set xs \<Longrightarrow> Q s \<Longrightarrow> null_free (f x s)" and "\<And>x s s'. x \<in> set xs \<Longrightarrow> Q s \<Longrightarrow> f x s = Inr s' \<Longrightarrow> Q s'"
    and "Q s"
  shows "null_free (foldR f xs s)"
  using assms
proof (induction xs arbitrary: s)
  case (Cons x xs)
  show ?case unfolding foldR.simps
  proof (rule null_free_bind)
    show "null_free (f x s)" using Cons.prems by simp
    fix u assume u: "f x s = Inr u"
    have "Q u" using Cons.prems(2) [OF _ Cons.prems(3) u] by simp
    then show "null_free (foldR f xs u)"
      using Cons.prems(1,2) by (intro Cons.IH) (simp_all, blast)
  qed
qed simp

lemma nf_read_pid_stats: "null_free (read_pid_stats ev kb pf q fd (Some prev))"
proof -
  have m: "null_free (read_proc_pid_mem popen rd pf sm mi buff sc q p fd act)" for popen rd sm mi buff sc p act
    unfolding read_proc_pid_mem_def
    by (intro null_free_bind)
      (auto simp: read_smaps_def total_active_memory_def create_perf_stat_counter_def Let_def split: option.split prod.split)
  show ?thesis
    unfolding read_pid_stats_def Let_def
    by (auto simp: is_active_Some split: prod.split intro!: null_free_bind m)
qed

lemma nf_visit_pid:
  assumes "avl_inv t" and "sampled t" and "\<And>i. ev_malloc ev i"
  shows "null_free (visit_pid ev kb pf cr q t)"
proof -
  obtain f p t1 where p: "fst p \<noteq> None" "snd p \<noteq> None" and v:
    "visit_pid ev kb pf cr q t = bindR (read_into ev kb pf cr q (f, p)) (\<lambda>v'. Inr (update_at (sint q) (\<lambda>_. v') t1))"
    using visit_pid_reads [OF assms] .
  have "null_free (read_into ev kb pf cr q (f, p))"
    using p by (auto simp: read_into_def pst_get_def split: option.split intro!: null_free_bind nf_read_pid_stats)
  then show ?thesis by (simp add: v null_free_bind)
qed

lemma nf_read_process_stats:
  assumes "avl_inv t" and "sampled t" and "\<And>i. ev_malloc ev i"
  shows "null_free (read_process_stats ev kb pf cr sy t)"
proof -
  have "null_free (foldR (visit_pid ev kb pf cr) qs t)" for qs
  proof (rule null_free_foldR [where Q = "\<lambda>t. avl_inv t \<and> sampled t"])
    show "null_free (visit_pid ev kb pf cr q u)" if "avl_inv u \<and> sampled u" for q u
      using that assms(3) by (intro nf_visit_pid) simp_all
    show "avl_inv u' \<and> sampled u'" if "avl_inv u \<and> sampled u" "visit_pid ev kb pf cr q u = Inr u'" for q u u'
      using visit_pid_sampled [of u ev kb pf cr q u'] that by simp
    show "avl_inv t \<and> sampled t" using assms by simp
  qed
  then show ?thesis
    unfolding read_process_stats_def
    by (simp add: read_stat_cpu_def Let_def null_free_bind split: option.split prod.split)
qed

lemma nf_wireless: "null_free (wireless_loop ls b w)"
  by (induction ls b w rule: wireless_loop.induct)
    (auto simp: Let_def split: option.split intro!: null_free_bind)

lemma nf_read_system_stats: "null_free (read_system_stats inp cf pf fr sy)"
proof -
  have "null_free (read_cpu_counter rd pf)" for rd
    unfolding read_cpu_counter_def by (intro null_free_foldR [where Q = "\<lambda>_. True"]) auto
  then have "null_free (stat_sysmem_stats rd pf x)" for rd x
    unfolding stat_sysmem_stats_def by (auto split: option.split intro!: null_free_bind)
  moreover have "null_free (stat_sysnet_stats a b c d e f)" for a b c d e f
    unfolding stat_sysnet_stats_def Let_def
    by (auto split: option.split prod.split intro!: null_free_bind nf_wireless)
  ultimately show ?thesis
    unfolding read_system_stats_def Let_def by (auto split: prod.split intro!: null_free_bind)
qed

lemma nf_send: "null_free (send db q tr)"
  by (simp add: send_def Let_def split: prod.split)

lemma nf_insert_ps: "null_free (insert_ps db q tr)"
  unfolding insert_ps_def Let_def by (auto split: prod.split intro!: null_free_bind nf_send)

lemma nf_write_node:
  assumes "fst p \<noteq> None \<and> snd p \<noteq> None"
  shows "null_free (write_node wp cr (f, p) s)"
proof -
  obtain a b where p: "p = (Some a, Some b)" using assms by (cases p) auto
  have ps: "\<exists>x y. pst_get cr p = Some x \<and> pst_get (1 - cr) p = Some y" by (simp add: p pst_get_def)
  then obtain x y where xy: "pst_get cr p = Some x" "pst_get (1 - cr) p = Some y" by blast
  show ?thesis
    using xy by (auto simp: write_node_def p [symmetric] is_active_Some Let_def clear_position_def
        intro!: null_free_bind nf_insert_ps)
qed

lemma nf_write_stat: "sampled t \<Longrightarrow> t \<noteq> NULL \<Longrightarrow> null_free (write_stat wp cr t s)"
proof (induction t arbitrary: s)
  case (AvlNode e f l r h p)
  then have p: "fst p \<noteq> None \<and> snd p \<noteq> None" by simp
  have l: "null_free (if l = NULL then Inr (NULL, s) else write_stat wp cr l s)" for s
    using AvlNode.IH(1) AvlNode.prems by simp
  have r: "null_free (if r = NULL then Inr (NULL, s) else write_stat wp cr r s)" for s
    using AvlNode.IH(2) AvlNode.prems by simp
  have n: "null_free (write_node wp cr (f, p) s)" for s by (rule nf_write_node [OF p])
  show ?case unfolding write_stat.simps
    by (rule null_free_bind [OF n], simp only: split_paired_all prod.case, rule null_free_bind [OF l],
        simp only: split_paired_all prod.case, rule null_free_bind [OF r], simp add: split_paired_all)
qed simp

lemma nf_write_system_stats: "null_free (write_system_stats db cr time amount ss tr)"
  unfolding write_system_stats_def Let_def insert_sys_info_def
  by (auto split: prod.split intro!: null_free_bind nf_send)

section \<open>One sample keeps the invariant\<close>

lemma write_process_stats_facts:
  assumes "avl_inv t" and "sampled t" and "length (pst_list st) = 41"
    and "write_process_stats db cr time st ss t = Inr (amount, t', w)"
  shows "avl_inv t' \<and> sampled t' \<and> keys t' = keys t \<and> length (w_top w) = 41 \<and> amount = w_idx w - 1"
proof -
  obtain wp s0 where run: "write_stat wp cr t s0 = Inr (t', w)" and top: "w_top s0 = pst_list st"
    and am: "amount = w_idx w - 1"
    using assms(4) by (auto simp: write_process_stats_def Let_def bindR_eq_Inr)
  have "length (w_top w) = 41"
  proof (rule write_stat_keeps [where Q = "\<lambda>s. length (w_top s) = 41", OF _ run])
    show "length (w_top s') = 41" if "write_node wp cr n s = Inr (n', s')" "length (w_top s) = 41" for n s n' s'
      using write_node_length that .
    show "length (w_top s0) = 41" using top assms(3) by simp
  qed
  then show ?thesis
    using write_stat_shape [OF run] write_stat_sampled [OF run assms(2)] assms(1) am by (simp add: avl_inv_def)
qed

lemma sampleE:
  assumes "sample cf inp st = Inr (amount, st')"
  obtains sy1 t1 fr sy2 t2 w ss2 tr where
    "read_process_stats (in_proc inp) (kb_shift st) (pfs st) (cur st) (((sys_stats st)[cur st := zero_sys_info]) ! cur st)
       (tree st) = Inr (sy1, t1)"
    "write_process_stats (c_db cf) (cur st) (in_ctime inp) st
       (((sys_stats st)[cur st := zero_sys_info])[cur st := sy2]) t1 = Inr (amount, t2, w)"
    "write_system_stats (c_db cf) (cur st) (in_ctime inp) amount
       ((((sys_stats st)[cur st := zero_sys_info])[cur st := sy2])[cur st := w_sys w]) (w_log w) = Inr (ss2, tr)"
    "length ss2 = length (sys_stats st)"
    "st' = st\<lparr>sys_stats := ss2, tree := t2, frs := fr, pst_list := w_top w, dbl_log := tr, closed_fds := w_closed w\<rparr>"
proof -
  obtain sy1 t1 fr sy2 t2 w ss2 tr where
    a: "read_process_stats (in_proc inp) (kb_shift st) (pfs st) (cur st) (((sys_stats st)[cur st := zero_sys_info]) ! cur st)
       (tree st) = Inr (sy1, t1)"
    and b: "write_process_stats (c_db cf) (cur st) (in_ctime inp) st
       (((sys_stats st)[cur st := zero_sys_info])[cur st := sy2]) t1 = Inr (amount, t2, w)"
    and c: "write_system_stats (c_db cf) (cur st) (in_ctime inp) amount
       ((((sys_stats st)[cur st := zero_sys_info])[cur st := sy2])[cur st := w_sys w]) (w_log w) = Inr (ss2, tr)"
    and d: "st' = st\<lparr>sys_stats := ss2, tree := t2, frs := fr, pst_list := w_top w, dbl_log := tr, closed_fds := w_closed w\<rparr>"
    using assms by (auto simp: sample_def Let_def bindR_eq_Inr)
  have "length ss2 = length (sys_stats st)"
    using c by (auto simp: write_system_stats_def Let_def bindR_eq_Inr)
  then show ?thesis using that a b c d by blast
qed

lemma sample_inv:
  assumes "ptop_inv st" and "sample cf inp st = Inr (amount, st')"
  shows "ptop_inv st' \<and> keys (tree st) \<subseteq> keys (tree st') \<and> cyc st' = cyc st \<and> cur st' = cur st \<and>
    interval st' = interval st"
proof -
  obtain sy1 t1 fr sy2 t2 w ss2 tr where
    a: "read_process_stats (in_proc inp) (kb_shift st) (pfs st) (cur st) (((sys_stats st)[cur st := zero_sys_info]) ! cur st)
       (tree st) = Inr (sy1, t1)"
    and b: "write_process_stats (c_db cf) (cur st) (in_ctime inp) st
       (((sys_stats st)[cur st := zero_sys_info])[cur st := sy2]) t1 = Inr (amount, t2, w)"
    and e: "write_system_stats (c_db cf) (cur st) (in_ctime inp) amount
       ((((sys_stats st)[cur st := zero_sys_info])[cur st := sy2])[cur st := w_sys w]) (w_log w) = Inr (ss2, tr)"
    and c: "length ss2 = length (sys_stats st)"
    and d: "st' = st\<lparr>sys_stats := ss2, tree := t2, frs := fr, pst_list := w_top w, dbl_log := tr, closed_fds := w_closed w\<rparr>"
    using sampleE [OF assms(2)] .
  have i: "avl_inv (tree st)" "sampled (tree st)" "length (pst_list st) = 41" using assms(1) by (simp_all add: ptop_inv_def)
  obtain ds where "ev_dir (in_proc inp) = Some ds"
    using a by (auto simp: read_process_stats_def bindR_eq_Inr split: option.splits)
  then have k: "keys (tree st) \<subseteq> keys t1" using read_process_stats_facts(2) [OF i(1) _ a] by simp
  have "avl_inv t1" "sampled t1" using read_process_stats_sampled [OF i(1,2) a] by simp_all
  from write_process_stats_facts [OF this i(3) b] show ?thesis
    using assms(1) k by (simp add: d c ptop_inv_def)
qed

lemma show_step_keeps:
  assumes "show_step cf inp amount st = Inr st'"
  shows "\<exists>scr tr. st' = st\<lparr>screen := scr, dbl_log := tr\<rparr>"
proof (cases "screen st \<and> cyc st mod 3 = 0")
  case True
  then obtain scr evs texts res tr where
    "show_proc_stat (c_db cf) (c_fetch cf) (c_usable cf) (c_room cf) (in_ui inp) (c_localtime cf)
       (in_now inp) (interval st) (pst_list st) amount (in_ctime inp) (dbl_log st) = Inr (scr, evs, texts, res, tr)"
    and r: "(case res of Return n \<Rightarrow> Inr (st\<lparr>screen := scr, dbl_log := tr\<rparr>)
           | CleanStop n \<Rightarrow>
               bindR (cleanstop (c_db cf) (in_now inp) n (st\<lparr>dbl_log := tr\<rparr>)) (\<lambda>(st', code). Inl (Exit code))) = Inr st'"
    using assms by (auto simp: show_step_def bindR_eq_Inr)
  then show ?thesis by (cases res) (auto simp: bindR_eq_Inr)
next
  case False
  then have "st' = st\<lparr>screen := screen st, dbl_log := dbl_log st\<rparr>" using assms by (auto simp: show_step_def)
  then show ?thesis by blast
qed

lemma purge_step_keeps:
  assumes "purge_step cf inp st = Inr st'"
  shows "\<exists>tr. st' = st\<lparr>dbl_log := tr\<rparr>"
proof (cases "cyc st mod CLEAN_INTERVAL = 0")
  case True
  then show ?thesis using assms by (auto simp: purge_step_def bindR_eq_Inr)
next
  case False
  then have "st' = st\<lparr>dbl_log := dbl_log st\<rparr>" using assms by (simp add: purge_step_def)
  then show ?thesis by blast
qed

lemma iteration_inv:
  assumes "ptop_inv st" and "iteration cf inp st = Inr st'"
  shows "ptop_inv st' \<and> keys (tree st) \<subseteq> keys (tree st') \<and> cyc st' = cyc st + 1 \<and> interval st' = interval st"
proof -
  obtain amount st1 st2 st3 where s1: "sample cf inp st = Inr (amount, st1)"
    and s2: "show_step cf inp amount st1 = Inr st2" and s3: "purge_step cf inp st2 = Inr st3"
    and s4: "st' = st3\<lparr>cyc := cyc st3 + 1, cur := 1 - cur st3\<rparr>"
    using assms(2) by (auto simp: iteration_def bindR_eq_Inr)
  have i: "ptop_inv st1" "keys (tree st) \<subseteq> keys (tree st1)" "cyc st1 = cyc st" "cur st1 = cur st"
      "interval st1 = interval st"
    using sample_inv [OF assms(1) s1] by simp_all
  obtain scr tr tr' where "st3 = (st1\<lparr>screen := scr, dbl_log := tr\<rparr>)\<lparr>dbl_log := tr'\<rparr>"
    using show_step_keeps [OF s2] purge_step_keeps [OF s3] by blast
  moreover have "1 - n mod 2 = Suc n mod 2" for n :: nat by presburger
  ultimately show ?thesis using i by (simp add: s4 ptop_inv_def)
qed

lemma reachable_inv:
  assumes "reachable cf st0 st" and "ptop_inv st0"
  shows "ptop_inv st \<and> keys (tree st0) \<subseteq> keys (tree st) \<and> cyc st0 \<le> cyc st \<and> interval st = interval st0"
  using assms
proof (induction rule: reachable.induct)
  case (more st st')
  then obtain inp where "iteration cf inp st = Inr st'" by (auto elim: loop_stepE)
  then show ?case using iteration_inv [of st cf inp st'] more by auto
qed simp

lemma system_init_inv:
  assumes "ptop_inv st" and "system_init db fopen popen page ticks nprocs now1 now2 st = Inr st'"
  shows "ptop_inv st' \<and> tree st' = tree st \<and> cyc st' = cyc st \<and> interval st' = interval st"
proof -
  obtain pf n tr where pf: "init_perf popen nprocs (pfs st) = Inr pf"
    and st': "st' = st\<lparr>hz := get_HZ ticks, kb_shift := get_kb_shift page, cpufreq_stats := check_cpufreq_stats fopen,
              cpu_nr := n, sys_stats := [zero_sys_info, zero_sys_info, sys_stats st ! 2], pfs := pf, dbl_log := tr\<rparr>"
    using assms(2) by (auto simp: system_init_def bindR_eq_Inr split: if_splits)
  have "length (fds (pfs st)) = MAX_NR_CPUS" using assms(1) by (simp add: ptop_inv_def perf_inv_def)
  then have "perf_inv pf" using pf init_perf_inv by blast
  then show ?thesis using assms(1) by (simp add: st' ptop_inv_def)
qed

lemma system_init_result:
  assumes "ptop_inv st" and "n = unat (of_int nprocs :: u32)"
  shows "if n = 0 \<or> 32 < n
    then system_init db fopen popen page ticks nprocs now1 now2 st = Inl (Undefined OutOfBounds)
    else \<exists>st'. system_init db fopen popen page ticks nprocs now1 now2 st = Inr st'"
proof -
  obtain tr where 1: "init_stat_data db now1 (dbl_log st) = Inr (1, tr)"
    using init_stat_data_total by blast
  obtain tr' where 2: "clean_stat_data db now2 tr = Inr tr'" using clean_stat_data_total by blast
  have len: "length (fds (pfs st)) = MAX_NR_CPUS" using assms(1) by (simp add: ptop_inv_def perf_inv_def)
  show ?thesis
    using init_perf_steps [OF len assms(2), of popen]
    by (simp add: system_init_def 1 2 Let_def MAX_NR_CPUS_def)
qed

lemma globals0_inv: "ptop_inv (globals0 argc argv1)"
  by (simp add: ptop_inv_def globals0_def avl_inv_def perf_inv_def perf0_def main_interval_def Let_def)

section \<open>A sample runs through\<close>

lemma nf_sample:
  assumes "ptop_inv st" and "\<And>i. ev_malloc (in_proc inp) i"
    and "tree st \<noteq> NULL \<or> (\<exists>ds. ev_dir (in_proc inp) = Some ds \<and> pids_of ds \<noteq> [])"
  shows "null_free (sample cf inp st)"
proof -
  have t: "avl_inv (tree st)" "sampled (tree st)" using assms(1) by (simp_all add: ptop_inv_def)
  let ?rd = "\<lambda>sy. read_process_stats (in_proc inp) (kb_shift st) (pfs st) (cur st) sy (tree st)"
  have "null_free (write_process_stats db cr time st ss t1)" if r: "?rd sy = Inr (sy1, t1)" for db cr time ss sy sy1 t1
  proof -
    obtain ds where ds: "ev_dir (in_proc inp) = Some ds"
      using r by (auto simp: read_process_stats_def bindR_eq_Inr split: option.splits)
    have "keys t1 \<noteq> {}"
      using read_process_stats_facts(2) [OF t(1) ds r] assms(3) ds by (cases "tree st") auto
    then have "t1 \<noteq> NULL" by auto
    moreover have "sampled t1" using read_process_stats_sampled [OF t r] by simp
    ultimately show ?thesis
      unfolding write_process_stats_def Let_def
      by (intro null_free_bind nf_write_stat) (simp_all split: prod.split)
  qed
  moreover have "null_free (?rd sy)" for sy using nf_read_process_stats [OF t assms(2)] .
  ultimately show ?thesis
    unfolding sample_def Let_def
    by (auto split: prod.split intro!: null_free_bind nf_read_system_stats nf_write_system_stats)
qed

lemma write_process_stats_ranked:
  assumes "write_process_stats db cr time st ss t = Inr (amount, t', w)" and "length (pst_list st) = 41"
    and "u64_subcount (ucast (si_runtime (ss ! cr))) (ucast (si_runtime (ss ! (1 - cr)))) \<noteq> 0"
  shows "ranked w \<and> amount = w_idx w - 1"
proof -
  obtain wp s0 where run: "write_stat wp cr t s0 = Inr (t', w)" and s0: "w_top s0 = pst_list st" "w_idx s0 = 0"
    and itv: "wp_itv wp \<noteq> 0" and am: "amount = w_idx w - 1"
    using assms(1,3) by (auto simp: write_process_stats_def Let_def bindR_eq_Inr)
  have "ranked w"
  proof (rule write_stat_keeps [where Q = ranked, OF _ run])
    show "ranked s'" if "write_node wp cr n s = Inr (n', s')" "ranked s" for n s n' s'
      using write_node_ranked [OF that itv] .
    show "ranked s0" using s0 assms(2) by (simp add: ranked_def top_ok_def)
  qed
  then show ?thesis using am by simp
qed

lemma write_stat_offline:
  assumes "\<And>l. \<not> mysql_real_connect (wp_db wp) l"
  shows "sampled t \<Longrightarrow> t \<noteq> NULL \<Longrightarrow> \<exists>r. write_stat wp cr t s = Inr r"
proof (induction t arbitrary: s)
  case (AvlNode e f l r h p)
  then obtain a b where p: "p = (Some a, Some b)" by (cases p) auto
  obtain n1 s1 where 1: "write_node wp cr (f, p) s = Inr (n1, s1)"
    unfolding p using write_node_offline [OF assms] by blast
  obtain l' s2 where 2: "(if l = NULL then Inr (NULL, s1) else write_stat wp cr l s1) = Inr (l', s2)"
    using AvlNode.IH(1) [of s1] AvlNode.prems by (cases "l = NULL") auto
  obtain r' s3 where 3: "(if r = NULL then Inr (NULL, s2) else write_stat wp cr r s2) = Inr (r', s3)"
    using AvlNode.IH(2) [of s2] AvlNode.prems by (cases "r = NULL") auto
  show ?case unfolding write_stat.simps 1 by (cases n1) (simp add: 2 3)
qed simp

lemma write_process_stats_offline:
  assumes "\<And>l. \<not> mysql_real_connect db l" and "sampled t" and "t \<noteq> NULL"
  shows "\<exists>r. write_process_stats db cr time st ss t = Inr r"
proof -
  have "\<exists>r. write_stat wp cr t s = Inr r" if "wp_db wp = db" for wp s
    using write_stat_offline [OF _ assms(2,3)] assms(1) that by blast
  then obtain r where "write_stat \<lparr>wp_db = db, wp_hz = hz st, wp_tlmkb = tlm_kb st, wp_screen = screen st, wp_time = time,
      wp_itv = u64_subcount (ucast (si_runtime (ss ! cr))) (ucast (si_runtime (ss ! (1 - cr))))\<rparr> cr t
      \<lparr>w_sys = ss ! cr, w_top = pst_list st, w_idx = 0, w_log = dbl_log st, w_closed = closed_fds st\<rparr> = Inr r"
    by fastforce
  then show ?thesis by (cases r) (simp add: write_process_stats_def Let_def)
qed

text \<open>Without a connection, the history only gains handles: one for each process written.\<close>

definition gained :: "db_log \<Rightarrow> wstate \<Rightarrow> bool" where
  "gained tr s \<longleftrightarrow> inits tr \<le> inits (w_log s) \<and> w_log s = tr @ map Init [inits tr..<inits (w_log s)]"

lemma gained_add:
  assumes "gained tr s" and "w_log s' = w_log s @ [Init (inits (w_log s))]"
  shows "gained tr s'"
proof -
  have n: "inits (w_log s') = Suc (inits (w_log s))" by (simp add: assms(2))
  have le: "inits tr \<le> inits (w_log s)" and eq: "w_log s = tr @ map Init [inits tr..<inits (w_log s)]"
    using assms(1) by (simp_all add: gained_def)
  have "w_log s' = tr @ map Init [inits tr..<inits (w_log s)] @ [Init (inits (w_log s))]"
    unfolding assms(2) using eq by (metis append.assoc)
  then show ?thesis using le n by (simp add: gained_def)
qed

lemma write_node_gained:
  assumes "\<And>l. \<not> mysql_real_connect (wp_db wp) l" and "write_node wp cr n s = Inr (n', s')" and "gained tr s"
  shows "gained tr s'"
proof -
  obtain f p where n: "n = (f, p)" by (rule prod.exhaust)
  have "w_log s' = w_log s \<or> w_log s' = w_log s @ [Init (inits (w_log s))]"
    using assms(1,2)
    by (auto simp: n write_node_def clear_position_def insert_ps_def create_conn_def Let_def bindR_eq_Inr
        split: if_splits option.splits prod.splits)
  moreover have "gained tr s'" if "w_log s' = w_log s" using assms(3) that by (simp add: gained_def)
  ultimately show ?thesis using gained_add [OF assms(3)] by blast
qed

section \<open>Properties\<close>

text \<open>C27: start-up depends on the number of processors alone: with none, or with more than the 32
  the descriptor array has room for, it writes outside of that array; otherwise it succeeds, whatever
  the database answers (the test of the result of \<^verbatim>\<open>init_stat_data\<close> never stops the program), and the
  invariant of the main loop holds.\<close>

theorem system_init_outcome:
  assumes "ptop_inv st" and "n = unat (of_int nprocs :: u32)"
  shows "if n = 0 \<or> 32 < n
    then system_init db fopen popen page ticks nprocs now1 now2 st = Inl (Undefined OutOfBounds)
    else \<exists>st'. system_init db fopen popen page ticks nprocs now1 now2 st = Inr st' \<and> ptop_inv st'"
  using system_init_result [OF assms] system_init_inv [OF assms(1)] by (metis (no_types, lifting))

theorem system_init_outcome_witness:
  "\<forall>db fopen popen now1 now2.
   system_init db fopen popen 4096 100 64 now1 now2 (globals0 1 []) = Inl (Undefined OutOfBounds) \<and>
   (\<exists>st'. system_init db fopen popen 4096 100 4 now1 now2 (globals0 1 []) = Inr st' \<and> ptop_inv st')"
proof (intro allI)
  fix db fopen popen now1 now2
  show "system_init db fopen popen 4096 100 64 now1 now2 (globals0 1 []) = Inl (Undefined OutOfBounds) \<and>
   (\<exists>st'. system_init db fopen popen 4096 100 4 now1 now2 (globals0 1 []) = Inr st' \<and> ptop_inv st')"
    using system_init_outcome [OF globals0_inv refl, of 64 db fopen popen 4096 100 now1 now2 1 "[]"]
      system_init_outcome [OF globals0_inv refl, of 4 db fopen popen 4096 100 now1 now2 1 "[]"]
    by simp
qed

text \<open>C1: every state of the main loop that is reachable after start-up satisfies the invariant: three
  system records, 41 slots of the process list, a balanced search tree whose nodes have both samples
  allocated, a descriptor array of the declared size with no processor beyond it, the current sample
  given by the parity of the cycle, and the interval chosen at start-up, which is positive, so that
  the alarm is never switched off by its own handler.  An iteration increases the cycle by one and never removes
  a process from the tree, so the tree only grows while the program runs.\<close>

theorem main_loop_invariant:
  assumes "system_init db fopen popen page ticks nprocs now1 now2 (globals0 argc argv1) = Inr st0"
    and "reachable cf st0 st"
  shows "ptop_inv st \<and> 1 \<le> cyc st \<and> interval st = main_interval argc argv1 \<and>
    (\<forall>st'. loop_step cf st st' \<longrightarrow> keys (tree st) \<subseteq> keys (tree st') \<and> cyc st' = cyc st + 1 \<and> cur st' = 1 - cur st)"
proof -
  have "ptop_inv st0" "cyc st0 = 1" "interval st0 = main_interval argc argv1"
    using system_init_inv [OF globals0_inv assms(1)] by (simp_all add: globals0_def)
  then have i: "ptop_inv st" "1 \<le> cyc st" "interval st = main_interval argc argv1" using reachable_inv [OF assms(2)] by simp_all
  have "keys (tree st) \<subseteq> keys (tree st') \<and> cyc st' = cyc st + 1 \<and> cur st' = 1 - cur st" if l: "loop_step cf st st'" for st'
  proof -
    obtain inp where "iteration cf inp st = Inr st'" using l by (rule loop_stepE)
    note s = iteration_inv [OF i(1) this]
    have "Suc n mod 2 = 1 - n mod 2" for n :: nat by presburger
    then show ?thesis using s i(1) by (simp add: ptop_inv_def)
  qed
  then show ?thesis using i by blast
qed

theorem main_loop_invariant_witness:
  "\<forall>db fopen popen now1 now2. \<exists>st0.
    system_init db fopen popen 4096 100 4 now1 now2 (globals0 2 ''5'') = Inr st0 \<and> ptop_inv st0"
proof (intro allI)
  fix db fopen popen now1 now2
  have "unat (of_int 4 :: u32) = 4" by simp
  then obtain st0 where st0: "system_init db fopen popen 4096 100 4 now1 now2 (globals0 2 ''5'') = Inr st0"
    using system_init_result [OF globals0_inv refl, of 4 db fopen popen 4096 100 now1 now2 2 "''5''"] by auto
  then show "\<exists>st0. system_init db fopen popen 4096 100 4 now1 now2 (globals0 2 ''5'') = Inr st0 \<and> ptop_inv st0"
    using main_loop_invariant [OF st0 reachable.start] by blast
qed

text \<open>C2: in a reachable state, a sample (reading all processes, the system records and writing both to
  the database) follows no NULL pointer, if the allocator does not fail and \<^verbatim>\<open>/proc\<close> lists a process or
  the tree has one: both samples of each node exist when they are compared, and the recursion of the
  writing pass never starts on an empty tree.\<close>

theorem sample_follows_no_null:
  assumes "system_init db fopen popen page ticks nprocs now1 now2 (globals0 argc argv1) = Inr st0"
    and "reachable cf st0 st" and "\<And>i. ev_malloc (in_proc inp) i"
    and "tree st \<noteq> NULL \<or> (\<exists>ds. ev_dir (in_proc inp) = Some ds \<and> pids_of ds \<noteq> [])"
  shows "sample cf inp st \<noteq> Inl (Undefined NullDeref)"
proof -
  have "ptop_inv st0" using system_init_inv [OF globals0_inv assms(1)] by simp
  then have "ptop_inv st" using reachable_inv [OF assms(2)] by simp
  then have "null_free (sample cf inp st)" by (rule nf_sample [OF _ assms(3,4)])
  then show ?thesis by auto
qed

theorem sample_follows_no_null_witness:
  "\<forall>cf inp. \<exists>st0. system_init (c_db cf) (\<lambda>_. None) (\<lambda>_ _ _ _. 3) 4096 100 4 0 0 (globals0 1 []) = Inr st0 \<and>
    sample cf (inp\<lparr>in_proc := (in_proc inp)\<lparr>ev_dir := Some [''1''], ev_malloc := \<lambda>_. True\<rparr>\<rparr>) st0
      \<noteq> Inl (Undefined NullDeref)"
proof (intro allI)
  fix cf :: config and inp :: inputs
  let ?inp = "inp\<lparr>in_proc := (in_proc inp)\<lparr>ev_dir := Some [''1''], ev_malloc := \<lambda>_. True\<rparr>\<rparr>"
  have "unat (of_int 4 :: u32) = 4" by simp
  then obtain st0 where st0: "system_init (c_db cf) (\<lambda>_. None) (\<lambda>_ _ _ _. 3) 4096 100 4 0 0 (globals0 1 []) = Inr st0"
    using system_init_result [OF globals0_inv refl, of 4 "c_db cf" "\<lambda>_. None" "\<lambda>_ _ _ _. 3" 4096 100 0 0 1 "[]"] by auto
  have m: "ev_malloc (in_proc ?inp) i" for i by simp
  have d: "tree st0 \<noteq> NULL \<or> (\<exists>ds. ev_dir (in_proc ?inp) = Some ds \<and> pids_of ds \<noteq> [])"
    by (simp add: pids_of_def isdigit_def)
  show "\<exists>st0. system_init (c_db cf) (\<lambda>_. None) (\<lambda>_ _ _ _. 3) 4096 100 4 0 0 (globals0 1 []) = Inr st0 \<and>
    sample cf ?inp st0 \<noteq> Inl (Undefined NullDeref)"
    using st0 sample_follows_no_null [OF st0 reachable.start m d] by blast
qed

text \<open>When time has passed since the previous sample, the writing pass leaves the list of the most
  active processes sorted by CPU share in its first 40 places at most, and reports one process less
  than it has counted: the last process of the list is not shown, and with no active process the
  number is -1.\<close>

lemma process_list_ranked:
  assumes "write_process_stats db cr time st ss t = Inr (amount, t', w)" and "length (pst_list st) = 41"
    and "u64_subcount (ucast (si_runtime (ss ! cr))) (ucast (si_runtime (ss ! (1 - cr)))) \<noteq> 0"
  shows "- 1 \<le> amount \<and> top_ok (nat (min (amount + 1) 40)) (w_top w)"
  using write_process_stats_ranked [OF assms] by (auto simp: ranked_def)

text \<open>The writing pass does not depend on the database being there: when no connection can be made, it
  still completes on every tree with at least one node, sends and closes nothing, and allocates one
  handle for each process it tries to write, which is never released.\<close>

lemma offline_pass_completes:
  assumes "\<And>l. \<not> mysql_real_connect db l" and "sampled t" and "t \<noteq> NULL"
  shows "\<exists>amount t' w. write_process_stats db cr time st ss t = Inr (amount, t', w) \<and> sampled t' \<and>
    (\<exists>n. w_log w = dbl_log st @ map Init [inits (dbl_log st)..<inits (dbl_log st) + n])"
proof -
  obtain amount t' w where run: "write_process_stats db cr time st ss t = Inr (amount, t', w)"
    using write_process_stats_offline [OF assms] by (metis prod.exhaust)
  obtain wp s0 where ws: "write_stat wp cr t s0 = Inr (t', w)" and wp: "wp_db wp = db" and s0: "w_log s0 = dbl_log st"
    using run by (auto simp: write_process_stats_def Let_def bindR_eq_Inr)
  have "gained (dbl_log st) w"
  proof (rule write_stat_keeps [where Q = "gained (dbl_log st)", OF _ ws])
    show "gained (dbl_log st) s'" if "write_node wp cr n s = Inr (n', s')" "gained (dbl_log st) s" for n s n' s'
      using write_node_gained [OF _ that] assms(1) wp by simp
    show "gained (dbl_log st) s0" by (simp add: gained_def s0)
  qed
  then have "w_log w = dbl_log st @ map Init [inits (dbl_log st)..<inits (dbl_log st) + (inits (w_log w) - inits (dbl_log st))]"
    by (simp add: gained_def)
  then show ?thesis using run write_stat_sampled [OF ws assms(2)] by blast
qed

text \<open>C26: a process that ends while it is being read stops the whole monitor: when its \<^verbatim>\<open>stat\<close>, \<^verbatim>\<open>status\<close> and
  \<^verbatim>\<open>io\<close> files were still there and its \<^verbatim>\<open>smaps\<close> file is not (or may not be read), the pass over \<^verbatim>\<open>/proc\<close>
  ends in \<^verbatim>\<open>exit(2)\<close>, although the caller is written to skip processes that have terminated.\<close>

theorem vanished_process_stops:
  assumes "avl_inv t" and "sampled t" and "\<And>i. ev_malloc ev i"
    and "read_stat_cpu (ev_cpu ev) (ev_line ev) sy = Inr sy1"
    and "ev_dir ev = Some ds" and "pids_of ds = qs @ q # rs" and "foldR (visit_pid ev kb pf cr) qs t = Inr u"
    and "ev_stat1 ev q = Some f1" and "ev_stat2 ev q = Some f2" and "ev_status ev q = Some f3"
    and "ev_io ev q = Some f4" and "ev_smaps ev q = None"
  shows "read_process_stats ev kb pf cr sy t = Inl (Exit 2)"
proof -
  have u: "avl_inv u" "sampled u" using visits_sampled [OF assms(1,2,7)] by simp_all
  have "visit_pid ev kb pf cr q u = Inl (Exit 2)"
    using visit_no_smaps [OF u assms(3,8-12)] .
  then have "foldR (visit_pid ev kb pf cr) (pids_of ds) t = Inl (Exit 2)"
    by (simp add: assms(6,7) foldR_append)
  then show ?thesis by (simp add: read_process_stats_def assms(4,5))
qed

theorem vanished_process_stops_witness:
  "read_process_stats \<lparr>ev_dir = Some [''self'', ''7''], ev_cpu = Some [], ev_stat1 = \<lambda>_. Some ''7'', ev_stat2 = \<lambda>_. Some ''7'',
    ev_status = \<lambda>_. Some [], ev_io = \<lambda>_. Some [], ev_smaps = \<lambda>_. None, ev_meminfo = \<lambda>_. None, ev_malloc = \<lambda>_. True,
    ev_popen = \<lambda>_ _ _ _. 3, ev_read = \<lambda>_ _. (0, \<lambda>_. 0), ev_comm0 = [], ev_line = [], ev_stmaps = zero_smaps\<rparr>
    2 perf0 0 zero_sys_info NULL = Inl (Exit 2)"
proof -
  have "pids_of [''self'', ''7''] = [] @ atoi ''7'' # []" by (simp add: pids_of_def isdigit_def)
  then show ?thesis
    by (intro vanished_process_stops [where qs = "[]" and q = "atoi ''7''" and rs = "[]" and u = NULL])
      (simp_all add: avl_inv_def read_stat_cpu_def fgets_def)
qed

text \<open>C39: the first time the table is shown on a terminal the program leaves defined behaviour: with the
  size the compiler gives \<^verbatim>\<open>struct device_energy\<close>, no iteration in a cycle that is a multiple of three
  comes back, whatever the database, the keys and the processes are, because the energies are
  cleared with the size of another struct.\<close>

theorem display_undefined:
  assumes "c_room cf = DEVICE_ENERGY_SIZE" and "screen st" and "cyc st mod 3 = 0"
    and "ui_tty (in_ui inp)" and "LEAST_COLUMS \<le> ui_cols (in_ui inp)"
    and "c_localtime cf (in_now inp) = Some tt"
  shows "show_step cf inp amount st = Inl (Undefined OutOfBounds) \<and>
    (sample cf inp st0 = Inr (amount0, st) \<longrightarrow> iteration cf inp st0 = Inl (Undefined OutOfBounds))"
proof -
  have "show_step cf inp a st = Inl (Undefined OutOfBounds)" for a
    using assms
    by (simp add: show_step_def show_proc_stat_def convdate_def convtime_def energy_table_def systemEnergy_def Let_def)
  then show ?thesis by (simp add: iteration_def)
qed

theorem display_undefined_witness:
  "\<forall>cf inp st. \<exists>amount. show_step (cf\<lparr>c_room := 24, c_localtime := \<lambda>t. Some
       \<lparr>tm_sec = 1, tm_min = 2, tm_hour = 3, tm_mday = 4, tm_mon = 5, tm_year = 110\<rparr>\<rparr>)
      (inp\<lparr>in_ui := \<lparr>ui_tty = True, ui_node = [], ui_lines = 24, ui_cols = 80, ui_select = 0, ui_char = 0, ui_pressed = [], ui_typed1 = [], ui_typed2 = [],
         ui_kill = \<lambda>p s. True\<rparr>\<rparr>) amount (st\<lparr>screen := True, cyc := 3\<rparr>) = Inl (Undefined OutOfBounds)"
proof (intro allI)
  fix cf :: config and inp :: inputs and st :: ptop
  let ?tt = "\<lparr>tm_sec = 1, tm_min = 2, tm_hour = 3, tm_mday = 4, tm_mon = 5, tm_year = 110\<rparr>"
  let ?cf = "cf\<lparr>c_room := 24, c_localtime := \<lambda>t. Some ?tt\<rparr>"
  let ?inp = "inp\<lparr>in_ui := \<lparr>ui_tty = True, ui_node = [], ui_lines = 24, ui_cols = 80, ui_select = 0, ui_char = 0, ui_pressed = [], ui_typed1 = [], ui_typed2 = [],
         ui_kill = \<lambda>p s. True\<rparr>\<rparr>"
  let ?st = "st\<lparr>screen := True, cyc := 3\<rparr>"
  show "\<exists>amount. show_step ?cf ?inp amount ?st = Inl (Undefined OutOfBounds)"
    using display_undefined [of ?cf ?st ?inp ?tt 5] by (auto simp: LEAST_COLUMS_def)
qed

end
