(* ===== verification/Runs.thy ===== *)
theory Runs
  imports Ptop Sessions
begin

text \<open>
  Whole runs of the main loop: the history of database sessions, the descriptors of the processes
  and the two alternating samples, followed from one sample through any number of iterations.
\<close>

section \<open>Database sessions of a run\<close>

lemma write_node_grows:
  assumes "write_node wp cr n s = Inr (n', s')"
  shows "db_grows (wp_db wp) (w_log s) (w_log s')"
proof -
  obtain f p where n: "n = (f, p)" by (rule prod.exhaust)
  show ?thesis
    using assms
    by (auto simp: n write_node_def clear_position_def Let_def bindR_eq_Inr
        split: if_splits option.splits prod.splits dest: db_grows_insert_ps)
qed

lemma write_process_stats_grows:
  assumes "write_process_stats db cr time st ss t = Inr (amount, t', w)"
  shows "db_grows db (dbl_log st) (w_log w)"
proof -
  obtain wp s0 where run: "write_stat wp cr t s0 = Inr (t', w)" and wp: "wp_db wp = db" and s0: "w_log s0 = dbl_log st"
    using assms by (auto simp: write_process_stats_def Let_def bindR_eq_Inr)
  show ?thesis
  proof (rule write_stat_keeps [where Q = "\<lambda>s. db_grows db (dbl_log st) (w_log s)", OF _ run])
    show "db_grows db (dbl_log st) (w_log s')"
      if "write_node wp cr n s = Inr (n', s')" "db_grows db (dbl_log st) (w_log s)" for n s n' s'
      using db_grows_trans [OF that(2)] write_node_grows [OF that(1)] wp by simp
    show "db_grows db (dbl_log st) (w_log s0)" by (simp add: s0)
  qed
qed

lemma sample_grows:
  assumes "sample cf inp st = Inr (amount, st')"
  shows "db_grows (c_db cf) (dbl_log st) (dbl_log st')"
proof -
  obtain sy1 t1 fr sy2 t2 w ss2 tr where
    w: "write_process_stats (c_db cf) (cur st) (in_ctime inp) st
       (((sys_stats st)[cur st := zero_sys_info])[cur st := sy2]) t1 = Inr (amount, t2, w)"
    and s: "write_system_stats (c_db cf) (cur st) (in_ctime inp) amount
       ((((sys_stats st)[cur st := zero_sys_info])[cur st := sy2])[cur st := w_sys w]) (w_log w) = Inr (ss2, tr)"
    and st': "st' = st\<lparr>sys_stats := ss2, tree := t2, frs := fr, pst_list := w_top w, dbl_log := tr, closed_fds := w_closed w\<rparr>"
    using sampleE [OF assms] .
  have "db_grows (c_db cf) (w_log w) tr"
    using s by (auto simp: write_system_stats_def Let_def bindR_eq_Inr dest: db_grows_inserts)
  then show ?thesis using db_grows_trans [OF write_process_stats_grows [OF w]] by (simp add: st')
qed

lemma show_step_grows:
  assumes "show_step cf inp amount st = Inr st'"
  shows "db_grows (c_db cf) (dbl_log st) (dbl_log st')"
proof (cases "screen st \<and> cyc st mod 3 = 0")
  case True
  then obtain scr evs texts res tr where
    s: "show_proc_stat (c_db cf) (c_fetch cf) (c_usable cf) (c_room cf) (in_ui inp) (c_localtime cf)
       (in_now inp) (interval st) (pst_list st) amount (in_ctime inp) (dbl_log st) = Inr (scr, evs, texts, res, tr)"
    and r: "(case res of Return n \<Rightarrow> Inr (st\<lparr>screen := scr, dbl_log := tr\<rparr>)
           | CleanStop n \<Rightarrow>
               bindR (cleanstop (c_db cf) (in_now inp) n (st\<lparr>dbl_log := tr\<rparr>)) (\<lambda>(st', code). Inl (Exit code))) = Inr st'"
    using assms by (auto simp: show_step_def bindR_eq_Inr)
  have "dbl_log st' = tr" using r by (cases res) (auto simp: bindR_eq_Inr)
  then show ?thesis using db_grows_show [OF s] by simp
next
  case False
  then show ?thesis using assms by (auto simp: show_step_def)
qed

lemma purge_step_grows: "purge_step cf inp st = Inr st' \<Longrightarrow> db_grows (c_db cf) (dbl_log st) (dbl_log st')"
  by (auto simp: purge_step_def bindR_eq_Inr split: if_splits dest: db_grows_freeup_all)

lemma iteration_parts:
  assumes "iteration cf inp st = Inr st'"
  obtains amount st1 st2 st3 where "sample cf inp st = Inr (amount, st1)"
    and "show_step cf inp amount st1 = Inr st2" and "purge_step cf inp st2 = Inr st3"
    and "st' = st3\<lparr>cyc := cyc st3 + 1, cur := 1 - cur st3\<rparr>"
  using assms by (auto simp: iteration_def bindR_eq_Inr)

lemma iteration_grows:
  assumes "iteration cf inp st = Inr st'"
  shows "db_grows (c_db cf) (dbl_log st) (dbl_log st')"
proof -
  obtain amount st1 st2 st3 where s: "sample cf inp st = Inr (amount, st1)"
    "show_step cf inp amount st1 = Inr st2" "purge_step cf inp st2 = Inr st3"
    and e: "st' = st3\<lparr>cyc := cyc st3 + 1, cur := 1 - cur st3\<rparr>"
    using iteration_parts [OF assms] .
  from sample_grows [OF s(1)] show_step_grows [OF s(2)] purge_step_grows [OF s(3)] show ?thesis
    by (simp add: e) (blast intro: db_grows_trans)
qed

lemma reachable_grows: "reachable cf st0 st \<Longrightarrow> db_grows (c_db cf) (dbl_log st0) (dbl_log st)"
proof (induction rule: reachable.induct)
  case (more st st')
  then obtain inp where "iteration cf inp st = Inr st'" by (auto elim: loop_stepE)
  then show ?case using db_grows_trans [OF more.IH iteration_grows] by simp
qed simp

lemma system_init_grows:
  "system_init db fopen popen page ticks nprocs now1 now2 st = Inr st' \<Longrightarrow> db_grows db (dbl_log st) (dbl_log st')"
  by (auto simp: system_init_def bindR_eq_Inr split: if_splits
      intro: db_grows_trans dest!: db_grows_init db_grows_clean)

section \<open>Descriptors of a run\<close>

definition open_at :: "avl \<Rightarrow> (int \<times> int) set" where
  "open_at t = {(k, f). 0 < f \<and> (\<exists>p. lookup t k = Some (f, p))}"

lemma open_fds_eq:
  assumes "ordered t"
  shows "finite (open_at t)" and "open_fds t = image_mset snd (mset_set (open_at t))"
proof -
  let ?l = "filter (\<lambda>(k, f). 0 < f) (map (\<lambda>(k, f, p). (k, f)) (entries t))"
  have d: "distinct (map fst (entries t))"
    using assms by (simp add: ordered_iff key_sorted_def strict_sorted_iff)
  have "map fst (map (\<lambda>(k, f, p). (k, f)) (entries t)) = map fst (entries t)"
    by (simp add: case_prod_beta comp_def)
  then have "distinct (map (\<lambda>(k, f, p). (k, f)) (entries t))" using d distinct_map by metis
  then have dl: "distinct ?l" by simp
  note l = lookup_map_of [of t]
  have s: "set ?l = open_at t"
    using d by (force simp: open_at_def l)
  show "finite (open_at t)" using s by (metis List.finite_set)
  have ms: "mset_set (open_at t) = mset ?l" using mset_set_set [OF dl] unfolding s .
  have m: "map snd ?l = filter (\<lambda>f. 0 < f) (map (fst \<circ> snd) (entries t))"
    by (induction "entries t") (auto simp: case_prod_beta filter_map comp_def)
  have "open_fds t = mset (map snd ?l)" unfolding m open_fds_def ..
  also have "\<dots> = image_mset snd (mset ?l)" by (rule mset_map)
  finally show "open_fds t = image_mset snd (mset_set (open_at t))" unfolding ms .
qed

lemma open_fds_mono:
  assumes "ordered t" and "ordered t'"
    and "\<And>k f p. lookup t k = Some (f, p) \<Longrightarrow> 0 < f \<Longrightarrow> \<exists>p'. lookup t' k = Some (f, p')"
  shows "open_fds t \<subseteq># open_fds t'"
proof -
  have "open_at t \<subseteq> open_at t'" using assms(3) by (auto simp: open_at_def)
  then have "mset_set (open_at t) \<subseteq># mset_set (open_at t')"
    using open_fds_eq(1) [OF assms(2)] by (rule subset_imp_msubset_mset_set)
  then show ?thesis
    by (simp add: open_fds_eq(2) [OF assms(1)] open_fds_eq(2) [OF assms(2)] image_mset_subseteq_mono)
qed

text \<open>Reading a process leaves an open descriptor in its node.\<close>

lemma read_into_fd:
  assumes "read_into ev kb pf cr q (f, p) = Inr (f', p')" and "0 < f"
  shows "f' = f"
proof -
  have m: "f'' = f" if "read_proc_pid_mem popen rd pf sm mi bf sc q x f act = Inr (f'', y)" for popen rd sm mi bf sc x act f'' y
    using that assms(2) by (auto simp: read_proc_pid_mem_def bindR_eq_Inr)
  show ?thesis
    using assms(1)
    by (auto simp: read_into_def read_pid_stats_def Let_def bindR_eq_Inr split: option.splits prod.splits if_splits dest!: m)
qed

lemma read_pass_fds:
  assumes "avl_inv t" and "read_process_stats ev kb pf cr sy t = Inr (sy', t')"
  shows "open_fds t \<subseteq># open_fds t'"
proof (rule open_fds_mono)
  show "ordered t" using assms(1) by (simp add: avl_inv_def)
  obtain ds where ds: "ev_dir ev = Some ds"
    using assms(2) by (auto simp: read_process_stats_def bindR_eq_Inr split: option.splits)
  have "avl_inv t'" using read_process_stats_facts(1) [OF assms(1) ds assms(2)] .
  then show "ordered t'" by (simp add: avl_inv_def)
  fix k f p
  assume l: "lookup t k = Some (f, p)" and f: "0 < f"
  have "\<exists>v'. lookup t' k = Some v' \<and> (0 < fst (f, p) \<longrightarrow> fst v' = fst (f, p))"
  proof (rule read_process_stats_related [OF assms, where R = "\<lambda>v v'. 0 < fst v \<longrightarrow> fst v' = fst v", OF _ _ _ l])
    show "0 < fst v \<longrightarrow> fst v' = fst v" if "read_into ev kb pf cr q v = Inr v'" for q v v'
      using read_into_fd [of ev kb pf cr q "fst v" "snd v" "fst v'" "snd v'"] that by simp
  qed auto
  then show "\<exists>p'. lookup t' k = Some (f, p')" using f by auto
qed

lemma sample_fds:
  assumes "ptop_inv st" and "sample cf inp st = Inr (amount, st')"
  shows "mset (closed_fds st) + open_fds (tree st) \<subseteq># mset (closed_fds st') + open_fds (tree st')"
proof -
  obtain sy1 t1 fr sy2 t2 w ss2 tr where
    a: "read_process_stats (in_proc inp) (kb_shift st) (pfs st) (cur st) (((sys_stats st)[cur st := zero_sys_info]) ! cur st)
       (tree st) = Inr (sy1, t1)"
    and b: "write_process_stats (c_db cf) (cur st) (in_ctime inp) st
       (((sys_stats st)[cur st := zero_sys_info])[cur st := sy2]) t1 = Inr (amount, t2, w)"
    and d: "st' = st\<lparr>sys_stats := ss2, tree := t2, frs := fr, pst_list := w_top w, dbl_log := tr, closed_fds := w_closed w\<rparr>"
    using sampleE [OF assms(2)] .
  obtain wp s0 where run: "write_stat wp (cur st) t1 s0 = Inr (t2, w)" and s0: "w_closed s0 = closed_fds st"
    using b by (auto simp: write_process_stats_def Let_def bindR_eq_Inr)
  obtain cl where "w_closed w = w_closed s0 @ cl" "open_fds t2 + mset cl = open_fds t1"
    using write_stat_shape [OF run] by blast
  moreover have "open_fds (tree st) \<subseteq># open_fds t1"
    using read_pass_fds [OF _ a] assms(1) by (simp add: ptop_inv_def)
  ultimately show ?thesis by (simp add: d s0 add.commute [of "open_fds t2"] add.assoc)
qed

lemma iteration_fds:
  assumes "ptop_inv st" and "iteration cf inp st = Inr st'"
  shows "mset (closed_fds st) + open_fds (tree st) \<subseteq># mset (closed_fds st') + open_fds (tree st')"
proof -
  obtain amount st1 st2 st3 where s: "sample cf inp st = Inr (amount, st1)"
    "show_step cf inp amount st1 = Inr st2" "purge_step cf inp st2 = Inr st3"
    and e: "st' = st3\<lparr>cyc := cyc st3 + 1, cur := 1 - cur st3\<rparr>"
    using iteration_parts [OF assms(2)] .
  obtain scr tr tr' where "st3 = (st1\<lparr>screen := scr, dbl_log := tr\<rparr>)\<lparr>dbl_log := tr'\<rparr>"
    using show_step_keeps [OF s(2)] purge_step_keeps [OF s(3)] by blast
  then show ?thesis using sample_fds [OF assms(1) s(1)] by (simp add: e)
qed

lemma reachable_fds:
  "reachable cf st0 st \<Longrightarrow> ptop_inv st0 \<Longrightarrow>
    mset (closed_fds st0) + open_fds (tree st0) \<subseteq># mset (closed_fds st) + open_fds (tree st)"
proof (induction rule: reachable.induct)
  case (more st st')
  then obtain inp where "iteration cf inp st = Inr st'" by (auto elim: loop_stepE)
  moreover have "ptop_inv st" using reachable_inv [OF more.hyps(1) more.prems] by simp
  ultimately show ?case using iteration_fds more.IH [OF more.prems] by (blast intro: subset_mset.trans)
qed simp

section \<open>The two samples\<close>

lemma pst_get_set_other [simp]: "c \<le> Suc 0 \<Longrightarrow> pst_get (Suc 0 - c) (pst_set c v p) = pst_get (Suc 0 - c) p"
  by (cases "c = 0") (simp_all add: pst_get_def pst_set_def)

lemma read_into_prev:
  "read_into ev kb pf cr q (f, p) = Inr (f', p') \<Longrightarrow> cr \<le> 1 \<Longrightarrow> pst_get (1 - cr) p' = pst_get (1 - cr) p"
  by (auto simp: read_into_def bindR_eq_Inr split: option.splits)

lemma write_node_prev:
  "write_node wp cr (f, p) s = Inr ((f', p'), s') \<Longrightarrow> cr \<le> 1 \<Longrightarrow> pst_get (1 - cr) p' = pst_get (1 - cr) p"
  by (auto simp: write_node_def clear_position_def Let_def bindR_eq_Inr
      split: if_splits option.splits prod.splits)

lemma write_stat_prev:
  "write_stat wp cr t s = Inr (t', s') \<Longrightarrow> cr \<le> 1 \<Longrightarrow>
    map (\<lambda>(k, f, p). (k, pst_get (1 - cr) p)) (entries t') = map (\<lambda>(k, f, p). (k, pst_get (1 - cr) p)) (entries t)"
proof (induction t arbitrary: s t' s')
  case (AvlNode e f l r h p)
  from AvlNode.prems(1) obtain f' p' s1 l' s2 r' where
    1: "write_node wp cr (f, p) s = Inr ((f', p'), s1)"
    and l: "(if l = NULL then Inr (NULL, s1) else write_stat wp cr l s1) = Inr (l', s2)"
    and r: "(if r = NULL then Inr (NULL, s2) else write_stat wp cr r s2) = Inr (r', s')"
    and t': "t' = AvlNode e f' l' r' h p'"
    by (auto simp: bindR_eq_Inr)
  have "map (\<lambda>(k, f, p). (k, pst_get (1 - cr) p)) (entries l') = map (\<lambda>(k, f, p). (k, pst_get (1 - cr) p)) (entries l)"
    using AvlNode.IH(1) [of s1 l' s2] AvlNode.prems(2) l by (cases "l = NULL") auto
  moreover have "map (\<lambda>(k, f, p). (k, pst_get (1 - cr) p)) (entries r') = map (\<lambda>(k, f, p). (k, pst_get (1 - cr) p)) (entries r)"
    using AvlNode.IH(2) [of s2 r' s'] AvlNode.prems(2) r by (cases "r = NULL") auto
  moreover note write_node_prev [OF 1 AvlNode.prems(2)]
  ultimately show ?case by (simp add: t')
qed simp

lemma map_of_entries_map:
  "map_of (map (\<lambda>(k, f, p). (k, g p)) es) k = map_option (\<lambda>(f, p). g p) (map_of es k)"
  by (induction es) auto

lemma write_stat_prev_lookup:
  assumes "write_stat wp cr t s = Inr (t', s')" and "cr \<le> 1"
  shows "map_option (\<lambda>(f, p). pst_get (1 - cr) p) (lookup t' x) = map_option (\<lambda>(f, p). pst_get (1 - cr) p) (lookup t x)"
  unfolding lookup_map_of map_of_entries_map [symmetric] write_stat_prev [OF assms] ..

lemma write_system_stats_record:
  assumes "write_system_stats db cr time amount ss tr = Inr (ss', tr')" and "length ss = 3" and "cr \<le> 1"
  shows "ss' ! (1 - cr) = ss ! (1 - cr) \<and> ss' ! cr = (ss ! cr)\<lparr>si_time := ucast time\<rparr> \<and>
    si_totalnetrcv (ss' ! 2) = u64_subcount (si_totalnetrcv (ss' ! cr)) (si_totalnetrcv (ss ! (1 - cr))) \<and>
    si_totalnetsnd (ss' ! 2) = u64_subcount (si_totalnetsnd (ss' ! cr)) (si_totalnetsnd (ss ! (1 - cr))) \<and>
    si_memaccess (ss' ! 2) = u64_subcount (si_memaccess (ss' ! cr)) (si_memaccess (ss ! (1 - cr))) \<and>
    si_active_process_num (ss' ! 2) = of_int amount \<and>
    (\<exists>rc. insert_sys_info db (ss' ! 2) tr = Inr (rc, tr'))"
  using assms
  by (cases "cr = 0") (auto simp: write_system_stats_def Let_def bindR_eq_Inr)

section \<open>Properties\<close>


lemma bindR_total: "\<exists>x. r = Inr x \<Longrightarrow> (\<And>x. \<exists>q. f x = Inr q) \<Longrightarrow> \<exists>q. bindR r f = Inr q"
  by auto


text \<open>C4: over any run of the program the calls of the database library form balanced sessions: every
  query and every close is on a handle that is open, and as long as the connections succeed no
  handle is left open at the end of an iteration.\<close>

theorem run_sessions_balanced:
  assumes "system_init (c_db cf) fopen popen page ticks nprocs now1 now2 (globals0 argc argv1) = Inr st0"
    and "reachable cf st0 st"
  shows "log_ok (dbl_log st) \<and> ((\<forall>l. mysql_real_connect (c_db cf) l) \<longrightarrow> leaked (dbl_log st) = {})"
proof -
  have "db_grows (c_db cf) [] (dbl_log st)"
    using system_init_grows [OF assms(1)] reachable_grows [OF assms(2)]
    by (simp add: globals0_def) (rule db_grows_trans)
  then show ?thesis by (simp add: db_grows_def log_ok_def leaked_def)
qed

theorem run_sessions_balanced_witness:
  "\<forall>cf :: config. \<exists>st0. system_init (c_db cf) (\<lambda>_. None) (\<lambda>_ _ _ _. 3) 4096 100 4 0 0 (globals0 1 []) = Inr st0 \<and> log_ok (dbl_log st0)"
proof
  fix cf :: config
  have "unat (of_int 4 :: u32) = 4" by simp
  then obtain st0 where st0: "system_init (c_db cf) (\<lambda>_. None) (\<lambda>_ _ _ _. 3) 4096 100 4 0 0 (globals0 1 []) = Inr st0"
    using system_init_result [OF globals0_inv refl, of 4 "c_db cf" "\<lambda>_. None" "\<lambda>_ _ _ _. 3" 4096 100 0 0 1 "[]"] by auto
  then show "\<exists>st0. system_init (c_db cf) (\<lambda>_. None) (\<lambda>_ _ _ _. 3) 4096 100 4 0 0 (globals0 1 []) = Inr st0 \<and> log_ok (dbl_log st0)"
    using run_sessions_balanced [OF st0 reachable.start] by blast
qed

text \<open>C5: no descriptor of a process is forgotten: whatever happens in a run, each counter that is open in
  the tree at some time is later still open in its node or has been closed, and at the end
  \<^verbatim>\<open>system_clean\<close> closes all that are left.\<close>

theorem descriptors_accounted:
  assumes "ptop_inv st0" and "reachable cf st0 st"
  shows "mset (closed_fds st0) + open_fds (tree st0) \<subseteq># mset (closed_fds st) + open_fds (tree st) \<and>
    (\<exists>st'. system_clean db now st = Inr st' \<and>
       mset (closed_fds st) + open_fds (tree st) \<subseteq># mset (closed_fds st'))"
proof -
  have i: "ptop_inv st" using reachable_inv [OF assms(2,1)] by simp
  obtain tr where 1: "clean_stat_data db now (dbl_log st) = Inr tr" using clean_stat_data_total by blast
  obtain cl pf where 2: "close_all_counters (tree st) (pfs st) = Inr (cl, pf)"
    and 3: "open_fds (tree st) \<subseteq># mset cl"
    using close_all_counters_result [of "pfs st" "tree st"] i by (auto simp: ptop_inv_def open_fds_def)
  then show ?thesis
    using reachable_fds [OF assms(2,1)] by (simp add: system_clean_def 1)
qed

theorem descriptors_accounted_witness:
  "\<forall>db. \<exists>st'. system_clean db 0
      ((globals0 1 [])\<lparr>tree := AvlNode 7 5 NULL NULL 0 (Some zero_pid_stats, Some zero_pid_stats)\<rparr>) = Inr st' \<and>
    5 \<in> set (closed_fds st')"
proof
  fix db :: mysql
  let ?st = "(globals0 1 [])\<lparr>tree := AvlNode 7 5 NULL NULL 0 (Some zero_pid_stats, Some zero_pid_stats)\<rparr>"
  have i: "ptop_inv ?st" using globals0_inv [of 1 "[]"] by (simp add: ptop_inv_def avl_inv_def)
  have f: "mset (closed_fds ?st) + open_fds (tree ?st) = {#5#}" by (simp add: globals0_def open_fds_def)
  obtain st' where s: "system_clean db 0 ?st = Inr st'" and c: "{#5#} \<subseteq># mset (closed_fds st')"
    using descriptors_accounted [OF i reachable.start, where db = db and now = 0] unfolding f by blast
  have "5 \<in># mset (closed_fds st')" using c by (simp add: mset_subset_eq_single single_subset_iff)
  then show "\<exists>st'. system_clean db 0 ?st = Inr st' \<and> 5 \<in> set (closed_fds st')" using s by auto
qed

end
