(* ===== verification/Statements.thy ===== *)
theory Statements
  imports Display
begin

text \<open>
  The statements sent to the database always fit their buffers: a value of type \<^verbatim>\<open>float\<close> prints at most
  43 characters, a command line read by the program has at most 15.  So no insertion runs into
  undefined behaviour, whatever the counters are.
\<close>

section \<open>The range of a float\<close>

text \<open>A value the type \<^verbatim>\<open>float\<close> can hold: not a number, an infinity, or finite below \<open>2 ^ 128\<close>.\<close>

definition is_float :: "fp \<Rightarrow> bool" where
  "is_float v \<longleftrightarrow> (case v of Fin x \<Rightarrow> \<bar>x\<bar> < 2 ^ 128 | _ \<Rightarrow> True)"

lemma is_float_simps [simp]:
  "is_float NaN" "is_float PInf" "is_float NInf" "is_float (Fin x) \<longleftrightarrow> \<bar>x\<bar> < 2 ^ 128" "is_float 0"
  by (simp_all add: is_float_def zero_fp_def)

lemma is_float_fl: "is_float (fl f32 x)"
proof -
  have p: "is_float (fl_pos f32 y)" if "0 \<le> y" for y
  proof -
    define k where "k = rnd_units (prec f32) (y * 2 ^ qexp f32)"
    have "0 \<le> k" unfolding k_def using that by (intro rnd_units_nonneg) simp
    moreover have "of_int k / 2 ^ 149 < (2 :: rat) ^ 128" if "k < 2 ^ (149 + 128)"
    proof -
      have "(of_int k :: rat) < of_int (2 ^ (149 + 128))" using that by (simp only: of_int_less_iff)
      also have "\<dots> = 2 ^ 128 * 2 ^ 149" by (simp add: power_add)
      finally show ?thesis by (simp add: divide_less_eq)
    qed
    moreover have "fl_pos f32 y = (if k \<ge> 2 ^ (149 + 128) then PInf else Fin (of_int k / 2 ^ 149))"
      unfolding fl_pos_def Let_def k_def [symmetric] by (simp only: f32_def fmt.simps)
    ultimately show ?thesis by (cases "k \<ge> 2 ^ (149 + 128)") auto
  qed
  have n: "is_float (fneg v) = is_float v" for v by (cases v) auto
  show ?thesis using p [of x] p [of "- x"] by (simp add: fl_def n)
qed

lemma is_float_finf [simp]: "is_float (finf x)"
  by (simp add: finf_def)

lemma is_float_ops [simp]:
  "is_float (fadd f32 a b)" "is_float (fmul f32 a b)" "is_float (fdiv f32 a b)" "is_float (fofint f32 i)"
  by (cases a; cases b; simp add: is_float_fl fofint_def)+

lemma is_float_fcast [simp]: "is_float (fcast f32 a)"
  by (cases a) (simp_all add: is_float_fl)

lemma show_float_length:
  assumes "is_float v" and "w \<le> 43"
  shows "length (show_fp w 2 v) \<le> 43"
proof (cases v)
  case (Fin x)
  define k where "k = nat (rhe (\<bar>x\<bar> * 10 ^ 2))"
  have "\<bar>x\<bar> * 10 ^ 2 \<le> of_int (2 ^ 128 * 100)" using assms(1) Fin by simp
  then have "rhe (\<bar>x\<bar> * 10 ^ 2) \<le> 2 ^ 128 * 100" by (rule rhe_le_of_int)
  then have "k \<le> 2 ^ 128 * 100" by (simp add: k_def)
  then have "k div 100 \<le> 2 ^ 128 * 100 div 100" by (rule div_le_mono)
  then have "k div 100 < 10 ^ 39" by simp
  then have "length (show_nat (k div 100)) \<le> 39" by (intro show_nat_length) simp_all
  moreover have "length (show_nat (k mod 100)) \<le> 2" by (intro show_nat_length) simp_all
  moreover have "show_fixed 2 x = (if x < 0 then ''-'' else []) @ show_nat (k div 100) @ ''.'' @
      pad_left 2 (CHR ''0'') (show_nat (k mod 100))"
    unfolding show_fixed_def Let_def k_def [symmetric] by simp
  ultimately have "length (show_fixed 2 x) \<le> 43" by (simp add: pad_left_def)
  then show ?thesis using Fin assms(2) by (simp add: pad_left_def)
qed (use assms(2) in \<open>simp_all add: pad_left_def\<close>)

section \<open>Each insertion comes back\<close>

text \<open>The fifteen rates of a process record.\<close>

definition rates_ok :: "process_info \<Rightarrow> bool" where
  "rates_ok p \<longleftrightarrow> (\<forall>f \<in> {pi_read_bytes, pi_write_bytes, pi_cancelled_write_bytes, pi_mem, pi_utime, pi_stime,
      pi_gtime, pi_cpu, pi_cswch, pi_nvcswch, pi_minflt, pi_majflt, pi_netsnd, pi_netrcv, pi_ratio}. is_float (f p))"

lemma insert_ps_comes_back:
  assumes "rates_ok p" and "length (case pi_cmdline p of None \<Rightarrow> [] | Some c \<Rightarrow> c) \<le> 56"
  shows "\<exists>p' rc tr'. insert_ps db p tr = Inr (p', rc, tr')"
proof -
  have f: "length (show_fp w 2 (f p)) \<le> 43"
    if "f \<in> {pi_read_bytes, pi_write_bytes, pi_cancelled_write_bytes, pi_mem, pi_utime, pi_stime,
      pi_gtime, pi_cpu, pi_cswch, pi_nvcswch, pi_minflt, pi_majflt, pi_netsnd, pi_netrcv, pi_ratio}"
      and "w \<le> 43" for f w
    using assms(1) that unfolding rates_ok_def by (intro show_float_length) blast+
  have i: "length (show_signed (pi_pid p)) \<le> 10 + 1" "length (show_unsigned (pi_time p)) \<le> 10"
    "length (show_unsigned (pi_vsz p)) \<le> 10" "length (show_unsigned (pi_rss p)) \<le> 10"
    "length (show_unsigned (pi_cpu_accesses p)) \<le> 20"
    by (rule show_signed_length show_unsigned_length; simp)+
  have "length (ps_values p) \<le> 742"
    using i f [of pi_read_bytes 9] f [of pi_write_bytes 9] f [of pi_cancelled_write_bytes 9] f [of pi_mem 6]
      f [of pi_utime 7] f [of pi_stime 7] f [of pi_gtime 7] f [of pi_cpu 7] f [of pi_cswch 9]
      f [of pi_nvcswch 9] f [of pi_minflt 9] f [of pi_majflt 9] f [of pi_netsnd 9] f [of pi_netrcv 9]
      f [of pi_ratio 9]
    by (simp add: ps_values_def)
  moreover have "ps_values (p\<lparr>pi_cmdline := c\<rparr>) = ps_values p" for c by (simp add: ps_values_def)
  ultimately have "length (ps_query (p\<lparr>pi_cmdline := Some c\<rparr>) c) < QUERY_SIZE" if "length c \<le> 56" for c
    using that by (simp add: ps_query_def QUERY_SIZE_def)
  then obtain rc tr' where
    "send db (ps_query (p\<lparr>pi_cmdline := Some c\<rparr>) c) tr = Inr (rc, tr')"
    if "c = (case pi_cmdline p of None \<Rightarrow> [] | Some c \<Rightarrow> c)" for c
    using assms(2) send_total by metis
  then show ?thesis
    by (simp add: insert_ps_def Let_def split: prod.split)
qed

lemma process_rates_ok: "rates_ok (process_rates hz tlm time itv qi pj)"
proof -
  have "is_float (if a < b then a else b)" if "is_float a" "is_float b" for a b :: fp using that by simp
  then show ?thesis
    by (simp add: rates_ok_def process_rates_def Let_def u64f_def S_VALUE_def SP_VALUE_def zero_process_info_def)
qed

lemma insert_sys_info_comes_back:
  assumes "is_float (si_cpupower st)"
  shows "\<exists>rc tr'. insert_sys_info db st tr = Inr (rc, tr')"
proof -
  have "length (show_unsigned (si_time st)) \<le> 10" "length (show_unsigned (si_totalnetsnd st)) \<le> 20"
    "length (show_unsigned (si_totalnetrcv st)) \<le> 20" "length (show_unsigned (si_totaldiskread st)) \<le> 20"
    "length (show_unsigned (si_totaldiskwrite st)) \<le> 20" "length (show_unsigned (si_memaccess st)) \<le> 20"
    "length (show_unsigned (si_itv st)) \<le> 10" "length (show_unsigned (si_runtime st)) \<le> 10"
    "length (show_signed (si_active_process_num st)) \<le> 10 + 1"
    by (rule show_signed_length show_unsigned_length; simp)+
  moreover have "length (show_fp 9 2 (si_cpupower st)) \<le> 43" using assms by (rule show_float_length) simp
  ultimately show ?thesis
    unfolding insert_sys_info_def by (intro send_total) (simp add: sys_query_def QUERY_SIZE_def)
qed

lemma insert_energy_comes_back:
  assumes "\<And>x. x \<in> set es \<Longrightarrow> is_float x"
  shows "de_ecpu de \<in> set es \<Longrightarrow> de_emem de \<in> set es \<Longrightarrow> de_enet de \<in> set es \<Longrightarrow> de_edisk de \<in> set es \<Longrightarrow>
      \<exists>rc tr'. insert_device_energy db de tr = Inr (rc, tr')"
    and "pe_ecpu pe \<in> set es \<Longrightarrow> pe_emem pe \<in> set es \<Longrightarrow> pe_enet pe \<in> set es \<Longrightarrow> pe_edisk pe \<in> set es \<Longrightarrow>
      \<exists>rc tr'. insert_process_energy db pe tr = Inr (rc, tr')"
proof -
  have e: "length (show_fp 9 2 x) \<le> 43" if "x \<in> set es" for x
    using assms [OF that] by (rule show_float_length) simp
  have t: "length (show_signed (c :: c_long)) \<le> 20 + 1" "length (show_signed (d :: c_int)) \<le> 10 + 1" for c d
    by (rule show_signed_length; simp)+
  show "\<exists>rc tr'. insert_device_energy db de tr = Inr (rc, tr')"
    if "de_ecpu de \<in> set es" "de_emem de \<in> set es" "de_enet de \<in> set es" "de_edisk de \<in> set es"
    using that [THEN e] t(1) [of "de_time de"] unfolding insert_device_energy_def
    by (intro send_total) (simp add: QUERY_SIZE_def)
  show "\<exists>rc tr'. insert_process_energy db pe tr = Inr (rc, tr')"
    if "pe_ecpu pe \<in> set es" "pe_emem pe \<in> set es" "pe_enet pe \<in> set es" "pe_edisk pe \<in> set es"
    using that [THEN e] t(1) [of "pe_time pe"] t(2) [of "pe_pid pe"] unfolding insert_process_energy_def
    by (intro send_total) (simp add: QUERY_SIZE_def)
qed

text \<open>A record with a command line of the length the program reads.\<close>

definition with_name :: "process_info \<Rightarrow> bool" where
  "with_name q \<longleftrightarrow> (\<exists>c. pi_cmdline q = Some c \<and> length c \<le> 15)"

section \<open>Property\<close>

text \<open>C23: the insertions always fit: whatever the counters of the two samples are, the rates computed from them
  are values of type \<^verbatim>\<open>float\<close> of at most 43 characters, so the statement of a process whose name has at
  most 56 characters (the program reads 15) and that of the system stay in their buffer of 1024 bytes.\<close>

theorem process_insert_fits:
  assumes "length (comm qi) \<le> 56" and "is_float (si_cpupower st)"
  shows "(\<exists>p' rc tr'. insert_ps db (process_rates hz tlm time itv qi pj) tr = Inr (p', rc, tr')) \<and>
    (\<exists>rc tr'. insert_sys_info db st tr = Inr (rc, tr')) \<and>
    (\<forall>f \<in> {pi_utime, pi_stime, pi_gtime, pi_cpu, pi_mem, pi_ratio}.
       length (show_fp 7 2 (f (process_rates hz tlm time itv qi pj))) \<le> 43)"
proof -
  let ?p = "process_rates hz tlm time itv qi pj"
  have r: "rates_ok ?p" by (rule process_rates_ok)
  have "pi_cmdline ?p = Some (comm qi)" by (simp add: process_rates_def Let_def)
  then have "length (case pi_cmdline ?p of None \<Rightarrow> [] | Some c \<Rightarrow> c) \<le> 56" using assms(1) by simp
  then have "\<exists>p' rc tr'. insert_ps db ?p tr = Inr (p', rc, tr')" by (rule insert_ps_comes_back [OF r])
  moreover have "\<forall>f \<in> {pi_utime, pi_stime, pi_gtime, pi_cpu, pi_mem, pi_ratio}. is_float (f ?p)"
    using r by (simp add: rates_ok_def)
  then have "\<forall>f \<in> {pi_utime, pi_stime, pi_gtime, pi_cpu, pi_mem, pi_ratio}. length (show_fp 7 2 (f ?p)) \<le> 43"
    using show_float_length [where w = 7] by fastforce
  ultimately show ?thesis using insert_sys_info_comes_back [OF assms(2)] by blast
qed

theorem process_insert_fits_witness:
  "\<forall>db tlm time. \<exists>p' rc tr'. insert_ps db (process_rates 100 tlm time 0
     (zero_pid_stats\<lparr>comm := ''kworker'', utime := - 1\<rparr>) zero_pid_stats) [] = Inr (p', rc, tr')"
proof (intro allI)
  fix db tlm time
  have "length (comm (zero_pid_stats\<lparr>comm := ''kworker'', utime := - 1\<rparr>)) \<le> 56" "is_float (si_cpupower zero_sys_info)"
    by (simp_all add: zero_sys_info_def)
  from process_insert_fits [OF this, of db 100 tlm time 0 zero_pid_stats "[]"]
  show "\<exists>p' rc tr'. insert_ps db (process_rates 100 tlm time 0
      (zero_pid_stats\<lparr>comm := ''kworker'', utime := - 1\<rparr>) zero_pid_stats) [] = Inr (p', rc, tr')" by blast
qed

end
