(* ===== verification/Traversal.thy ===== *)
theory Traversal
  imports Ptop
begin

text \<open>
  The writing pass as a loop.  The code recurses over the tree of processes and passes its totals,
  its list and its history along in global variables; here that recursion is shown equal to one loop
  over the processes in preorder, and the list it leaves to a ranking of the first 40 of them.
\<close>

section \<open>The processes in preorder\<close>

fun preorder :: "avl \<Rightarrow> (int \<times> int \<times> samples) list" where
  "preorder NULL = []"
| "preorder (AvlNode e f l r h p) = (e, f, p) # preorder l @ preorder r"

lemma preorder_entries: "mset (preorder t) = mset (entries t)"
  by (induction t) simp_all

lemma preorder_sampled:
  assumes "sampled t"
  shows "\<forall>(k, f, p) \<in> set (preorder t). fst p \<noteq> None \<and> snd p \<noteq> None"
proof -
  have "set (preorder t) = set (entries t)" using preorder_entries by (metis set_mset_mset)
  then show ?thesis using assms by (simp add: sampled_def list_all_iff)
qed

text \<open>The tree without its contents.\<close>

fun skeleton :: "avl \<Rightarrow> avl" where
  "skeleton NULL = NULL"
| "skeleton (AvlNode e f l r h p) = AvlNode e 0 (skeleton l) (skeleton r) h (None, None)"

fun write_nodes ::
  "wparams \<Rightarrow> nat \<Rightarrow> (int \<times> int \<times> samples) list \<Rightarrow> wstate \<Rightarrow> ((int \<times> int \<times> samples) list \<times> wstate) res" where
  "write_nodes wp cr [] s = Inr ([], s)"
| "write_nodes wp cr ((k, v) # xs) s =
    bindR (write_node wp cr v s) (\<lambda>(v', s1).
    bindR (write_nodes wp cr xs s1) (\<lambda>(ys, s2). Inr ((k, v') # ys, s2)))"

lemma write_nodes_append:
  "write_nodes wp cr (xs @ ys) s =
    bindR (write_nodes wp cr xs s) (\<lambda>(xs', s1).
    bindR (write_nodes wp cr ys s1) (\<lambda>(ys', s2). Inr (xs' @ ys', s2)))"
proof (induction xs arbitrary: s)
  case Nil
  show ?case by (cases "write_nodes wp cr ys s") auto
next
  case (Cons a xs)
  obtain k v where a: "a = (k, v)" by (rule prod.exhaust)
  show ?case
  proof (cases "write_node wp cr v s")
    case (Inr b)
    obtain v' s1 where b: "b = (v', s1)" by (rule prod.exhaust)
    show ?thesis
    proof (cases "write_nodes wp cr xs s1")
      case (Inr c)
      obtain xs' s2 where "c = (xs', s2)" by (rule prod.exhaust)
      then show ?thesis
        using \<open>write_node wp cr v s = Inr b\<close> b Inr Cons.IH [of s1]
        by (cases "write_nodes wp cr ys s2") (auto simp: a)
    qed (use Inr b Cons.IH [of s1] in \<open>simp add: a\<close>)
  qed (simp add: a)
qed

lemma write_stat_nodes:
  assumes "t \<noteq> NULL"
  shows "bindR (write_stat wp cr t s) (\<lambda>(t', s'). Inr (preorder t', s')) = write_nodes wp cr (preorder t) s"
  using assms
proof (induction t arbitrary: s)
  case (AvlNode e f l r h p)
  let ?sub = "\<lambda>u s. if u = NULL then Inr (NULL, s) else write_stat wp cr u s"
  have l: "bindR (?sub l s) (\<lambda>(t', s'). Inr (preorder t', s')) = write_nodes wp cr (preorder l) s" for s
    using AvlNode.IH(1) [of s] by (cases "l = NULL") simp_all
  have r: "bindR (?sub r s) (\<lambda>(t', s'). Inr (preorder t', s')) = write_nodes wp cr (preorder r) s" for s
    using AvlNode.IH(2) [of s] by (cases "r = NULL") simp_all
  show ?case
  proof (cases "write_node wp cr (f, p) s")
    case (Inr b)
    obtain f' p' s1 where b: "b = ((f', p'), s1)" by (metis prod.exhaust)
    show ?thesis
    proof (cases "?sub l s1")
      case (Inr c)
      obtain l' s2 where c: "c = (l', s2)" by (rule prod.exhaust)
      then have nl: "write_nodes wp cr (preorder l) s1 = Inr (preorder l', s2)" using l [of s1] Inr by simp
      show ?thesis
      proof (cases "?sub r s2")
        case (Inr d)
        obtain r' s3 where d: "d = (r', s3)" by (rule prod.exhaust)
        then have "write_nodes wp cr (preorder r) s2 = Inr (preorder r', s3)" using r [of s2] Inr by simp
        then show ?thesis
          using \<open>write_node wp cr (f, p) s = Inr b\<close> \<open>?sub l s1 = Inr c\<close> Inr b c d nl
          by (simp add: write_nodes_append)
      next
        case (Inl x)
        then have "write_nodes wp cr (preorder r) s2 = Inl x" using r [of s2] by simp
        then show ?thesis
          using \<open>write_node wp cr (f, p) s = Inr b\<close> \<open>?sub l s1 = Inr c\<close> Inl b c nl
          by (simp add: write_nodes_append)
      qed
    next
      case (Inl x)
      then have "write_nodes wp cr (preorder l) s1 = Inl x" using l [of s1] by simp
      then show ?thesis
        using \<open>write_node wp cr (f, p) s = Inr b\<close> Inl b by (simp add: write_nodes_append)
    qed
  qed simp
qed simp

lemma write_stat_skeleton: "write_stat wp cr t s = Inr (t', s') \<Longrightarrow> skeleton t' = skeleton t"
proof (induction t arbitrary: s t' s')
  case (AvlNode e f l r h p)
  from AvlNode.prems obtain f' p' s1 l' s2 r' where
    l: "(if l = NULL then Inr (NULL, s1) else write_stat wp cr l s1) = Inr (l', s2)"
    and r: "(if r = NULL then Inr (NULL, s2) else write_stat wp cr r s2) = Inr (r', s')"
    and t': "t' = AvlNode e f' l' r' h p'"
    by (auto simp: bindR_eq_Inr)
  have "skeleton l' = skeleton l" using AvlNode.IH(1) [of s1] l by (auto split: if_splits)
  moreover have "skeleton r' = skeleton r" using AvlNode.IH(2) [of s2] r by (auto split: if_splits)
  ultimately show ?case by (simp add: t')
qed simp

section \<open>The processes that are listed\<close>

text \<open>The record of an active node that uses the processor, the memory bus or the network.\<close>

fun node_record :: "wparams \<Rightarrow> nat \<Rightarrow> int \<times> samples \<Rightarrow> process_info option" where
  "node_record wp cr (f, p) =
    (case (pst_get cr p, pst_get (1 - cr) p) of
       (Some q, Some pj) \<Rightarrow>
         (let rec = process_rates (wp_hz wp) (wp_tlmkb wp) (wp_time wp) (wp_itv wp) (no_jitter pj q) pj
          in if 0 < pid q \<and> \<not> same_sample q pj \<and> wp_screen wp \<and> listed rec then Some rec else None)
     | _ \<Rightarrow> None)"

definition listed_records :: "wparams \<Rightarrow> nat \<Rightarrow> avl \<Rightarrow> process_info list" where
  "listed_records wp cr t = List.map_filter (\<lambda>(k, v). node_record wp cr v) (preorder t)"

text \<open>The state after the records \<open>rs\<close>: how many there were, and the first 40 of them ranked.\<close>

definition ranks :: "process_info list \<Rightarrow> wstate \<Rightarrow> bool" where
  "ranks rs s \<longleftrightarrow> w_idx s = int (length rs) \<and> top_ok (min 40 (length rs)) (w_top s) \<and>
     mset (take (min 40 (length rs)) (w_top s)) = mset (take 40 rs)"

lemma ranks_cong: "w_top s' = w_top s \<Longrightarrow> w_idx s' = w_idx s \<Longrightarrow> ranks rs s' = ranks rs s"
  by (simp add: ranks_def)

lemma ranks_add:
  assumes "ranks rs s" and "pi_cpu it \<noteq> NaN"
    and "w_top s' = add_higher_process_info it (nat (if w_idx s \<ge> int SHOW_NUM then int SHOW_NUM else w_idx s)) (w_top s)"
    and "w_idx s' = w_idx s + 1"
  shows "ranks (rs @ [it]) s'"
proof (cases "40 \<le> length rs")
  case True
  then have "w_top s' = w_top s"
    using assms(1,3) add_full [of "w_top s" it] by (simp add: ranks_def top_ok_def SHOW_NUM_def)
  then show ?thesis using assms(1,4) True by (simp add: ranks_def)
next
  case False
  let ?n = "length rs"
  have t: "top_ok ?n (w_top s)" and m: "mset (take ?n (w_top s)) = mset rs"
    using assms(1) False by (simp_all add: ranks_def)
  have e: "w_top s' = add_higher_process_info it ?n (w_top s)"
    using assms(1,3) False by (simp add: ranks_def SHOW_NUM_def)
  have n: "?n < 40" "min 40 (length (rs @ [it])) = Suc ?n" "take 40 (rs @ [it]) = rs @ [it]"
    using False by simp_all
  from add_top_ok [OF t n(1) assms(2)] show ?thesis
    using assms(1,4) m unfolding ranks_def n(2,3) e by simp
qed

lemma write_node_ranks:
  assumes "write_node wp cr (f, p) s = Inr (v', s')" and "fst p \<noteq> None" "snd p \<noteq> None"
    and "wp_itv wp \<noteq> 0" and "ranks rs s"
  shows "ranks (rs @ (case node_record wp cr (f, p) of None \<Rightarrow> [] | Some rec \<Rightarrow> [rec])) s'"
proof -
  obtain q pj where q: "pst_get cr p = Some q" "pst_get (1 - cr) p = Some pj"
    using assms(2,3) by (cases "cr = 0") (auto simp: pst_get_def)
  let ?rec = "process_rates (wp_hz wp) (wp_tlmkb wp) (wp_time wp) (wp_itv wp) (no_jitter pj q) pj"
  have nn: "pi_cpu ?rec \<noteq> NaN" using process_rates_cpu [OF assms(4)] .
  show ?thesis
  proof (cases "0 < pid q \<and> \<not> same_sample q pj")
    case False
    then have "w_top s' = w_top s" "w_idx s' = w_idx s"
      using assms(1-3) q by (auto simp: write_node_def is_active_Some clear_position_def Let_def bindR_eq_Inr
          word_neq_0_conv [symmetric] split: if_splits)
    then show ?thesis using False assms(5) q by (auto simp: ranks_cong [of s' s])
  next
    case True
    then have a: "pid q \<noteq> 0" "\<not> same_sample q pj" by auto
    show ?thesis
    proof (cases "wp_screen wp \<and> listed ?rec")
      case True
      then have "w_top s' = add_higher_process_info ?rec (nat (if w_idx s \<ge> int SHOW_NUM then int SHOW_NUM else w_idx s)) (w_top s)"
        and "w_idx s' = w_idx s + 1"
        using assms(1-3) q a by (auto simp: write_node_def is_active_Some Let_def bindR_eq_Inr)
      from ranks_add [OF assms(5) nn this] show ?thesis
        using True \<open>0 < pid q \<and> \<not> same_sample q pj\<close> q by (simp add: Let_def)
    next
      case False
      then have "w_top s' = w_top s" "w_idx s' = w_idx s"
        using assms(1-3) q a by (auto simp: write_node_def is_active_Some Let_def bindR_eq_Inr)
      then show ?thesis using False assms(5) q by (auto simp: ranks_cong [of s' s] Let_def)
    qed
  qed
qed

lemma write_nodes_ranks:
  assumes "write_nodes wp cr xs s = Inr (ys, s')" and "\<forall>(k, f, p) \<in> set xs. fst p \<noteq> None \<and> snd p \<noteq> None"
    and "wp_itv wp \<noteq> 0" and "ranks rs s"
  shows "ranks (rs @ List.map_filter (\<lambda>(k, v). node_record wp cr v) xs) s'"
  using assms(1,2,4)
proof (induction xs arbitrary: s rs ys)
  case Nil
  then show ?case by (simp add: map_filter_simps)
next
  case (Cons a xs)
  obtain k f p where a: "a = (k, f, p)" by (metis prod.exhaust)
  obtain v' s1 zs where 1: "write_node wp cr (f, p) s = Inr (v', s1)" and 2: "write_nodes wp cr xs s1 = Inr (zs, s')"
    using Cons.prems(1) by (auto simp: a bindR_eq_Inr)
  have p: "fst p \<noteq> None" "snd p \<noteq> None" using Cons.prems(2) by (simp_all add: a)
  have "ranks ((rs @ (case node_record wp cr (f, p) of None \<Rightarrow> [] | Some rec \<Rightarrow> [rec])) @
      List.map_filter (\<lambda>(k, v). node_record wp cr v) xs) s'"
    by (rule Cons.IH [OF 2 _ write_node_ranks [OF 1 p assms(3) Cons.prems(3)]]) (use Cons.prems(2) in auto)
  then show ?case by (cases "node_record wp cr (f, p)") (simp_all add: a map_filter_simps del: node_record.simps)
qed

section \<open>Properties\<close>

text \<open>C10: the recursion of the writing pass is a loop: on every tree with a node it computes exactly what
  one loop over the processes in preorder computes (a node before its left and its right subtree),
  the results, the totals, the list, the history and the errors included, and it puts the contents
  back into a tree of the same keys, heights and shape.\<close>

theorem write_stat_is_loop:
  assumes "t \<noteq> NULL"
  shows "bindR (write_stat wp cr t s) (\<lambda>(t', s'). Inr (preorder t', s')) = write_nodes wp cr (preorder t) s \<and>
    mset (preorder t) = mset (entries t) \<and>
    (\<forall>t' s'. write_stat wp cr t s = Inr (t', s') \<longrightarrow> skeleton t' = skeleton t)"
  using write_stat_nodes [OF assms] preorder_entries write_stat_skeleton by blast

theorem write_stat_is_loop_witness:
  "\<forall>wp cr s. bindR (write_stat wp cr (AvlNode 7 5 NULL NULL 0 (None, None)) s) (\<lambda>(t', s'). Inr (preorder t', s')) =
    write_nodes wp cr [(7, 5, None, None)] s"
  using write_stat_is_loop [of "AvlNode 7 5 NULL NULL 0 (None, None)"] by simp

text \<open>C11: the list of the processes: over a nonempty interval the writing pass leaves in the list exactly the
  first 40 listed processes in the preorder of the tree, sorted by decreasing CPU share, and returns
  their total number less one.  So the list is right as long as at most 40 processes are listed; with
  more, the most active process of all can be missing.\<close>

theorem process_list_is_ranking:
  assumes "write_process_stats db cr time st ss t = Inr (amount, t', w)" and "sampled t" and "length (pst_list st) = 41"
    and "itv = u64_subcount (ucast (si_runtime (ss ! cr))) (ucast (si_runtime (ss ! (1 - cr))))" and "itv \<noteq> 0"
    and "rs = listed_records \<lparr>wp_db = db, wp_hz = hz st, wp_tlmkb = tlm_kb st, wp_screen = screen st,
          wp_time = time, wp_itv = itv\<rparr> cr t"
  shows "amount = int (length rs) - 1 \<and>
    sorted_wrt (\<lambda>a b. pi_cpu b \<le> pi_cpu a) (take (min 40 (length rs)) (w_top w)) \<and>
    mset (take (min 40 (length rs)) (w_top w)) = mset (take 40 rs)"
proof -
  define wp where "wp = \<lparr>wp_db = db, wp_hz = hz st, wp_tlmkb = tlm_kb st, wp_screen = screen st, wp_time = time, wp_itv = itv\<rparr>"
  obtain s0 where run: "write_stat wp cr t s0 = Inr (t', w)" and s0: "w_top s0 = pst_list st" "w_idx s0 = 0"
    and am: "amount = w_idx w - 1"
    using assms(1) unfolding write_process_stats_def Let_def assms(4) [symmetric] wp_def [symmetric]
    by (auto simp: bindR_eq_Inr)
  have ne: "t \<noteq> NULL" using run by auto
  have loop: "write_nodes wp cr (preorder t) s0 = Inr (preorder t', w)"
    using write_stat_nodes [OF ne, of wp cr s0] run by simp
  note p = preorder_sampled [OF assms(2)]
  have "wp_itv wp \<noteq> 0" using assms(5) by (simp add: wp_def)
  moreover have "ranks [] s0" using s0 assms(3) by (simp add: ranks_def top_ok_def)
  ultimately have "ranks ([] @ List.map_filter (\<lambda>(k, v). node_record wp cr v) (preorder t)) w"
    using write_nodes_ranks [OF loop p] by blast
  then have "ranks rs w" by (simp add: assms(6) wp_def listed_records_def)
  then show ?thesis using am by (simp add: ranks_def top_ok_def)
qed

theorem process_list_is_ranking_witness:
  "\<forall>st. \<exists>t' w. write_process_stats \<lparr>mysql_real_connect = \<lambda>l. False, mysql_real_query = \<lambda>l q. 0\<rparr> 0 5
      (st\<lparr>screen := True, pst_list := replicate 41 zero_process_info\<rparr>)
      [zero_sys_info\<lparr>si_runtime := 9\<rparr>, zero_sys_info, zero_sys_info]
      (AvlNode 7 (- 1) NULL NULL 0 (Some (zero_pid_stats\<lparr>pid := 7, utime := 5,
         mem := (mem zero_pid_stats)\<lparr>cpu_accesses := 3\<rparr>\<rparr>), Some (zero_pid_stats\<lparr>pid := 7\<rparr>))) = Inr (0, t', w) \<and>
    map pi_pid (take 1 (w_top w)) = [7]"
proof
  fix st :: ptop
  let ?db = "\<lparr>mysql_real_connect = \<lambda>l. False, mysql_real_query = \<lambda>l q. 0\<rparr>"
  let ?st = "st\<lparr>screen := True, pst_list := replicate 41 zero_process_info\<rparr>"
  let ?ss = "[zero_sys_info\<lparr>si_runtime := 9\<rparr>, zero_sys_info, zero_sys_info]"
  let ?a = "zero_pid_stats\<lparr>pid := 7, utime := 5, mem := (mem zero_pid_stats)\<lparr>cpu_accesses := 3\<rparr>\<rparr>"
  let ?b = "zero_pid_stats\<lparr>pid := 7\<rparr>"
  let ?t = "AvlNode 7 (- 1) NULL NULL 0 (Some ?a, Some ?b)"
  let ?wp = "\<lparr>wp_db = ?db, wp_hz = hz ?st, wp_tlmkb = tlm_kb ?st, wp_screen = screen ?st, wp_time = 5, wp_itv = 9\<rparr>"
  let ?rec = "process_rates (hz st) (tlm_kb st) 5 9 (no_jitter ?b ?a) ?b"
  obtain amount t' w where run: "write_process_stats ?db 0 5 ?st ?ss ?t = Inr (amount, t', w)"
    using write_process_stats_offline [of ?db ?t 0 5 ?st ?ss] by fastforce
  have itv: "9 = u64_subcount (ucast (si_runtime (?ss ! 0))) (ucast (si_runtime (?ss ! (1 - 0))))"
    by (simp add: u64_subcount_def zero_sys_info_def)
  have "pi_cpu_accesses ?rec = 3" and pid: "pi_pid ?rec = 7"
    by (simp_all add: process_rates_def Let_def u64_subcount_def no_jitter_def zero_pid_stats_def)
  then have "listed ?rec" by (simp add: listed_def)
  moreover have "\<not> same_sample ?a ?b" by (simp add: same_sample_def zero_pid_stats_def)
  ultimately have rs: "[?rec] = listed_records ?wp 0 ?t"
    by (simp add: listed_records_def map_filter_simps pst_get_def Let_def)
  have "amount = 0" "mset (take 1 (w_top w)) = {#?rec#}"
    using process_list_is_ranking [OF run _ _ itv _ rs] by simp_all
  then have "take 1 (w_top w) = [?rec]" by (simp add: mset_single_iff)
  then show "\<exists>t' w. write_process_stats ?db 0 5 ?st ?ss ?t = Inr (0, t', w) \<and> map pi_pid (take 1 (w_top w)) = [7]"
    using run pid \<open>amount = 0\<close> by (intro exI [of _ t'] exI [of _ w]) simp
qed

end
