(* ===== verification/Nodes.thy ===== *)
theory Nodes
  imports Runs Statements Traversal
begin

text \<open>
  What every node of the tree keeps: both samples are allocated and the name in each has at most 15
  characters, because the program reads a name into 16 bytes.  With it, and the lengths of
  \<^verbatim>\<open>Statements\<close>, the writing pass comes back whatever the database does.
\<close>

section \<open>A property of all entries\<close>

context pid_table
begin

lemma visits_all:
  assumes "inv t" and "foldR (\<lambda>(x, g) t. visit look ins put x g t) xs t = Inr t'"
    and "\<forall>x g v v'. (x, g) \<in> set xs \<longrightarrow> g v = Inr v' \<longrightarrow> P v \<longrightarrow> P v'" and "P fresh"
    and "\<forall>y v. amap t y = Some v \<longrightarrow> P v"
  shows "\<forall>y v. amap t' y = Some v \<longrightarrow> P v"
  using assms
proof (induction xs arbitrary: t)
  case (Cons a xs)
  obtain x g where a: "a = (x, g)" by (rule prod.exhaust)
  with Cons.prems(2) obtain u where u: "visit look ins put x g t = Inr u"
    "foldR (\<lambda>(x, g) t. visit look ins put x g t) xs u = Inr t'"
    by (auto simp: bindR_eq_Inr)
  obtain w w' where w: "w = (case amap t x of None \<Rightarrow> fresh | Some z \<Rightarrow> z)" "g w = Inr w'"
    and i: "inv u" and m: "amap u = (amap t)(x \<mapsto> w')"
    by (rule visit_cases [OF Cons.prems(1) u(1)])
  have "P w" using w(1) Cons.prems(4,5) by (cases "amap t x") auto
  then have "P w'" using Cons.prems(3) a w(2) by (metis list.set_intros(1))
  then have "\<forall>y v. amap u y = Some v \<longrightarrow> P v" using m Cons.prems(5) by auto
  moreover have "\<forall>x g v v'. (x, g) \<in> set xs \<longrightarrow> g v = Inr v' \<longrightarrow> P v \<longrightarrow> P v'" using Cons.prems(3) by simp
  ultimately show ?case using Cons.IH [OF i u(2)] Cons.prems(4) by blast
qed simp

end

section \<open>Names\<close>

lemma line_loop_keeps:
  assumes "\<And>b s. P s \<Longrightarrow> P (body b s)"
  shows "P s \<Longrightarrow> P (line_loop body ls b s)"
  using assms by (induction ls arbitrary: b s) simp_all

lemma apply_stores_keeps:
  assumes "\<And>f v p. f \<in> set fs \<Longrightarrow> P p \<Longrightarrow> P (f v p)"
  shows "P p \<Longrightarrow> P (apply_stores fs vs p)"
  using assms by (induction fs vs p rule: apply_stores.induct) simp_all

definition named :: "pid_stats \<Rightarrow> bool" where
  "named p \<longleftrightarrow> length (comm p) \<le> 15"

lemma named_zero [simp]: "named zero_pid_stats"
  by (simp add: named_def zero_pid_stats_def)

lemma strip_paren_length: "length s \<le> n \<Longrightarrow> length (strip_paren s) \<le> n"
  by (auto simp: strip_paren_def)

lemma named_parse: "named (parse_pid_stat kb comm0 q f p)"
  unfolding named_def parse_pid_stat_def Let_def by (simp add: strip_paren_length MAX_COMM_LEN_def)

lemma named_lines:
  "named p \<Longrightarrow> named (while_fgets n status_line f b p)" "named p \<Longrightarrow> named (while_fgets n io_line f b p)"
  unfolding while_fgets_def
  by (rule line_loop_keeps; simp add: named_def status_line_def io_line_def)+

lemma named_stat:
  assumes "read_proc_pid_stat kb comm0 line f1 f2 q p = (r, p')" and "named p"
  shows "named p'"
proof -
  have "named (net_totals (apply_stores net_stores vs x))" if "named x" for vs x
  proof -
    have "named (apply_stores net_stores vs x)"
      using that by (rule apply_stores_keeps [rotated]) (auto simp: net_stores_def named_def)
    then show ?thesis by (simp add: named_def net_totals_def)
  qed
  then show ?thesis
    using assms named_parse by (auto simp: read_proc_pid_stat_def Let_def split: option.splits)
qed

lemma named_read:
  assumes "read_pid_stats ev kb pf q fd prev = Inr (rc, fd', p)"
  shows "named p"
proof -
  obtain r1 p1 where 1: "read_proc_pid_stat kb (ev_comm0 ev) (ev_line ev) (ev_stat1 ev q) (ev_stat2 ev q) q zero_pid_stats = (r1, p1)"
    by (rule prod.exhaust)
  obtain r2 p2 where 2: "read_proc_pid_status (ev_status ev q) (ev_line ev) q p1 = (r2, p2)" by (rule prod.exhaust)
  obtain r3 p3 where 3: "read_proc_pid_io (ev_io ev q) (ev_line ev) q p2 = (r3, p3)" by (rule prod.exhaust)
  have n1: "named p1" using named_stat [OF 1] by simp
  have upd: "named (x\<lparr>pid := y\<rparr>) = named x" "named (x\<lparr>mem := z\<rparr>) = named x" for x y z by (simp_all add: named_def)
  have n2: "named p2" using 2 n1 by (auto simp: read_proc_pid_status_def upd named_lines split: option.splits)
  have n3: "named p3" using 3 n2 by (auto simp: read_proc_pid_io_def upd named_lines split: option.splits)
  show ?thesis
    using assms n1 n2 n3
    by (auto simp: read_pid_stats_def 1 2 3 Let_def bindR_eq_Inr read_proc_pid_mem_def upd split: if_splits)
qed

text \<open>A node with both samples allocated and named.\<close>

fun node_ok :: "int \<times> samples \<Rightarrow> bool" where
  "node_ok (f, Some a, Some b) \<longleftrightarrow> named a \<and> named b"
| "node_ok v = False"

lemma node_okE:
  assumes "node_ok v"
  obtains f a b where "v = (f, Some a, Some b)" and "named a" and "named b"
  using assms by (cases v rule: node_ok.cases) auto

lemma read_into_ok:
  assumes "node_ok v" and "read_into ev kb pf cr q v = Inr v'"
  shows "node_ok v'"
  using assms(1)
proof (rule node_okE)
  fix f a b assume v: "v = (f, Some a, Some b)" and n: "named a" "named b"
  have upd: "named (x\<lparr>pid := y\<rparr>) = named x" for x y by (simp add: named_def)
  show ?thesis
    using assms(2) n unfolding v
    by (cases "cr = 0") (auto simp: read_into_def pst_get_def pst_set_def bindR_eq_Inr upd dest!: named_read)
qed

lemma write_node_ok:
  assumes "node_ok v" and "write_node wp cr v s = Inr (v', s')"
  shows "node_ok v'"
  using assms(1)
proof (rule node_okE)
  fix f a b assume v: "v = (f, Some a, Some b)" and n: "named a" "named b"
  have j: "named (no_jitter y x) = named x" for x y by (simp add: named_def no_jitter_def Let_def)
  show ?thesis
    using assms(2) n unfolding v
    by (cases "cr = 0") (auto simp: write_node_def pst_get_def pst_set_def bindR_eq_Inr clear_position_def Let_def j
        split: if_splits)
qed

section \<open>All nodes of the tree\<close>

definition nodes_ok :: "avl \<Rightarrow> bool" where
  "nodes_ok t \<longleftrightarrow> (\<forall>(k, v) \<in> set (entries t). node_ok v)"

lemma nodes_ok_simps [simp]:
  "nodes_ok NULL"
  "nodes_ok (AvlNode e f l r h p) \<longleftrightarrow> node_ok (f, p) \<and> nodes_ok l \<and> nodes_ok r"
  by (auto simp: nodes_ok_def)

lemma nodes_ok_sampled: "nodes_ok t \<Longrightarrow> sampled t"
  by (induction t) (auto elim: node_okE)

lemma nodes_ok_lookup:
  assumes "ordered t"
  shows "nodes_ok t \<longleftrightarrow> (\<forall>k v. lookup t k = Some v \<longrightarrow> node_ok v)"
proof -
  have "key_sorted (entries t)" using assms by (simp add: ordered_iff)
  then have "distinct (map fst (entries t))" by (simp add: key_sorted_def strict_sorted_iff)
  then show ?thesis by (auto simp: nodes_ok_def lookup_map_of dest: map_of_SomeD)
qed

lemma read_process_stats_ok:
  assumes "avl_inv t" and "nodes_ok t" and "read_process_stats ev kb pf cr sy t = Inr (sy', t')"
  shows "nodes_ok t'"
proof -
  obtain ds where ds: "ev_dir ev = Some ds" and run: "foldR (visit_pid ev kb pf cr) (pids_of ds) t = Inr t'"
    using assms(3) by (auto simp: read_process_stats_def bindR_eq_Inr split: option.splits)
  have o: "ordered t" "ordered t'"
    using assms(1) read_process_stats_facts(1) [OF assms(1) ds assms(3)] by (simp_all add: avl_inv_def)
  have "\<forall>k v. lookup t' k = Some v \<longrightarrow> node_ok v"
    by (rule avl_table.visits_all [OF assms(1) run [unfolded visits_as_fold]])
      (use assms(2) nodes_ok_lookup [OF o(1)] in \<open>auto intro: read_into_ok\<close>)
  then show ?thesis using nodes_ok_lookup [OF o(2)] by simp
qed

lemma write_stat_ok:
  "write_stat wp cr t s = Inr (t', s') \<Longrightarrow> nodes_ok t \<Longrightarrow> nodes_ok t'"
proof (induction t arbitrary: s t' s')
  case (AvlNode e f l r h p)
  from AvlNode.prems(1) obtain f' p' s1 l' s2 r' where
    1: "write_node wp cr (f, p) s = Inr ((f', p'), s1)"
    and l: "(if l = NULL then Inr (NULL, s1) else write_stat wp cr l s1) = Inr (l', s2)"
    and r: "(if r = NULL then Inr (NULL, s2) else write_stat wp cr r s2) = Inr (r', s')"
    and t': "t' = AvlNode e f' l' r' h p'"
    by (auto simp: bindR_eq_Inr)
  have "nodes_ok l'" using AvlNode.IH(1) [of s1] AvlNode.prems(2) l by (auto split: if_splits)
  moreover have "nodes_ok r'" using AvlNode.IH(2) [of s2] AvlNode.prems(2) r by (auto split: if_splits)
  moreover have "node_ok (f', p')" using write_node_ok [OF _ 1] AvlNode.prems(2) by simp
  ultimately show ?case by (simp add: t')
qed simp

section \<open>The writing pass comes back\<close>

lemma write_node_comes_back:
  assumes "node_ok v"
  shows "\<exists>v' s'. write_node wp cr v s = Inr (v', s')"
  using assms
proof (rule node_okE)
  fix f a b assume v: "v = (f, Some a, Some b)" and n: "named a" "named b"
  obtain q pj where q: "pst_get cr (Some a, Some b) = Some q" "pst_get (1 - cr) (Some a, Some b) = Some pj" "named q"
    using n by (cases "cr = 0") (simp_all add: pst_get_def)
  have "named (no_jitter pj q)" using q(3) by (simp add: named_def no_jitter_def Let_def)
  then have c: "length (case pi_cmdline (process_rates hz tlm time itv (no_jitter pj q) pj) of None \<Rightarrow> [] | Some c \<Rightarrow> c) \<le> 56"
    for hz tlm time itv by (simp add: process_rates_def Let_def named_def)
  have i: "\<exists>p' rc tr'. insert_ps db (process_rates hz tlm time itv (no_jitter pj q) pj) tr = Inr (p', rc, tr')"
    for db hz tlm time itv tr
    using insert_ps_comes_back [OF process_rates_ok c] .
  obtain p' rc tr' where ins: "insert_ps (wp_db wp)
      (process_rates (wp_hz wp) (wp_tlmkb wp) (wp_time wp) (wp_itv wp) (no_jitter pj q) pj) (w_log s) = Inr (p', rc, tr')"
    using i by blast
  show ?thesis
    using q(1,2) ins by (simp add: v write_node_def is_active_Some clear_position_def Let_def)
qed

lemma write_nodes_come_back:
  assumes "\<forall>(k, v) \<in> set xs. node_ok v"
  shows "\<exists>r. write_nodes wp cr xs s = Inr r"
  using assms
proof (induction xs arbitrary: s)
  case (Cons a xs)
  obtain k v where a: "a = (k, v)" by (rule prod.exhaust)
  have ok: "node_ok v" "\<forall>(k, v) \<in> set xs. node_ok v" using Cons.prems by (simp_all add: a)
  obtain v' s1 where "write_node wp cr v s = Inr (v', s1)"
    using write_node_comes_back [OF ok(1)] by blast
  moreover obtain ys s2 where "write_nodes wp cr xs s1 = Inr (ys, s2)"
    using Cons.IH [OF ok(2), of s1] by (metis prod.exhaust)
  ultimately show ?case by (simp add: a)
qed simp

lemma write_process_stats_comes_back:
  assumes "nodes_ok t" and "t \<noteq> NULL"
  shows "\<exists>r. write_process_stats db cr time st ss t = Inr r"
proof -
  have "set (preorder t) = set (entries t)" using preorder_entries by (metis set_mset_mset)
  then have "\<forall>(k, v) \<in> set (preorder t). node_ok v" using assms(1) by (simp add: nodes_ok_def)
  then have "\<exists>r. write_stat wp cr t s = Inr r" for wp s
    using write_nodes_come_back [of "preorder t" wp cr s] write_stat_nodes [OF assms(2), of wp cr s]
    by (auto simp: bindR_eq_Inr)
  then show ?thesis
    unfolding write_process_stats_def Let_def by (rule bindR_total) (simp add: case_prod_beta)
qed

text \<open>
  What the display and the system record rely on: every listed process has a short command line, and
  the energy of the processor is a float.
\<close>

definition shown :: "int \<Rightarrow> process_info list \<Rightarrow> bool" where
  "shown n l \<longleftrightarrow> 0 \<le> n \<and> length l = 41 \<and> (\<forall>q \<in> set (take (nat (min n 40)) l). with_name q)"

lemma shown_add:
  assumes "shown n l" and "with_name it"
  shows "shown (n + 1) (add_higher_process_info it (nat (if n \<ge> int SHOW_NUM then int SHOW_NUM else n)) l)"
proof (cases "n \<ge> 40")
  case True
  then have "nat (min (n + 1) 40) = nat (min n 40)" by simp
  then show ?thesis using assms True add_full [of l it] by (simp add: shown_def SHOW_NUM_def)
next
  case False
  define m where "m = nat n"
  have m: "m < 40" "nat (min n 40) = m" "nat (min (n + 1) 40) = Suc m" "length l = 41" "0 \<le> n"
    using False assms(1) by (auto simp: m_def shown_def)
  obtain k where k: "k \<le> m"
    and eq: "add_higher_process_info it m l = take k l @ it # drop k (take m l) @ drop (Suc m) l"
    using add_splits [OF m(4,1)] by metis
  have "take (Suc m) (add_higher_process_info it m l) = take k l @ it # drop k (take m l)"
    using k m(1,4) by (simp add: eq Suc_diff_le)
  moreover have "set (take k l @ drop k (take m l)) = set (take m l)"
    using k by (metis append_take_drop_id min.absorb1 take_take)
  moreover have "length (add_higher_process_info it m l) = 41" using k m(1,4) by (simp add: eq)
  ultimately show ?thesis
    using assms m False by (auto simp: shown_def SHOW_NUM_def m_def [symmetric])
qed

lemma write_nodes_keeps:
  assumes "\<And>v s v' s'. write_node wp cr v s = Inr (v', s') \<Longrightarrow> node_ok v \<Longrightarrow> Q s \<Longrightarrow> Q s'"
  shows "write_nodes wp cr xs s = Inr (ys, s') \<Longrightarrow> \<forall>(k, v) \<in> set xs. node_ok v \<Longrightarrow> Q s \<Longrightarrow> Q s'"
proof (induction xs arbitrary: s ys)
  case (Cons a xs)
  obtain k v where a: "a = (k, v)" by (rule prod.exhaust)
  obtain v' s1 zs where 1: "write_node wp cr v s = Inr (v', s1)" and 2: "write_nodes wp cr xs s1 = Inr (zs, s')"
    using Cons.prems(1) by (auto simp: a bindR_eq_Inr)
  have ok: "node_ok v" "\<forall>(k, v) \<in> set xs. node_ok v" using Cons.prems(2) by (simp_all add: a)
  show ?case by (rule Cons.IH [OF 2 ok(2) assms [OF 1 ok(1) Cons.prems(3)]])
qed simp

lemma write_node_shown:
  assumes "write_node wp cr v s = Inr (v', s')" and "node_ok v"
    and "is_float (si_cpupower (w_sys s))" and "shown (w_idx s) (w_top s)"
  shows "is_float (si_cpupower (w_sys s')) \<and> shown (w_idx s') (w_top s')"
  using assms(2)
proof (rule node_okE)
  fix f a b assume v: "v = (f, Some a, Some b)" and n: "named a" "named b"
  obtain q pj where q: "pst_get cr (Some a, Some b) = Some q" "pst_get (1 - cr) (Some a, Some b) = Some pj" "named q"
    using n by (cases "cr = 0") (simp_all add: pst_get_def)
  have c: "with_name (process_rates hz tlm time itv (no_jitter pj q) pj)" for hz tlm time itv
    using q(3) by (simp add: with_name_def named_def process_rates_def no_jitter_def Let_def)
  have add: "shown (w_idx s + 1) (add_higher_process_info (process_rates hz tlm time itv (no_jitter pj q) pj)
      (nat (if w_idx s \<ge> int SHOW_NUM then int SHOW_NUM else w_idx s)) (w_top s))" for hz tlm time itv
    using shown_add [OF assms(4) c] .
  show ?thesis
    using assms(1,3,4) add q(1,2)
    by (auto simp: v write_node_def is_active_Some clear_position_def Let_def bindR_eq_Inr split: if_splits)
qed

lemma write_process_stats_shown:
  assumes "write_process_stats db cr time st ss t = Inr (amount, t', w)" and "length (pst_list st) = 41"
    and "is_float (si_cpupower (ss ! cr))" and "nodes_ok t"
  shows "is_float (si_cpupower (w_sys w)) \<and> shown (amount + 1) (w_top w)"
proof -
  let ?Q = "\<lambda>s. is_float (si_cpupower (w_sys s)) \<and> shown (w_idx s) (w_top s)"
  obtain wp s0 where run: "write_stat wp cr t s0 = Inr (t', w)"
    and s0: "w_top s0 = pst_list st" "w_idx s0 = 0" "w_sys s0 = ss ! cr" and am: "amount = w_idx w - 1"
    using assms(1) by (auto simp: write_process_stats_def Let_def bindR_eq_Inr)
  have "t \<noteq> NULL" using run by auto
  then have loop: "write_nodes wp cr (preorder t) s0 = Inr (preorder t', w)"
    using write_stat_nodes [of t wp cr s0] run by simp
  have "set (preorder t) = set (entries t)" using preorder_entries by (metis set_mset_mset)
  then have ok: "\<forall>(k, v) \<in> set (preorder t). node_ok v" using assms(4) by (simp add: nodes_ok_def)
  have "?Q s0" using assms(2,3) s0 by (simp add: shown_def)
  then have "?Q w" using write_nodes_keeps [where Q = ?Q, OF _ loop ok] write_node_shown by blast
  then show ?thesis using am by simp
qed

lemma sample_nodes_ok:
  assumes "avl_inv (tree st)" and "nodes_ok (tree st)" and "sample cf inp st = Inr (amount, st')"
  shows "nodes_ok (tree st')"
proof -
  obtain sy1 t1 fr sy2 t2 w ss2 tr where
    a: "read_process_stats (in_proc inp) (kb_shift st) (pfs st) (cur st) (((sys_stats st)[cur st := zero_sys_info]) ! cur st)
       (tree st) = Inr (sy1, t1)"
    and b: "write_process_stats (c_db cf) (cur st) (in_ctime inp) st
       (((sys_stats st)[cur st := zero_sys_info])[cur st := sy2]) t1 = Inr (amount, t2, w)"
    and "write_system_stats (c_db cf) (cur st) (in_ctime inp) amount
       ((((sys_stats st)[cur st := zero_sys_info])[cur st := sy2])[cur st := w_sys w]) (w_log w) = Inr (ss2, tr)"
    and "length ss2 = length (sys_stats st)"
    and d: "st' = st\<lparr>sys_stats := ss2, tree := t2, frs := fr, pst_list := w_top w, dbl_log := tr, closed_fds := w_closed w\<rparr>"
    using sampleE [OF assms(3)] .
  have "nodes_ok t1" using read_process_stats_ok [OF assms(1,2) a] .
  then have "nodes_ok t2" using b by (auto simp: write_process_stats_def Let_def bindR_eq_Inr dest: write_stat_ok)
  then show ?thesis by (simp add: d)
qed

end
