(* ===== verification/Queries.thy ===== *)
theory Queries
  imports Statements
begin

text \<open>
  The screen comes back: when every row the database returns has the columns its query names, the
  queries of the energies, the insertion of their results and the text of the screen run through.
\<close>

section \<open>Rows as the queries name them\<close>

text \<open>
  The number of columns between \<^verbatim>\<open>SELECT\<close> and \<^verbatim>\<open>FROM\<close>; no query of the program has a capital \<^verbatim>\<open>F\<close>
  before \<^verbatim>\<open>FROM\<close>.  A row has one value per column; none is SQL NULL, as the tables only hold numbers.
\<close>

definition columns :: "string \<Rightarrow> nat" where
  "columns q = Suc (length (filter (\<lambda>c. c = CHR '','') (takeWhile (\<lambda>c. c \<noteq> CHR ''F'') q)))"

definition row_ok :: "nat \<Rightarrow> row \<Rightarrow> bool" where
  "row_ok n r \<longleftrightarrow> length r = n \<and> None \<notin> set r"

definition rows_ok :: "fetch \<Rightarrow> bool" where
  "rows_ok fetch \<longleftrightarrow> (\<forall>l conn q rc. \<forall>r \<in> set (fetch (l @ [Query conn q rc])). row_ok (columns q) r)"

lemma row_ok_col: "row_ok n r \<Longrightarrow> i < n \<Longrightarrow> \<exists>c. col r i = Inr c"
  unfolding row_ok_def col_def by (cases "r ! i") (auto, metis nth_mem)

lemma select_comes_back:
  assumes "rows_ok fetch" and "length query < ENERGY_QUERY_SIZE" and "columns query = n" and "P zero"
    and "\<And>r e. row_ok n r \<Longrightarrow> \<exists>e'. step r e = Inr e' \<and> P e'"
  shows "\<exists>v tr'. select db fetch query step zero tr = Inr (v, tr') \<and> P v"
proof -
  have f: "\<exists>e'. foldR step rs e = Inr e' \<and> P e'" if "\<forall>r \<in> set rs. row_ok n r" "P e" for rs e
    using that
  proof (induction rs arbitrary: e)
    case (Cons r rs)
    obtain e1 where "step r e = Inr e1" "P e1" using assms(5) [of r e] Cons.prems by auto
    moreover have "\<exists>e'. foldR step rs e1 = Inr e' \<and> P e'" using Cons.IH [of e1] Cons.prems(1) calculation(2) by simp
    ultimately show ?case by simp
  qed simp
  have "\<exists>e'. foldR step (fetch (l @ [Query conn query rc])) zero = Inr e' \<and> P e'" for l conn rc
    using assms(1,3) by (intro f assms(4)) (auto simp: rows_ok_def)
  from this [of "tr @ [Init (inits tr)]" "inits tr"
      "mysql_real_query db (tr @ [Init (inits tr)]) query"] assms(2,4)
  show ?thesis by (auto simp: select_def create_conn_def Let_def)
qed

section \<open>The energies come back\<close>

lemma query_parts:
  "length (show_signed (c :: c_int)) \<le> 11" "length (show_signed (d :: c_long)) \<le> 21"
  using show_signed_length [of 10 c] show_signed_length [of 20 d] by simp_all

lemma add_double_float [simp]: "is_float (add_double e x)"
  by (simp add: add_double_def)

lemma steps_come_back:
  "row_ok 5 r \<Longrightarrow> \<exists>e'. cpu_step r e = Inr e' \<and> is_float e'"
  "row_ok 2 r \<Longrightarrow> \<exists>e'. net_step r e = Inr e' \<and> is_float e'"
  "row_ok 2 r \<Longrightarrow> \<exists>e'. disk_step r e = Inr e' \<and> is_float e'"
  "row_ok 4 r \<Longrightarrow> \<exists>e'. mem_step r e = Inr e' \<and> is_float e'"
proof -
  show "\<exists>e'. cpu_step r e = Inr e' \<and> is_float e'" if "row_ok 5 r"
    using row_ok_col [OF that, of 0] row_ok_col [OF that, of 1] row_ok_col [OF that, of 2]
      row_ok_col [OF that, of 3] row_ok_col [OF that, of 4]
    by (auto simp: cpu_step_def Let_def)
  show "\<exists>e'. net_step r e = Inr e' \<and> is_float e'" if "row_ok 2 r"
    using row_ok_col [OF that, of 0] row_ok_col [OF that, of 1] by (auto simp: net_step_def)
  show "\<exists>e'. disk_step r e = Inr e' \<and> is_float e'" if "row_ok 2 r"
    using row_ok_col [OF that, of 0] row_ok_col [OF that, of 1] by (auto simp: disk_step_def Let_def)
  show "\<exists>e'. mem_step r e = Inr e' \<and> is_float e'" if "row_ok 4 r"
    using row_ok_col [OF that, of 0] row_ok_col [OF that, of 1] row_ok_col [OF that, of 2] row_ok_col [OF that, of 3]
    by (auto simp: mem_step_def Let_def)
qed

lemma energies_come_back:
  assumes "rows_ok fetch"
  shows "\<exists>e tr'. CPUEnergy db fetch p len now tr = Inr (e, tr') \<and> is_float e"
    and "\<exists>e tr'. NtwkEnergy db fetch p len now tr = Inr (e, tr') \<and> is_float e"
    and "\<exists>e tr'. DiskEnergy db fetch p len now tr = Inr (e, tr') \<and> is_float e"
    and "\<exists>e tr'. MemoryEnergy db fetch p len itv now tr = Inr (e, tr') \<and> is_float e"
proof -
  note q = query_parts(1) [of p] query_parts(2) [of "now - scast len"] query_parts(2) [of now]
  show "\<exists>e tr'. CPUEnergy db fetch p len now tr = Inr (e, tr') \<and> is_float e"
    unfolding CPUEnergy_def using q
    by (intro select_comes_back [OF assms _ _ _ steps_come_back(1)]) (simp_all add: ENERGY_QUERY_SIZE_def period_def columns_def)
  show "\<exists>e tr'. NtwkEnergy db fetch p len now tr = Inr (e, tr') \<and> is_float e"
    unfolding NtwkEnergy_def using q
    by (intro select_comes_back [OF assms _ _ _ steps_come_back(2)]) (simp_all add: ENERGY_QUERY_SIZE_def period0_def columns_def)
  show "\<exists>e tr'. DiskEnergy db fetch p len now tr = Inr (e, tr') \<and> is_float e"
    unfolding DiskEnergy_def using q
    by (intro select_comes_back [OF assms _ _ _ steps_come_back(3)]) (simp_all add: ENERGY_QUERY_SIZE_def columns_def)
  show "\<exists>e tr'. MemoryEnergy db fetch p len itv now tr = Inr (e, tr') \<and> is_float e"
    unfolding MemoryEnergy_def using q
    by (intro select_comes_back [OF assms _ _ _ steps_come_back(4)]) (simp_all add: ENERGY_QUERY_SIZE_def period0_def columns_def)
qed

definition device_float :: "device_energy \<Rightarrow> bool" where
  "device_float de \<longleftrightarrow> is_float (de_ecpu de) \<and> is_float (de_emem de) \<and> is_float (de_enet de) \<and> is_float (de_edisk de)"

lemma systemEnergy_comes_back:
  assumes "rows_ok fetch" and "PROCESS_ENERGY_SIZE \<le> room"
  shows "\<exists>de tr'. systemEnergy db fetch len now room tr = Inr (de, tr') \<and> device_float de"
proof -
  note q = query_parts(2) [of "now - scast len"] query_parts(2) [of now]
  have s: "\<exists>e'. sys_step r e = Inr e' \<and> device_float e'" if "row_ok 7 r" for r e
    using row_ok_col [OF that, of 0] row_ok_col [OF that, of 1] row_ok_col [OF that, of 2] row_ok_col [OF that, of 3]
      row_ok_col [OF that, of 4] row_ok_col [OF that, of 5] row_ok_col [OF that, of 6]
    by (auto simp: sys_step_def Let_def device_float_def)
  have "device_float zero_device_energy" by (simp add: device_float_def zero_device_energy_def)
  then show ?thesis
    unfolding systemEnergy_def using q assms(2)
    by (simp only: not_less [symmetric] if_False, intro select_comes_back [OF assms(1) _ _ _ s])
      (simp_all add: ENERGY_QUERY_SIZE_def columns_def)
qed

section \<open>The screen comes back\<close>

text \<open>
  An allocator that gives a few bytes more than asked for small requests, as the usual ones do:
  \<^verbatim>\<open>persists_process_energy\<close> uses one byte more than it asks for.
\<close>

definition roomy :: "(nat \<Rightarrow> nat) \<Rightarrow> bool" where
  "roomy usable \<longleftrightarrow> (\<forall>n \<le> 15. n < usable n)"

lemma energy_row_comes_back:
  assumes "rows_ok fetch" and "roomy usable" and "with_name q"
  shows "\<exists>s'. energy_row db fetch usable itv now et q s = Inr s'"
proof -
  obtain rows tr where s: "s = (rows, tr)" by (rule prod.exhaust)
  obtain c where c: "pi_cmdline q = Some c" "length c \<le> 15" using assms(3) by (auto simp: with_name_def)
  obtain ecpu tr1 where 1: "CPUEnergy db fetch (pi_pid q) itv now tr = Inr (ecpu, tr1)" "is_float ecpu"
    using energies_come_back(1) [OF assms(1)] by blast
  obtain edisk tr2 where 2: "DiskEnergy db fetch (pi_pid q) itv now tr1 = Inr (edisk, tr2)" "is_float edisk"
    using energies_come_back(3) [OF assms(1)] by blast
  obtain entw tr3 where 3: "NtwkEnergy db fetch (pi_pid q) itv now tr2 = Inr (entw, tr3)" "is_float entw"
    using energies_come_back(2) [OF assms(1)] by blast
  obtain emem tr4 where 4: "MemoryEnergy db fetch (pi_pid q) itv itv now tr3 = Inr (emem, tr4)" "is_float emem"
    using energies_come_back(4) [OF assms(1)] by blast
  let ?pe = "\<lparr>pe_pid = pi_pid q, pe_time = now, pe_ecpu = ecpu, pe_emem = emem, pe_enet = entw, pe_edisk = edisk, pe_cmdline = c\<rparr>"
  have "\<exists>rc tr'. insert_process_energy db ?pe tr4 = Inr (rc, tr')"
    by (rule insert_energy_comes_back(2) [of "[ecpu, emem, entw, edisk]"]) (use 1 2 3 4 in auto)
  moreover have "length c < usable (length c)" using assms(2) c(2) by (simp add: roomy_def)
  ultimately have "\<exists>tr5. persists_process_energy db usable now ecpu emem entw edisk q tr4 = Inr tr5"
    by (auto simp: persists_process_energy_def c(1))
  then show ?thesis by (auto simp: energy_row_def s 1 2 3 4 Let_def)
qed

lemma energy_table_comes_back:
  assumes "rows_ok fetch" and "roomy usable" and "PROCESS_ENERGY_SIZE \<le> room"
    and "\<forall>q \<in> set (take (nat (min amount 40)) pl). with_name q"
  shows "\<exists>de rows tr'. energy_table db fetch usable room itv now pl amount tr = Inr (de, rows, tr')"
proof -
  obtain de tr1 where 1: "systemEnergy db fetch itv now room tr = Inr (de, tr1)" "device_float de"
    using systemEnergy_comes_back [OF assms(1,3)] by blast
  have "\<exists>rc tr'. insert_device_energy db de tr1 = Inr (rc, tr')"
    by (rule insert_energy_comes_back(1) [of "[de_ecpu de, de_emem de, de_enet de, de_edisk de]"])
      (use 1(2) in \<open>auto simp: device_float_def\<close>)
  then obtain tr2 where 2: "persist_device_energy db de tr1 = Inr tr2" by (auto simp: persist_device_energy_def)
  have m: "nat (if amount > int SHOW_NUM then int SHOW_NUM else amount) = nat (min amount 40)"
    by (simp add: SHOW_NUM_def)
  have "\<exists>t. foldR (energy_row db fetch usable itv now et) (take (nat (min amount 40)) pl) s = Inr t" for et s
    using assms(4) by (intro foldR_total energy_row_comes_back [OF assms(1,2)]) blast
  then obtain rows tr3 where "foldR (energy_row db fetch usable itv now (fadd f32 (fadd f32 (de_ecpu de) (de_edisk de)) (de_emem de)))
      (take (nat (min amount 40)) pl) ([], tr2) = Inr (rows, tr3)"
    by (metis prod.exhaust)
  then show ?thesis by (simp add: energy_table_def 1 2 Let_def m [unfolded Let_def])
qed

text \<open>A calendar time as \<^verbatim>\<open>localtime\<close> gives it, up to the year 9999.\<close>

definition tm_ok :: "tm \<Rightarrow> bool" where
  "tm_ok tt \<longleftrightarrow> 0 \<le> tm_sec tt \<and> tm_sec tt \<le> 60 \<and> 0 \<le> tm_min tt \<and> tm_min tt < 60 \<and> 0 \<le> tm_hour tt \<and> tm_hour tt < 24 \<and>
     1 \<le> tm_mday tt \<and> tm_mday tt \<le> 31 \<and> 0 \<le> tm_mon tt \<and> tm_mon tt < 12 \<and> - 1900 \<le> tm_year tt \<and> tm_year tt < 8100"

lemma show_zero_length:
  assumes "0 \<le> i" and "nat i < 10 ^ w" and "0 < w"
  shows "length (show_zero w i) = w"
  using assms show_nat_length [OF assms(3,2)] by (simp add: show_zero_def pad_left_def)

lemma clock_length:
  assumes "localtime t = Some tt" and "tm_ok tt"
  obtains d c where "convdate localtime t = Inr d" and "convtime localtime t = Inr c" and "length d = 10" and "length c = 8"
proof -
  have "length (show_zero 2 (tm_hour tt)) = 2" "length (show_zero 2 (tm_min tt)) = 2" "length (show_zero 2 (tm_sec tt)) = 2"
    "length (show_zero 4 (tm_year tt + 1900)) = 4" "length (show_zero 2 (tm_mon tt + 1)) = 2" "length (show_zero 2 (tm_mday tt)) = 2"
    using assms(2) by (auto intro!: show_zero_length simp: tm_ok_def)
  then show ?thesis using that assms(1) by (simp add: convdate_def convtime_def)
qed

lemma handle_key_returns:
  assumes "lastchar \<noteq> of_char MQUIT"
  shows "\<exists>n. snd (handle_key itv lastchar paused help typed1 typed2 ok) = Return n"
  using assms by (simp add: handle_key_def Let_def case_prod_beta)

lemma show_proc_stat_comes_back:
  assumes "rows_ok fetch" and "roomy usable" and "PROCESS_ENERGY_SIZE \<le> room" and "LEAST_COLUMS \<le> ui_cols ui"
    and "localtime curtime = Some tt" and "tm_ok tt" and "ui_select ui \<le> 0 \<or> ui_char ui \<noteq> of_char MQUIT"
    and "\<forall>q \<in> set (take (nat (min amount 40)) pl). with_name q"
  shows "\<exists>scr evs texts n tr'.
    show_proc_stat db fetch usable room ui localtime curtime itv pl amount now tr = Inr (scr, evs, texts, Return n, tr')"
proof (cases "ui_tty ui")
  case True
  obtain d c where dc: "convdate localtime curtime = Inr d" "convtime localtime curtime = Inr c" "length d = 10" "length c = 8"
    using clock_length [where localtime = localtime and t = curtime, OF assms(5,6)] .
  obtain de rows tr' where t: "energy_table db fetch usable room itv now pl amount tr = Inr (de, rows, tr')"
    using energy_table_comes_back [OF assms(1-3,8)] by blast
  show ?thesis
  proof (cases "wait_key ui")
    case None
    then show ?thesis
      using True assms(4) dc t by (auto simp: show_proc_stat_def Let_def length_elapsed_two)
  next
    case (Some key)
    then have "key \<noteq> of_char MQUIT" using assms(7) by (auto simp: wait_key_def MQUIT_def split: if_splits)
    then obtain n where "snd (handle_key (sint itv) key False (showhelp (ui_lines ui) 2 (ui_pressed ui))
        (ui_typed1 ui) (ui_typed2 ui) (ui_kill ui)) = Return n"
      using handle_key_returns by blast
    then show ?thesis
      using True assms(4) dc t Some by (auto simp: show_proc_stat_def Let_def length_elapsed_two case_prod_beta)
  qed
qed (auto simp: show_proc_stat_def Let_def intro: exI [of _ False])

end
