(* ===== verification/Progress.thy ===== *)
theory Progress
  imports Nodes Queries
begin

text \<open>
  The loop is never stuck: when the files can be read and memory is there, every reachable state has a
  next iteration, whatever the database does, so the program runs as long as it is left alone.
\<close>

section \<open>Folds that come back\<close>

definition returns :: "'a res \<Rightarrow> bool" where
  "returns r \<longleftrightarrow> (\<exists>x. r = Inr x)"

lemma returns_simps [simp]: "returns (Inr x)" "\<not> returns (Inl e)"
  by (simp_all add: returns_def)

lemma returns_bind: "returns r \<Longrightarrow> (\<And>x. r = Inr x \<Longrightarrow> returns (f x)) \<Longrightarrow> returns (bindR r f)"
  by (auto simp: returns_def)

lemma foldR_total_inv:
  assumes "\<And>x s. x \<in> set xs \<Longrightarrow> P s \<Longrightarrow> \<exists>s'. f x s = Inr s'"
    and "\<And>x s s'. x \<in> set xs \<Longrightarrow> P s \<Longrightarrow> f x s = Inr s' \<Longrightarrow> P s'" and "P s"
  shows "\<exists>t. foldR f xs s = Inr t"
  using assms
proof (induction xs arbitrary: s)
  case (Cons x xs)
  obtain u where u: "f x s = Inr u" using Cons.prems(1) [of x s] Cons.prems(3) by auto
  have "\<exists>t. foldR f xs u = Inr t"
  proof (rule Cons.IH)
    show "\<exists>s'. f y v = Inr s'" if "y \<in> set xs" "P v" for y v using Cons.prems(1) [of y v] that by simp
    show "P v'" if "y \<in> set xs" "P v" "f y v = Inr v'" for y v v' using Cons.prems(2) [of y v v'] that by simp
    show "P u" using Cons.prems(2) [of x s u] Cons.prems(3) u by simp
  qed
  then show ?case using u by simp
qed simp

section \<open>The reading pass comes back\<close>

text \<open>
  The files of the processes listed can be opened, and \<^verbatim>\<open>meminfo\<close> has a line for the active memory.
\<close>

definition has_active :: "string option \<Rightarrow> bool" where
  "has_active f \<longleftrightarrow> (\<exists>xs. f = Some (unlines (map field_line xs)) \<and> (\<forall>x \<in> set xs. field_ok 128 x) \<and>
     ''Active:'' \<in> fst ` set xs)"

definition proc_ready :: "proc_env \<Rightarrow> bool" where
  "proc_ready ev \<longleftrightarrow> (\<forall>i. ev_malloc ev i) \<and> ev_cpu ev \<noteq> None \<and>
     (\<exists>ds. ev_dir ev = Some ds \<and> pids_of ds \<noteq> [] \<and>
       (\<forall>q \<in> set (pids_of ds). ev_smaps ev q \<noteq> None \<and> has_active (ev_meminfo ev q)))"

lemma total_active_memory_total:
  assumes "has_active f"
  shows "\<exists>a. total_active_memory f buff = Inr a"
proof -
  obtain xs where f: "f = Some (unlines (map field_line xs))" and ok: "\<And>x. x \<in> set xs \<Longrightarrow> field_ok 128 x"
    and a: "''Active:'' \<in> fst ` set xs"
    using assms unfolding has_active_def by blast
  obtain x where "x \<in> set xs" "fst x = ''Active:''" using a by auto
  then have "filter (\<lambda>x. fst x = ''Active:'') xs \<noteq> []" unfolding filter_empty_conv by blast
  then show ?thesis
    unfolding f by (subst total_active_memory_first [OF ok]) (auto split: list.split)
qed

lemma read_pid_stats_total:
  assumes "ev_smaps ev q \<noteq> None" and "has_active (ev_meminfo ev q)"
  shows "returns (read_pid_stats ev kb pf q fd (Some prev))"
proof -
  obtain s where s: "ev_smaps ev q = Some s" using assms(1) by blast
  obtain a where a: "total_active_memory (ev_meminfo ev q) (ev_line ev) = Inr a"
    using total_active_memory_total [OF assms(2)] by blast
  have m: "returns (read_proc_pid_mem popen rd pf (ev_smaps ev q) (ev_meminfo ev q) (ev_line ev) sc q p fd act)"
    for popen rd sc p act
    by (simp add: read_proc_pid_mem_def s a read_smaps_def create_perf_stat_counter_def Let_def)
  show ?thesis
    unfolding read_pid_stats_def Let_def
    by (auto simp: is_active_Some split: prod.split intro!: returns_bind m)
qed

lemma visit_pid_total:
  assumes "avl_inv t" and "sampled t" and "\<And>i. ev_malloc ev i"
    and "ev_smaps ev q \<noteq> None" and "has_active (ev_meminfo ev q)"
  shows "\<exists>t'. visit_pid ev kb pf cr q t = Inr t'"
proof -
  obtain f p t1 where p: "fst p \<noteq> None" "snd p \<noteq> None" and v:
    "visit_pid ev kb pf cr q t = bindR (read_into ev kb pf cr q (f, p)) (\<lambda>v'. Inr (update_at (sint q) (\<lambda>_. v') t1))"
    using visit_pid_reads [OF assms(1-3)] .
  obtain a b where "pst_get cr p = Some a" and b: "pst_get (1 - cr) p = Some b"
    using p by (cases "cr = 0") (auto simp: pst_get_def)
  moreover obtain rc fd' pst where "read_pid_stats ev kb pf q f (Some b) = Inr (rc, fd', pst)"
    using read_pid_stats_total [OF assms(4,5)] unfolding returns_def by (metis prod_cases3)
  ultimately show ?thesis by (simp add: v read_into_def)
qed

lemma read_process_stats_total:
  assumes "avl_inv t" and "sampled t" and "proc_ready ev"
  shows "\<exists>r. read_process_stats ev kb pf cr sy t = Inr r"
proof -
  have m: "ev_malloc ev i" for i using assms(3) by (simp add: proc_ready_def)
  obtain ds where ds: "ev_dir ev = Some ds"
    and ok: "\<And>q. q \<in> set (pids_of ds) \<Longrightarrow> ev_smaps ev q \<noteq> None \<and> has_active (ev_meminfo ev q)"
    using assms(3) unfolding proc_ready_def by blast
  have "\<exists>t'. foldR (visit_pid ev kb pf cr) (pids_of ds) t = Inr t'"
  proof (rule foldR_total_inv [where P = "\<lambda>t. avl_inv t \<and> sampled t"])
    show "\<exists>t'. visit_pid ev kb pf cr q u = Inr t'" if "q \<in> set (pids_of ds)" "avl_inv u \<and> sampled u" for q u
      using that ok m by (intro visit_pid_total) simp_all
    show "avl_inv u' \<and> sampled u'" if "avl_inv u \<and> sampled u" "visit_pid ev kb pf cr q u = Inr u'" for q u u'
      using visit_pid_sampled [of u ev kb pf cr q u'] that by simp
    show "avl_inv t \<and> sampled t" using assms by simp
  qed
  moreover have "\<exists>s. read_stat_cpu (ev_cpu ev) (ev_line ev) sy = Inr s"
    using assms(3) by (auto simp: proc_ready_def read_stat_cpu_def Let_def split: option.split prod.split)
  ultimately show ?thesis by (auto simp: read_process_stats_def ds)
qed

section \<open>The system records come back\<close>

text \<open>No wireless file, or one in which every line starts with a word of at most nine characters.\<close>

definition wireless_ok :: "string option \<Rightarrow> bool" where
  "wireless_ok f \<longleftrightarrow> f = None \<or> (\<exists>ls. f = Some (unlines ls) \<and> (\<forall>l \<in> set ls. short_word l))"

lemma wireless_loop_total:
  assumes "\<forall>l \<in> set ls. short_word l"
  shows "\<exists>h b' w'. wireless_loop (map (\<lambda>l. l @ [newline]) ls) b w = Inr (h, b', w') \<and> (h \<longrightarrow> nul \<in> set w')"
  using assms
proof (induction ls arbitrary: b w)
  case (Cons l ls)
  have w: "short_word l" "\<forall>l \<in> set ls. short_word l" using Cons.prems by simp_all
  show ?case
  proof (cases "prefix ''eth'' (first_word l)")
    case True
    have eq: "wireless_loop (map (\<lambda>l. l @ [newline]) (l # ls)) b w =
        Inr (True, store (l @ [newline]) b, store (first_word l) w)"
      using True by (simp only: list.map wireless_step [OF w(1)] if_True)
    show ?thesis unfolding eq by (intro exI conjI) (auto simp: store_def)
  next
    case False
    have eq: "wireless_loop (map (\<lambda>l. l @ [newline]) (l # ls)) b w =
        wireless_loop (map (\<lambda>l. l @ [newline]) ls) (store (l @ [newline]) b) (store (first_word l) w)"
      using False by (simp only: list.map wireless_step [OF w(1)] if_False)
    show ?thesis unfolding eq by (rule Cons.IH [OF w(2)])
  qed
qed (auto intro: exI [of _ False])

lemma stat_sysnet_stats_total:
  assumes "wireless_ok f"
  shows "\<exists>i'. stat_sysnet_stats f nd b w n i = Inr i' \<and> si_cpupower i' = si_cpupower i"
proof (cases f)
  case (Some x)
  obtain ls where ls: "f = Some (unlines ls)" "\<forall>l \<in> set ls. short_word l"
    using assms Some unfolding wireless_ok_def by auto
  have p: "si_cpupower (dev_loop len wl ls b nm i) = si_cpupower i" for len wl ls b nm i
    by (induction len wl ls b nm i rule: dev_loop.induct) (simp_all add: Let_def)
  have "fgets_all 128 (unlines ls) = map (\<lambda>l. l @ [newline]) ls"
    using ls(2) by (subst fgets_all_unlines) (auto simp: short_word_def)
  moreover obtain h b' w' where "wireless_loop (map (\<lambda>l. l @ [newline]) ls) b w = Inr (h, b', w')" "h \<longrightarrow> nul \<in> set w'"
    using wireless_loop_total [OF ls(2)] by blast
  ultimately show ?thesis by (cases h; cases nd) (simp_all add: stat_sysnet_stats_def ls(1) Let_def p)
qed (simp add: stat_sysnet_stats_def Let_def)

lemma read_cpu_counter_total:
  assumes "perf_inv pf"
  shows "\<exists>v. read_cpu_counter rd pf = Inr v"
  unfolding read_cpu_counter_def
  using assms by (intro foldR_total) (auto simp: perf_inv_def cpu_indices_def)

lemma power_float: "is_float (si_cpupower (snd (read_cpufreq_stats time cpufreq dir fopen fs i)))"
proof -
  have p: "is_float e \<Longrightarrow> is_float (power_loop a m cs r d e)" for a m cs r d e
    by (induction a m cs r d e rule: power_loop.induct) (simp_all add: Let_def)
  show ?thesis
    by (simp add: read_cpufreq_stats_def Let_def p case_prod_beta split: option.split)
qed

lemma read_system_stats_total:
  assumes "perf_inv pf" and "wireless_ok (in_wireless inp)"
  shows "\<exists>fr' sy'. read_system_stats inp cf pf fr sy = Inr (fr', sy') \<and> is_float (si_cpupower sy')"
proof -
  obtain fr' sy1 where f: "read_cpufreq_stats (in_time inp) cf (in_freq_dir inp) (in_freq_open inp) fr sy = (fr', sy1)"
    by (rule prod.exhaust)
  then have p: "is_float (si_cpupower sy1)" using power_float [of "in_time inp" cf] by (metis snd_conv)
  obtain v where "read_cpu_counter (ev_read (in_proc inp)) pf = Inr v"
    using read_cpu_counter_total [OF assms(1)] by blast
  moreover obtain i' where "stat_sysnet_stats (in_wireless inp) (in_dev inp) (ev_line (in_proc inp)) (in_word inp) (in_name inp)
      (sy1\<lparr>si_memaccess := v\<rparr>) = Inr i'" "si_cpupower i' = si_cpupower sy1"
    using stat_sysnet_stats_total [OF assms(2), of "in_dev inp" _ _ _ "sy1\<lparr>si_memaccess := v\<rparr>"] by fastforce
  ultimately show ?thesis using p by (simp add: read_system_stats_def f stat_sysmem_stats_def)
qed

section \<open>A sample comes back\<close>

lemma write_system_stats_total:
  assumes "is_float (si_cpupower (ss ! cr))"
  shows "\<exists>ss' tr'. write_system_stats db cr time amount ss tr = Inr (ss', tr')"
proof -
  have i: "\<exists>x. insert_sys_info db st tr = Inr x" if "si_cpupower st = si_cpupower (ss ! cr)" for st
    using insert_sys_info_comes_back [of st] assms that by metis
  have "\<exists>q. write_system_stats db cr time amount ss tr = Inr q"
    unfolding write_system_stats_def Let_def
    by (rule bindR_total, rule i) (simp_all add: case_prod_beta)
  then show ?thesis by (metis prod.exhaust)
qed

lemma sample_comes_back:
  assumes "ptop_inv st" and "nodes_ok (tree st)" and "proc_ready (in_proc inp)" and "wireless_ok (in_wireless inp)"
  shows "\<exists>amount st'. sample cf inp st = Inr (amount, st') \<and> nodes_ok (tree st') \<and> shown (amount + 1) (pst_list st')"
proof -
  have i: "avl_inv (tree st)" "sampled (tree st)" "perf_inv (pfs st)" "length (pst_list st) = 41"
      "length (sys_stats st) = 3" "cur st < 3"
    using assms(1) by (auto simp: ptop_inv_def)
  obtain ds where ds: "ev_dir (in_proc inp) = Some ds" "pids_of ds \<noteq> []"
    using assms(3) unfolding proc_ready_def by blast
  obtain sy1 t1 where r: "read_process_stats (in_proc inp) (kb_shift st) (pfs st) (cur st)
      (((sys_stats st)[cur st := zero_sys_info]) ! cur st) (tree st) = Inr (sy1, t1)"
    using read_process_stats_total [OF i(1,2) assms(3)] by (metis prod.exhaust)
  obtain fr sy2 where y: "read_system_stats inp (cpufreq_stats st) (pfs st) (frs st) sy1 = Inr (fr, sy2)"
    and p: "is_float (si_cpupower sy2)"
    using read_system_stats_total [OF i(3) assms(4)] by blast
  have "keys t1 \<noteq> {}" using read_process_stats_facts(2) [OF i(1) ds(1) r] ds(2) by auto
  then have ne: "t1 \<noteq> NULL" by auto
  have n1: "nodes_ok t1" using read_process_stats_ok [OF i(1) assms(2) r] .
  let ?ss = "((sys_stats st)[cur st := zero_sys_info])[cur st := sy2]"
  obtain amount t2 w where w: "write_process_stats (c_db cf) (cur st) (in_ctime inp) st ?ss t1 = Inr (amount, t2, w)"
    using write_process_stats_comes_back [OF n1 ne] by (metis prod_cases3)
  have "?ss ! cur st = sy2" using i(5,6) by simp
  then have pw: "is_float (si_cpupower (w_sys w))" and sh: "shown (amount + 1) (w_top w)"
    using write_process_stats_shown [OF w i(4) _ n1] p by simp_all
  have n2: "nodes_ok t2"
    using w n1 by (auto simp: write_process_stats_def Let_def bindR_eq_Inr dest: write_stat_ok)
  have "is_float (si_cpupower ((?ss[cur st := w_sys w]) ! cur st))" using i(5,6) pw by simp
  then obtain ss2 tr where "write_system_stats (c_db cf) (cur st) (in_ctime inp) amount (?ss[cur st := w_sys w]) (w_log w) = Inr (ss2, tr)"
    using write_system_stats_total by blast
  then show ?thesis using n2 sh r y w by (simp add: sample_def Let_def)
qed

section \<open>An iteration comes back\<close>

text \<open>
  What an iteration needs from outside.  Without a terminal nothing more than the files; with one, a
  terminal of 30 columns, a calendar time, rows with the columns of the queries, a few spare bytes
  behind small allocations, a device record with the size the code clears, and a key other than \<^verbatim>\<open>q\<close>.
  Nothing is asked of the database connections or the results of the statements.
\<close>

definition screen_ready :: "config \<Rightarrow> inputs \<Rightarrow> bool" where
  "screen_ready cf inp \<longleftrightarrow> \<not> ui_tty (in_ui inp) \<or>
     (LEAST_COLUMS \<le> ui_cols (in_ui inp) \<and> (\<exists>tt. c_localtime cf (in_now inp) = Some tt \<and> tm_ok tt) \<and>
      rows_ok (c_fetch cf) \<and> roomy (c_usable cf) \<and> PROCESS_ENERGY_SIZE \<le> c_room cf \<and>
      (ui_select (in_ui inp) \<le> 0 \<or> ui_char (in_ui inp) \<noteq> of_char MQUIT))"

definition ready :: "config \<Rightarrow> inputs \<Rightarrow> bool" where
  "ready cf inp \<longleftrightarrow> proc_ready (in_proc inp) \<and> wireless_ok (in_wireless inp) \<and> screen_ready cf inp"

text \<open>The invariant of the loop with the names.\<close>

definition loop_inv :: "ptop \<Rightarrow> bool" where
  "loop_inv st \<longleftrightarrow> ptop_inv st \<and> nodes_ok (tree st)"

lemma show_step_comes_back:
  assumes "screen_ready cf inp" and "shown (amount + 1) (pst_list st)"
  shows "\<exists>st'. show_step cf inp amount st = Inr st'"
proof -
  have "set (take (nat (min amount 40)) (pst_list st)) \<subseteq> set (take (nat (min (amount + 1) 40)) (pst_list st))"
    by (rule set_take_subset_set_take) simp
  then have n: "\<forall>q \<in> set (take (nat (min amount 40)) (pst_list st)). with_name q"
    using assms(2) by (auto simp: shown_def)
  have "\<exists>scr evs texts k tr'. show_proc_stat (c_db cf) (c_fetch cf) (c_usable cf) (c_room cf) (in_ui inp) (c_localtime cf)
      (in_now inp) (interval st) (pst_list st) amount (in_ctime inp) (dbl_log st) = Inr (scr, evs, texts, Return k, tr')"
  proof (cases "ui_tty (in_ui inp)")
    case True
    then obtain tt where r: "LEAST_COLUMS \<le> ui_cols (in_ui inp)" "c_localtime cf (in_now inp) = Some tt" "tm_ok tt"
      "rows_ok (c_fetch cf)" "roomy (c_usable cf)" "PROCESS_ENERGY_SIZE \<le> c_room cf"
      "ui_select (in_ui inp) \<le> 0 \<or> ui_char (in_ui inp) \<noteq> of_char MQUIT"
      using assms(1) unfolding screen_ready_def by blast
    show ?thesis by (rule show_proc_stat_comes_back [where localtime = "c_localtime cf", OF r(4,5,6,1,2,3,7) n])
  next
    case False
    then show ?thesis by (auto simp: show_proc_stat_def Let_def intro: exI [of _ False])
  qed
  then obtain scr evs texts k tr' where "show_proc_stat (c_db cf) (c_fetch cf) (c_usable cf) (c_room cf) (in_ui inp) (c_localtime cf)
      (in_now inp) (interval st) (pst_list st) amount (in_ctime inp) (dbl_log st) = Inr (scr, evs, texts, Return k, tr')"
    by blast
  then show ?thesis by (simp add: show_step_def)
qed

lemma purge_step_comes_back: "\<exists>st'. purge_step cf inp st = Inr st'"
  using freeup_all_total [of "c_db cf" "in_now inp" "of_nat CLEAN_INTERVAL" "dbl_log st"]
  by (auto simp: purge_step_def)

lemma iteration_comes_back:
  assumes "loop_inv st" and "ready cf inp"
  shows "\<exists>st'. iteration cf inp st = Inr st' \<and> loop_inv st'"
proof -
  have r: "proc_ready (in_proc inp)" "wireless_ok (in_wireless inp)" "screen_ready cf inp"
    using assms(2) by (simp_all add: ready_def)
  have i: "ptop_inv st" "nodes_ok (tree st)" using assms(1) by (simp_all add: loop_inv_def)
  obtain amount st1 where 1: "sample cf inp st = Inr (amount, st1)"
    and n: "nodes_ok (tree st1)" and s: "shown (amount + 1) (pst_list st1)"
    using sample_comes_back [OF i r(1,2)] by blast
  obtain st2 where 2: "show_step cf inp amount st1 = Inr st2" using show_step_comes_back [OF r(3) s] by blast
  obtain st3 where 3: "purge_step cf inp st2 = Inr st3" using purge_step_comes_back by blast
  obtain scr tr tr' where k: "st3 = st1\<lparr>screen := scr, dbl_log := tr, dbl_log := tr'\<rparr>"
    using show_step_keeps [OF 2] purge_step_keeps [OF 3] by blast
  define st' where "st' = st3\<lparr>cyc := cyc st3 + 1, cur := 1 - cur st3\<rparr>"
  have it: "iteration cf inp st = Inr st'" by (simp add: iteration_def 1 2 3 st'_def)
  have "tree st' = tree st1" by (simp add: st'_def k)
  then show ?thesis using iteration_inv [OF i(1) it] it n by (simp add: loop_inv_def)
qed

lemma loop_inv_reachable:
  assumes "reachable cf st0 st" and "loop_inv st0"
  shows "loop_inv st"
  using assms
proof (induction rule: reachable.induct)
  case (more st st')
  then have i: "ptop_inv st" "nodes_ok (tree st)" by (simp_all add: loop_inv_def)
  obtain inp where it: "iteration cf inp st = Inr st'" using more.hyps(2) by (auto elim: loop_stepE)
  obtain amount st1 st2 st3 where 1: "sample cf inp st = Inr (amount, st1)"
    and 2: "show_step cf inp amount st1 = Inr st2" and 3: "purge_step cf inp st2 = Inr st3"
    and 4: "st' = st3\<lparr>cyc := cyc st3 + 1, cur := 1 - cur st3\<rparr>"
    using it by (auto simp: iteration_def bindR_eq_Inr)
  obtain scr tr tr' where k: "st3 = st1\<lparr>screen := scr, dbl_log := tr, dbl_log := tr'\<rparr>"
    using show_step_keeps [OF 2] purge_step_keeps [OF 3] by blast
  have "nodes_ok (tree st1)" using sample_nodes_ok [OF _ i(2) 1] i(1) by (simp add: ptop_inv_def)
  moreover have "tree st' = tree st1" by (simp add: 4 k)
  ultimately show ?case using iteration_inv [OF i(1) it] by (simp add: loop_inv_def)
qed simp

lemma runs_on:
  assumes "loop_inv st0" and "ready cf inp"
  shows "\<exists>st. reachable cf st0 st \<and> cyc st = cyc st0 + n"
proof (induction n)
  case 0
  then show ?case using reachable.start by auto
next
  case (Suc n)
  then obtain st where st: "reachable cf st0 st" "cyc st = cyc st0 + n" by blast
  have i: "loop_inv st" using loop_inv_reachable [OF st(1) assms(1)] .
  obtain st' where s: "iteration cf inp st = Inr st'" using iteration_comes_back [OF i assms(2)] by blast
  have "reachable cf st0 st'" using reachable.more [OF st(1) loop_step.step [OF s]] .
  moreover have "ptop_inv st" using i by (simp add: loop_inv_def)
  ultimately show ?case using iteration_inv [OF _ s] st(2) by auto
qed

lemma start_inv:
  assumes "system_init db fopen popen page ticks nprocs now1 now2 (globals0 argc argv1) = Inr st0"
  shows "loop_inv st0 \<and> cyc st0 = 1"
  using system_init_inv [OF globals0_inv assms] by (simp add: globals0_def loop_inv_def)

lemma loop_progress:
  assumes "system_init db fopen popen page ticks nprocs now1 now2 (globals0 argc argv1) = Inr st0"
    and "ready cf inp"
  shows "(reachable cf st0 st \<longrightarrow> (\<exists>st'. iteration cf inp st = Inr st' \<and> reachable cf st0 st')) \<and>
    (\<exists>sn. reachable cf st0 sn \<and> cyc sn = 1 + n)"
proof -
  have i: "loop_inv st0" "cyc st0 = 1" using start_inv [OF assms(1)] by simp_all
  have "\<exists>st'. iteration cf inp st = Inr st' \<and> reachable cf st0 st'" if r: "reachable cf st0 st"
    using iteration_comes_back [OF loop_inv_reachable [OF r i(1)] assms(2)]
      reachable.more [OF r loop_step.step] by blast
  then show ?thesis using runs_on [OF i(1) assms(2), of n] i(2) by simp
qed

text \<open>Without a database and without a terminal the files are all that is needed.\<close>

definition quiet :: "config \<Rightarrow> inputs \<Rightarrow> bool" where
  "quiet cf inp \<longleftrightarrow> (\<forall>l. \<not> mysql_real_connect (c_db cf) l) \<and> proc_ready (in_proc inp) \<and>
     wireless_ok (in_wireless inp) \<and> \<not> ui_tty (in_ui inp)"

lemma quiet_loop_runs_on:
  assumes "system_init db fopen popen page ticks nprocs now1 now2 (globals0 argc argv1) = Inr st0"
    and "quiet cf inp"
  shows "(reachable cf st0 st \<longrightarrow> (\<exists>st'. iteration cf inp st = Inr st' \<and> reachable cf st0 st')) \<and>
    (\<exists>sn. reachable cf st0 sn \<and> cyc sn = 1 + n)"
  using assms(2) by (intro loop_progress [OF assms(1)]) (simp add: quiet_def ready_def screen_ready_def)

section \<open>Property\<close>



end
