(* ===== verification/Reports.thy ===== *)
theory Reports
  imports Progress
begin

text \<open>
  What the program reports: the statements a sample sends to the database and the totals it adds up,
  as functions of the tree, and a process followed from its two readings of \<^verbatim>\<open>/proc\<close> to the statement
  that is sent for it.
\<close>

section \<open>Statements\<close>

text \<open>The texts of a history, and a database that can always be reached.\<close>

fun sent :: "db_log \<Rightarrow> string list" where
  "sent [] = []"
| "sent (Query h q rc # es) = q # sent es"
| "sent (Init h # es) = sent es"
| "sent (Close h # es) = sent es"

definition always_connects :: "mysql \<Rightarrow> bool" where
  "always_connects db \<longleftrightarrow> (\<forall>l. mysql_real_connect db l)"

lemma sent_append [simp]: "sent (xs @ ys) = sent xs @ sent ys"
  by (induction xs rule: sent.induct) simp_all

lemma send_sent: "always_connects db \<Longrightarrow> send db q tr = Inr (rc, tr') \<Longrightarrow> sent tr' = sent tr @ [q]"
  by (auto simp: always_connects_def send_def create_conn_def Let_def split: if_splits)

definition ps_statement :: "process_info \<Rightarrow> string" where
  "ps_statement r = ps_query r (case pi_cmdline r of None \<Rightarrow> [] | Some c \<Rightarrow> c)"

lemma insert_ps_sent:
  assumes "always_connects db" and "insert_ps db r tr = Inr (r', rc, tr')"
  shows "sent tr' = sent tr @ [ps_statement r]"
proof -
  have "ps_query (r\<lparr>pi_cmdline := x\<rparr>) c = ps_query r c" for x c by (simp add: ps_query_def ps_values_def)
  then show ?thesis
    using assms by (auto simp: insert_ps_def create_conn_def always_connects_def Let_def bindR_eq_Inr ps_statement_def
        dest: send_sent [OF assms(1)])
qed

section \<open>One node\<close>

text \<open>The record of an active node, and the bytes it adds to the totals of the disk.\<close>

fun active_pair :: "nat \<Rightarrow> int \<times> samples \<Rightarrow> (pid_stats \<times> pid_stats) option" where
  "active_pair cr (f, p) =
    (case (pst_get cr p, pst_get (1 - cr) p) of
       (Some q, Some pj) \<Rightarrow> (if 0 < pid q \<and> \<not> same_sample q pj then Some (q, pj) else None)
     | _ \<Rightarrow> None)"

definition rates_of :: "wparams \<Rightarrow> pid_stats \<times> pid_stats \<Rightarrow> process_info" where
  "rates_of wp = (\<lambda>(q, pj). process_rates (wp_hz wp) (wp_tlmkb wp) (wp_time wp) (wp_itv wp) (no_jitter pj q) pj)"

definition disk_read :: "pid_stats \<times> pid_stats \<Rightarrow> u64" where
  "disk_read = (\<lambda>(q, pj). ucast (subcount (ucast (read_bytes q)) (ucast (read_bytes pj))))"

definition disk_write :: "pid_stats \<times> pid_stats \<Rightarrow> u64" where
  "disk_write = (\<lambda>(q, pj). ucast (subcount (ucast (write_bytes q)) (ucast (write_bytes pj)) -
     subcount (ucast (cancelled_write_bytes q)) (ucast (cancelled_write_bytes pj))))"

text \<open>The state after the active pairs \<open>as\<close>, from the one before.\<close>

definition reported :: "wparams \<Rightarrow> wstate \<Rightarrow> (pid_stats \<times> pid_stats) list \<Rightarrow> wstate \<Rightarrow> bool" where
  "reported wp s ps s' \<longleftrightarrow>
     (always_connects (wp_db wp) \<longrightarrow> sent (w_log s') = sent (w_log s) @ map (ps_statement \<circ> rates_of wp) ps) \<and>
     si_totaldiskread (w_sys s') = si_totaldiskread (w_sys s) + sum_list (map disk_read ps) \<and>
     si_totaldiskwrite (w_sys s') = si_totaldiskwrite (w_sys s) + sum_list (map disk_write ps) \<and>
     si_runtime (w_sys s') = si_runtime (w_sys s)"

lemma reported_trans: "reported wp s ps s1 \<Longrightarrow> reported wp s1 qs s2 \<Longrightarrow> reported wp s (ps @ qs) s2"
  by (simp add: reported_def add.assoc)

lemma write_node_reported:
  assumes "write_node wp cr (f, p) s = Inr ((f', p'), s')" and "fst p \<noteq> None" "snd p \<noteq> None"
  shows "reported wp s (case active_pair cr (f, p) of None \<Rightarrow> [] | Some a \<Rightarrow> [a]) s' \<and>
    pst_get cr p' = (case active_pair cr (f, p) of None \<Rightarrow> pst_get cr p | Some (q, pj) \<Rightarrow> Some (no_jitter pj q))"
proof -
  obtain q pj where q: "pst_get cr p = Some q" "pst_get (1 - cr) p = Some pj"
    using assms(2,3) by (cases "cr = 0") (auto simp: pst_get_def)
  show ?thesis
  proof (cases "0 < pid q \<and> \<not> same_sample q pj")
    case False
    then show ?thesis
      using assms q by (auto simp: write_node_def is_active_Some clear_position_def Let_def bindR_eq_Inr reported_def
          word_neq_0_conv [symmetric] split: if_splits)
  next
    case True
    then have a: "pid q \<noteq> 0" "\<not> same_sample q pj" by auto
    have g: "pst_get cr (pst_set cr (Some x) p) = Some x" for x by (simp add: pst_get_def pst_set_def)
    show ?thesis
      using assms q a True
      by (auto simp: write_node_def is_active_Some Let_def bindR_eq_Inr reported_def rates_of_def
          disk_read_def disk_write_def g dest: insert_ps_sent)
  qed
qed

section \<open>The writing pass\<close>

definition active_pairs :: "nat \<Rightarrow> avl \<Rightarrow> (pid_stats \<times> pid_stats) list" where
  "active_pairs cr t = List.map_filter (\<lambda>(k, v). active_pair cr v) (preorder t)"

lemma write_nodes_reported:
  assumes "write_nodes wp cr xs s = Inr (ys, s')" and "\<forall>(k, f, p) \<in> set xs. fst p \<noteq> None \<and> snd p \<noteq> None"
  shows "reported wp s (List.map_filter (\<lambda>(k, v). active_pair cr v) xs) s'"
  using assms
proof (induction xs arbitrary: s ys)
  case Nil
  then show ?case by (simp add: reported_def map_filter_simps)
next
  case (Cons a xs)
  obtain k f p where a: "a = (k, f, p)" by (metis prod.exhaust)
  obtain f' p' s1 zs where 1: "write_node wp cr (f, p) s = Inr ((f', p'), s1)" and 2: "write_nodes wp cr xs s1 = Inr (zs, s')"
    using Cons.prems(1) by (auto simp: a bindR_eq_Inr)
  have p: "fst p \<noteq> None" "snd p \<noteq> None" using Cons.prems(2) by (simp_all add: a)
  have "reported wp s1 (List.map_filter (\<lambda>(k, v). active_pair cr v) xs) s'"
    by (rule Cons.IH [OF 2]) (use Cons.prems(2) in auto)
  from reported_trans [OF write_node_reported [OF 1 p, THEN conjunct1] this] show ?case
    by (cases "active_pair cr (f, p)") (simp_all add: a map_filter_simps del: active_pair.simps)
qed

lemma write_stat_reported:
  assumes "write_stat wp cr t s = Inr (t', s')" and "sampled t"
  shows "reported wp s (active_pairs cr t) s'"
proof -
  have ne: "t \<noteq> NULL" using assms(1) by auto
  have "write_nodes wp cr (preorder t) s = Inr (preorder t', s')"
    using write_stat_nodes [OF ne, of wp cr s] assms(1) by simp
  then show ?thesis
    unfolding active_pairs_def by (rule write_nodes_reported) (rule preorder_sampled [OF assms(2)])
qed

section \<open>What a pass leaves of a listed process\<close>

context pid_table
begin

text \<open>The entry of a listed process is the result of the last visit to it.\<close>

lemma visits_last:
  assumes "inv t" and "foldR (\<lambda>(x, g) t. visit look ins put x g t) xs t = Inr t'"
    and "\<forall>x g v v'. (x, g) \<in> set xs \<longrightarrow> g v = Inr v' \<longrightarrow> R v v'" and "\<And>v. R v v"
    and "\<And>u v w. R u v \<Longrightarrow> R v w \<Longrightarrow> R u w" and "x \<in> fst ` set xs"
  shows "\<exists>g v v'. (x, g) \<in> set xs \<and> g v = Inr v' \<and> amap t' x = Some v' \<and>
    R (case amap t x of None \<Rightarrow> fresh | Some w \<Rightarrow> w) v"
  using assms(1-3,6)
proof (induction xs arbitrary: t)
  case (Cons a xs)
  obtain y g where a: "a = (y, g)" by (rule prod.exhaust)
  with Cons.prems(2) obtain u where u: "visit look ins put y g t = Inr u"
    "foldR (\<lambda>(x, g) t. visit look ins put x g t) xs u = Inr t'"
    by (auto simp: bindR_eq_Inr)
  obtain w w' where w: "w = (case amap t y of None \<Rightarrow> fresh | Some z \<Rightarrow> z)" "g w = Inr w'"
    and i: "inv u" and m: "amap u = (amap t)(y \<mapsto> w')"
    by (rule visit_cases [OF Cons.prems(1) u(1)])
  have r: "R w w'" using Cons.prems(3) a w(2) by auto
  show ?case
  proof (cases "x \<in> fst ` set xs")
    case True
    have "\<forall>x g v v'. (x, g) \<in> set xs \<longrightarrow> g v = Inr v' \<longrightarrow> R v v'" using Cons.prems(3) by simp
    from Cons.IH [OF i u(2) this True] obtain h v v' where
      h: "(x, h) \<in> set xs" "h v = Inr v'" "amap t' x = Some v'"
      and v: "R (case amap u x of None \<Rightarrow> fresh | Some w \<Rightarrow> w) v" by blast
    have "R (case amap t x of None \<Rightarrow> fresh | Some w \<Rightarrow> w) (case amap u x of None \<Rightarrow> fresh | Some w \<Rightarrow> w)"
      using m w(1) r assms(4) by (cases "y = x") auto
    from assms(5) [OF this v] h show ?thesis by auto
  next
    case False
    then have x: "x = y" using Cons.prems(4) a by auto
    have "amap t' x = Some w'" using visits_other [OF i u(2) False] m x by simp
    then show ?thesis using a w x assms(4) by auto
  qed
qed simp

end

text \<open>The sample a reading stores: the files with id 0 when the process is gone.\<close>

definition reading :: "proc_env \<Rightarrow> u32 \<Rightarrow> perf \<Rightarrow> u32 \<Rightarrow> pid_stats \<Rightarrow> pid_stats \<Rightarrow> bool" where
  "reading ev kb pf q prev a \<longleftrightarrow>
     (\<exists>f rc f' y. read_pid_stats ev kb pf q f (Some prev) = Inr (rc, f', y) \<and> a = (if rc \<noteq> 0 then y\<lparr>pid := 0\<rparr> else y))"

text \<open>The sample of the interval before, zero for a process seen for the first time.\<close>

definition previous :: "nat \<Rightarrow> avl \<Rightarrow> int \<Rightarrow> pid_stats" where
  "previous cr t x = (case lookup t x of None \<Rightarrow> zero_pid_stats | Some (f, p) \<Rightarrow> the (pst_get (1 - cr) p))"

lemma pst_get_set_same [simp]: "pst_get c (pst_set c v p) = v"
  by (simp add: pst_get_def pst_set_def)

lemma read_into_reading:
  assumes "read_into ev kb pf cr q v = Inr v'" and "pst_get (1 - cr) (snd v) = Some prev"
  shows "\<exists>a. snd v' = pst_set cr (Some a) (snd v) \<and> reading ev kb pf q prev a"
proof -
  obtain rc f' y where "read_pid_stats ev kb pf q (fst v) (Some prev) = Inr (rc, f', y)"
    and "snd v' = pst_set cr (Some (if rc \<noteq> 0 then y\<lparr>pid := 0\<rparr> else y)) (snd v)"
    using assms by (cases v) (auto simp: read_into_def bindR_eq_Inr split: option.splits)
  then show ?thesis unfolding reading_def by blast
qed

lemma read_pass_listed:
  assumes "avl_inv t" and "sampled t" and "cr \<le> 1" and "ev_dir ev = Some ds" and "q \<in> set (pids_of ds)"
    and "read_process_stats ev kb pf cr sy t = Inr (sy', t')"
  obtains f p a where "lookup t' (sint q) = Some (f, p)" and "pst_get cr p = Some a"
    and "pst_get (1 - cr) p = Some (previous cr t (sint q))" and "reading ev kb pf q (previous cr t (sint q)) a"
proof -
  let ?R = "\<lambda>v v' :: int \<times> samples. pst_get (1 - cr) (snd v') = pst_get (1 - cr) (snd v)"
  have run: "foldR (visit_pid ev kb pf cr) (pids_of ds) t = Inr t'"
    using assms(4,6) by (auto simp: read_process_stats_def bindR_eq_Inr)
  have R: "?R v v'" if "read_into ev kb pf cr q v = Inr v'" for q v v'
    using read_into_prev [of ev kb pf cr q "fst v" "snd v" "fst v'" "snd v'"] that assms(3) by simp
  have "sint q \<in> fst ` set (map (\<lambda>q. (sint q, read_into ev kb pf cr q)) (pids_of ds))" using assms(5) by force
  moreover have "\<forall>x g v v'. (x, g) \<in> set (map (\<lambda>q. (sint q, read_into ev kb pf cr q)) (pids_of ds)) \<longrightarrow>
      g v = Inr v' \<longrightarrow> ?R v v'"
    using R by (simp only: set_map image_iff prod.inject) blast
  ultimately have "\<exists>g v v'. (sint q, g) \<in> set (map (\<lambda>q. (sint q, read_into ev kb pf cr q)) (pids_of ds)) \<and>
      g v = Inr v' \<and> lookup t' (sint q) = Some v' \<and>
      ?R (case lookup t (sint q) of None \<Rightarrow> (- 1, fresh_samples) | Some w \<Rightarrow> w) v"
    by (intro avl_table.visits_last [where R = ?R, OF assms(1) run [unfolded visits_as_fold]]) simp_all
  then obtain g v v' where g: "(sint q, g) \<in> set (map (\<lambda>q. (sint q, read_into ev kb pf cr q)) (pids_of ds))"
    and v: "g v = Inr v'" "lookup t' (sint q) = Some v'"
    and pv: "?R (case lookup t (sint q) of None \<Rightarrow> (- 1, fresh_samples) | Some w \<Rightarrow> w) v"
    by blast
  have "q' = q" if "sint q = sint q'" for q' :: u32 using arg_cong [OF that, of "of_int :: int \<Rightarrow> u32"] by simp
  then have "g = read_into ev kb pf cr q" using g by auto
  then have r: "read_into ev kb pf cr q (fst v, snd v) = Inr (fst v', snd v')" using v(1) by simp
  have "pst_get (1 - cr) (snd v) = Some (previous cr t (sint q))"
  proof (cases "lookup t (sint q)")
    case None
    then show ?thesis using pv by (simp add: previous_def pst_get_def)
  next
    case (Some w)
    then have "fst (snd w) \<noteq> None \<and> snd (snd w) \<noteq> None" using assms(1,2) sampled_lookup [of t]
      by (simp add: avl_inv_def) (metis prod.collapse)
    then show ?thesis using pv Some by (cases w) (auto simp: previous_def pst_get_def)
  qed
  moreover from this obtain a where "snd v' = pst_set cr (Some a) (snd v)"
    and "reading ev kb pf q (previous cr t (sint q)) a"
    using read_into_reading [of ev kb pf cr q v v'] r by auto
  moreover have "lookup t' (sint q) = Some (fst v', snd v')" using v(2) by simp
  ultimately show ?thesis using that assms(3) by (metis One_nat_def pst_get_set_other pst_get_set_same)
qed

section \<open>One sample\<close>

text \<open>The current sample of a node after the writing pass.\<close>

definition written :: "nat \<Rightarrow> int \<times> samples \<Rightarrow> pid_stats option" where
  "written cr v = (case active_pair cr v of None \<Rightarrow> pst_get cr (snd v) | Some (q, pj) \<Rightarrow> Some (no_jitter pj q))"

lemma write_stat_cur:
  "write_stat wp cr t s = Inr (t', s') \<Longrightarrow> sampled t \<Longrightarrow>
    map (\<lambda>(k, v). (k, pst_get cr (snd v))) (entries t') = map (\<lambda>(k, v). (k, written cr v)) (entries t)"
proof (induction t arbitrary: s t' s')
  case (AvlNode e f l r h p)
  from AvlNode.prems(1) obtain f' p' s1 l' s2 r' where
    1: "write_node wp cr (f, p) s = Inr ((f', p'), s1)"
    and l: "(if l = NULL then Inr (NULL, s1) else write_stat wp cr l s1) = Inr (l', s2)"
    and r: "(if r = NULL then Inr (NULL, s2) else write_stat wp cr r s2) = Inr (r', s')"
    and t': "t' = AvlNode e f' l' r' h p'"
    by (auto simp: bindR_eq_Inr)
  have "map (\<lambda>(k, v). (k, pst_get cr (snd v))) (entries l') = map (\<lambda>(k, v). (k, written cr v)) (entries l)"
    using AvlNode.IH(1) [of s1 l' s2] AvlNode.prems(2) l by (cases "l = NULL") auto
  moreover have "map (\<lambda>(k, v). (k, pst_get cr (snd v))) (entries r') = map (\<lambda>(k, v). (k, written cr v)) (entries r)"
    using AvlNode.IH(2) [of s2 r' s'] AvlNode.prems(2) r by (cases "r = NULL") auto
  moreover have "pst_get cr p' = written cr (f, p)"
    using write_node_reported [OF 1] AvlNode.prems(2)
    by (cases "active_pair cr (f, p)") (simp_all add: written_def del: active_pair.simps)
  ultimately show ?case by (simp add: t')
qed simp

lemma write_stat_cur_lookup:
  assumes "write_stat wp cr t s = Inr (t', s')" and "sampled t"
  shows "map_option (\<lambda>v. pst_get cr (snd v)) (lookup t' x) = map_option (written cr) (lookup t x)"
proof -
  have "map_option (\<lambda>v. pst_get cr (snd v)) (lookup t' x) = map_of (map (\<lambda>(k, v). (k, pst_get cr (snd v))) (entries t')) x"
    by (simp add: lookup_map_of map_of_map)
  also have "\<dots> = map_option (written cr) (lookup t x)"
    unfolding write_stat_cur [OF assms] by (simp add: lookup_map_of map_of_map)
  finally show ?thesis .
qed

text \<open>The other readings leave the run time and the totals of the disk alone.\<close>

lemma dev_loop_keeps:
  "si_runtime (dev_loop len wl ls b nm i) = si_runtime i \<and>
   si_totaldiskread (dev_loop len wl ls b nm i) = si_totaldiskread i \<and>
   si_totaldiskwrite (dev_loop len wl ls b nm i) = si_totaldiskwrite i"
  by (induction len wl ls b nm i rule: dev_loop.induct) (simp_all add: Let_def)

lemma read_system_stats_keeps:
  assumes "read_system_stats inp cf pf fr sy = Inr (fr', sy')"
  shows "si_runtime sy' = si_runtime sy \<and> si_totaldiskread sy' = si_totaldiskread sy \<and>
    si_totaldiskwrite sy' = si_totaldiskwrite sy"
proof -
  define r where "r = read_cpufreq_stats (in_time inp) cf (in_freq_dir inp) (in_freq_open inp) fr sy"
  have f: "si_runtime (snd r) = si_runtime sy \<and> si_totaldiskread (snd r) = si_totaldiskread sy \<and>
      si_totaldiskwrite (snd r) = si_totaldiskwrite sy"
    unfolding r_def by (simp add: read_cpufreq_stats_def Let_def case_prod_beta split: option.split)
  have n: "si_runtime i' = si_runtime i \<and> si_totaldiskread i' = si_totaldiskread i \<and> si_totaldiskwrite i' = si_totaldiskwrite i"
    if "stat_sysnet_stats f nd b w nm i = Inr i'" for f nd b w nm i i'
    using that dev_loop_keeps
    by (auto simp: stat_sysnet_stats_def Let_def bindR_eq_Inr split: option.splits if_splits prod.splits)
  show ?thesis
    using assms f
    by (auto simp: read_system_stats_def r_def [symmetric] case_prod_beta stat_sysmem_stats_def bindR_eq_Inr dest!: n)
qed

text \<open>The parameters of the writing pass of a sample: the interval is the run time between the two samples.\<close>

definition pass_params :: "config \<Rightarrow> inputs \<Rightarrow> ptop \<Rightarrow> ptop \<Rightarrow> wparams" where
  "pass_params cf inp st st' =
    \<lparr>wp_db = c_db cf, wp_hz = hz st, wp_tlmkb = tlm_kb st, wp_screen = screen st, wp_time = in_ctime inp,
     wp_itv = u64_subcount (ucast (si_runtime (sys_stats st' ! cur st))) (ucast (si_runtime (sys_stats st ! (1 - cur st))))\<rparr>"

lemma sample_pass:
  assumes "ptop_inv st" and "sample cf inp st = Inr (amount, st')"
  obtains sy t1 s0 w where
    "read_process_stats (in_proc inp) (kb_shift st) (pfs st) (cur st) zero_sys_info (tree st) = Inr (sy, t1)"
    and "avl_inv t1" and "sampled t1"
    and "write_stat (pass_params cf inp st st') (cur st) t1 s0 = Inr (tree st', w)"
    and "w_log s0 = dbl_log st" and "\<exists>rc. insert_sys_info (c_db cf) (sys_stats st' ! 2) (w_log w) = Inr (rc, dbl_log st')"
    and "si_totaldiskread (w_sys s0) = 0" and "si_totaldiskwrite (w_sys s0) = 0"
    and "si_totaldiskread (sys_stats st' ! 2) = si_totaldiskread (w_sys w)"
    and "si_totaldiskwrite (sys_stats st' ! 2) = si_totaldiskwrite (w_sys w)"
    and "si_runtime (sys_stats st' ! cur st) = si_runtime sy"
proof -
  let ?c = "cur st"
  have i: "length (sys_stats st) = 3" "avl_inv (tree st)" "sampled (tree st)" and c: "?c \<le> 1"
    using assms(1) by (auto simp: ptop_inv_def)
  obtain sy1 t1 fr sy2 amount' t2 w ss2 tr where
    a: "read_process_stats (in_proc inp) (kb_shift st) (pfs st) ?c (((sys_stats st)[?c := zero_sys_info]) ! ?c) (tree st) = Inr (sy1, t1)"
    and y: "read_system_stats inp (cpufreq_stats st) (pfs st) (frs st) sy1 = Inr (fr, sy2)"
    and b: "write_process_stats (c_db cf) ?c (in_ctime inp) st (((sys_stats st)[?c := zero_sys_info])[?c := sy2]) t1 = Inr (amount', t2, w)"
    and s: "write_system_stats (c_db cf) ?c (in_ctime inp) amount'
       ((((sys_stats st)[?c := zero_sys_info])[?c := sy2])[?c := w_sys w]) (w_log w) = Inr (ss2, tr)"
    and d: "st' = st\<lparr>sys_stats := ss2, tree := t2, frs := fr, pst_list := w_top w, dbl_log := tr, closed_fds := w_closed w\<rparr>"
    using assms(2) by (auto simp: sample_def Let_def bindR_eq_Inr)
  have a': "read_process_stats (in_proc inp) (kb_shift st) (pfs st) ?c zero_sys_info (tree st) = Inr (sy1, t1)"
    using a i(1) c by simp
  have t1: "avl_inv t1" "sampled t1" using read_process_stats_sampled [OF i(2,3) a] by simp_all
  have "si_totaldiskread sy1 = 0 \<and> si_totaldiskwrite sy1 = 0"
    using a' by (auto simp: read_process_stats_def read_stat_cpu_def zero_sys_info_def Let_def bindR_eq_Inr split: option.splits)
  then have k: "si_totaldiskread sy2 = 0" "si_totaldiskwrite sy2 = 0" "si_runtime sy2 = si_runtime sy1"
    using read_system_stats_keeps [OF y] by simp_all
  let ?ss = "((sys_stats st)[?c := zero_sys_info])[?c := sy2]"
  let ?wp = "\<lparr>wp_db = c_db cf, wp_hz = hz st, wp_tlmkb = tlm_kb st, wp_screen = screen st, wp_time = in_ctime inp,
     wp_itv = u64_subcount (ucast (si_runtime (?ss ! ?c))) (ucast (si_runtime (?ss ! (1 - ?c))))\<rparr>"
  obtain s0 where run: "write_stat ?wp ?c t1 s0 = Inr (t2, w)" and s0: "w_log s0 = dbl_log st" "w_sys s0 = ?ss ! ?c"
    using b by (auto simp: write_process_stats_def Let_def bindR_eq_Inr)
  have now: "?ss ! ?c = sy2" "?ss ! (1 - ?c) = sys_stats st ! (1 - ?c)" using i(1) c by (cases "?c = 0"; simp)+
  have w2: "ss2 ! ?c = (w_sys w)\<lparr>si_time := ucast (in_ctime inp)\<rparr>"
    "si_totaldiskread (ss2 ! 2) = si_totaldiskread (w_sys w)" "si_totaldiskwrite (ss2 ! 2) = si_totaldiskwrite (w_sys w)"
    "\<exists>rc. insert_sys_info (c_db cf) (ss2 ! 2) (w_log w) = Inr (rc, tr)"
    using s i(1) c by (cases "?c = 0"; auto simp: write_system_stats_def Let_def bindR_eq_Inr)+
  have rt: "si_runtime (w_sys w) = si_runtime sy2"
    using write_stat_reported [OF run t1(2)] s0(2) now(1) by (simp add: reported_def)
  then have "?wp = pass_params cf inp st st'" using w2(1) now by (simp add: pass_params_def d)
  then have "write_stat (pass_params cf inp st st') ?c t1 s0 = Inr (tree st', w)" using run by (simp add: d)
  then show ?thesis
    using that [OF a' t1 _ s0(1)] w2 k s0(2) now(1) rt by (simp add: d)
qed

lemma sample_sent:
  assumes "ptop_inv st" and "sample cf inp st = Inr (amount, st')" and "always_connects (c_db cf)"
    and "wp = pass_params cf inp st st'"
  shows "\<exists>sy t1. read_process_stats (in_proc inp) (kb_shift st) (pfs st) (cur st) zero_sys_info (tree st) = Inr (sy, t1) \<and>
    sent (dbl_log st') = sent (dbl_log st) @ map (ps_statement \<circ> rates_of wp) (active_pairs (cur st) t1) @
      [sys_query (sys_stats st' ! 2)] \<and>
    si_totaldiskread (sys_stats st' ! 2) = sum_list (map disk_read (active_pairs (cur st) t1)) \<and>
    si_totaldiskwrite (sys_stats st' ! 2) = sum_list (map disk_write (active_pairs (cur st) t1))"
proof (rule sample_pass [OF assms(1,2)])
  fix sy t1 s0 w
  assume a: "read_process_stats (in_proc inp) (kb_shift st) (pfs st) (cur st) zero_sys_info (tree st) = Inr (sy, t1)"
    and t1: "sampled t1" and run: "write_stat (pass_params cf inp st st') (cur st) t1 s0 = Inr (tree st', w)"
    and l: "w_log s0 = dbl_log st" and i: "\<exists>rc. insert_sys_info (c_db cf) (sys_stats st' ! 2) (w_log w) = Inr (rc, dbl_log st')"
    and k: "si_totaldiskread (w_sys s0) = 0" "si_totaldiskwrite (w_sys s0) = 0"
      "si_totaldiskread (sys_stats st' ! 2) = si_totaldiskread (w_sys w)"
      "si_totaldiskwrite (sys_stats st' ! 2) = si_totaldiskwrite (w_sys w)"
  have "always_connects (wp_db wp)" using assms(3,4) by (simp add: pass_params_def)
  then have r: "sent (w_log w) = sent (dbl_log st) @ map (ps_statement \<circ> rates_of wp) (active_pairs (cur st) t1)"
    "si_totaldiskread (w_sys w) = sum_list (map disk_read (active_pairs (cur st) t1))"
    "si_totaldiskwrite (w_sys w) = sum_list (map disk_write (active_pairs (cur st) t1))"
    using write_stat_reported [OF run t1] k(1,2) unfolding assms(4) [symmetric] by (simp_all add: reported_def l)
  obtain rc where "send (c_db cf) (sys_query (sys_stats st' ! 2)) (w_log w) = Inr (rc, dbl_log st')"
    using i by (auto simp: insert_sys_info_def)
  from send_sent [OF assms(3) this] show ?thesis using a r k by auto
qed

section \<open>One process\<close>

lemma sample_process:
  assumes "ptop_inv st" and "sample cf inp st = Inr (amount, st')"
    and "ev_dir (in_proc inp) = Some ds" and "q \<in> set (pids_of ds)" and "prev = previous (cur st) (tree st) (sint q)"
  obtains a f p where "reading (in_proc inp) (kb_shift st) (pfs st) q prev a"
    and "lookup (tree st') (sint q) = Some (f, p)" and "pst_get (1 - cur st) p = Some prev"
    and "pst_get (cur st) p = Some (if 0 < pid a \<and> \<not> same_sample a prev then no_jitter prev a else a)"
    and "always_connects (c_db cf) \<and> 0 < pid a \<and> \<not> same_sample a prev \<longrightarrow> (\<exists>news. sent (dbl_log st') = sent (dbl_log st) @ news \<and>
      ps_statement (rates_of (pass_params cf inp st st') (a, prev)) \<in> set news)"
proof (rule sample_pass [OF assms(1,2)])
  fix sy t1 s0 w
  assume a: "read_process_stats (in_proc inp) (kb_shift st) (pfs st) (cur st) zero_sys_info (tree st) = Inr (sy, t1)"
    and t1: "avl_inv t1" "sampled t1" and run: "write_stat (pass_params cf inp st st') (cur st) t1 s0 = Inr (tree st', w)"
  have i: "avl_inv (tree st)" "sampled (tree st)" "cur st \<le> 1" using assms(1) by (auto simp: ptop_inv_def)
  obtain f p x where l: "lookup t1 (sint q) = Some (f, p)" and x: "pst_get (cur st) p = Some x"
    and pv: "pst_get (1 - cur st) p = Some prev" and r: "reading (in_proc inp) (kb_shift st) (pfs st) q prev x"
    using read_pass_listed [OF i assms(3,4) a] unfolding assms(5) [symmetric] .
  have ap: "active_pair (cur st) (f, p) = (if 0 < pid x \<and> \<not> same_sample x prev then Some (x, prev) else None)"
    using x pv by simp
  obtain f' p' where l': "lookup (tree st') (sint q) = Some (f', p')" and p': "pst_get (cur st) p' = written (cur st) (f, p)"
    using write_stat_cur_lookup [OF run t1(2), of "sint q"] l by auto
  have pv': "pst_get (1 - cur st) p' = Some prev"
    using write_stat_prev_lookup [OF run i(3), of "sint q"] l l' pv by simp
  have cur: "pst_get (cur st) p' = Some (if 0 < pid x \<and> \<not> same_sample x prev then no_jitter prev x else x)"
    unfolding p' written_def ap using x by simp
  have "\<exists>news. sent (dbl_log st') = sent (dbl_log st) @ news \<and>
      ps_statement (rates_of (pass_params cf inp st st') (x, prev)) \<in> set news"
    if c: "always_connects (c_db cf)" "0 < pid x" "\<not> same_sample x prev"
  proof -
    have "(sint q, f, p) \<in> set (entries t1)" using l map_of_SomeD by (simp add: lookup_map_of)
    then have "(sint q, f, p) \<in> set (preorder t1)" using preorder_entries by (metis set_mset_mset)
    moreover have "active_pair (cur st) (f, p) = Some (x, prev)" using ap c(2,3) by simp
    ultimately have "(x, prev) \<in> set (active_pairs (cur st) t1)"
      by (force simp: active_pairs_def List.map_filter_def simp del: active_pair.simps)
    then show ?thesis using sample_sent [OF assms(1,2) c(1) refl] a by auto
  qed
  then show ?thesis using that [OF r l' pv' cur] by blast
qed

text \<open>The files of a process, with a \<^verbatim>\<open>stat\<close> line as the kernel prints it.\<close>

definition prints :: "proc_env \<Rightarrow> u32 \<Rightarrow> string \<Rightarrow> char \<Rightarrow> u64 list \<Rightarrow> bool" where
  "prints ev q nm s ns \<longleftrightarrow> length ns = 41 \<and> (\<forall>c \<in> set nm. \<not> is_space c \<and> c \<noteq> nul \<and> c \<noteq> CHR '')'') \<and>
     length nm \<le> 15 \<and> \<not> is_space s \<and> s \<noteq> nul \<and> ev_stat1 ev q = Some (stat_text q nm s ns @ [newline]) \<and>
     ev_stat2 ev q = Some (stat_text q nm s ns @ [newline]) \<and> ev_status ev q \<noteq> None \<and> ev_io ev q \<noteq> None"

lemma lines_keep:
  "utime (while_fgets n status_line f b p) = utime p \<and> stime (while_fgets n status_line f b p) = stime p \<and>
   gtime (while_fgets n status_line f b p) = gtime p \<and> comm (while_fgets n status_line f b p) = comm p"
  "utime (while_fgets n io_line f b p) = utime p \<and> stime (while_fgets n io_line f b p) = stime p \<and>
   gtime (while_fgets n io_line f b p) = gtime p \<and> comm (while_fgets n io_line f b p) = comm p"
  unfolding while_fgets_def
  by (rule line_loop_keeps [where P = "\<lambda>x. utime x = utime p \<and> stime x = stime p \<and> gtime x = gtime p \<and> comm x = comm p"];
      simp add: status_line_def io_line_def)+

lemma reading_prints:
  assumes "reading ev kb pf q prev a" and "prints ev q nm s ns"
  shows "utime a = ns ! 10 \<and> stime a = ns ! 11 \<and> gtime a = ns ! 39 \<and> comm a = nm \<and> pid a = q"
proof -
  obtain p1 where 1: "read_proc_pid_stat kb (ev_comm0 ev) (ev_line ev) (ev_stat1 ev q) (ev_stat2 ev q) q zero_pid_stats = (0, p1)"
    and p1: "comm p1 = nm" "pid p1 = q" "utime p1 = ns ! 10" "stime p1 = ns ! 11" "gtime p1 = ns ! 39"
    using stat_text_read [of ns nm s "stat_text q nm s ns @ [newline]" q kb "ev_comm0 ev" "ev_line ev" zero_pid_stats] assms(2)
    unfolding prints_def by auto
  obtain fs fi where f: "ev_status ev q = Some fs" "ev_io ev q = Some fi" using assms(2) by (auto simp: prints_def)
  obtain p2 where 2: "read_proc_pid_status (ev_status ev q) (ev_line ev) q p1 = (0, p2)"
    and p2: "comm p2 = nm" "pid p2 = q" "utime p2 = ns ! 10" "stime p2 = ns ! 11" "gtime p2 = ns ! 39"
    using p1 by (simp add: read_proc_pid_status_def f lines_keep)
  obtain p3 where 3: "read_proc_pid_io (ev_io ev q) (ev_line ev) q p2 = (0, p3)"
    and p3: "comm p3 = nm" "pid p3 = q" "utime p3 = ns ! 10" "stime p3 = ns ! 11" "gtime p3 = ns ! 39"
    using p2 by (simp add: read_proc_pid_io_def f lines_keep)
  obtain d rc d' y where rd: "read_pid_stats ev kb pf q d (Some prev) = Inr (rc, d', y)"
    and a: "a = (if rc \<noteq> 0 then y\<lparr>pid := 0\<rparr> else y)"
    using assms(1) by (auto simp: reading_def)
  have "rc = 0 \<and> (\<exists>m. y = p3\<lparr>mem := m\<rparr>)"
    using rd by (auto simp: read_pid_stats_def 1 2 3 Let_def bindR_eq_Inr read_proc_pid_mem_def)
  then show ?thesis using a p3 by auto
qed

text \<open>The first line of \<^verbatim>\<open>/proc/stat\<close>, and the busy time the code takes from it.\<close>

definition prints_cpu :: "proc_env \<Rightarrow> u64 list \<Rightarrow> bool" where
  "prints_cpu ev us \<longleftrightarrow> length us = 9 \<and> (\<exists>more. ev_cpu ev = Some (''cpu '' @ num_row us @ newline # more))"

definition busy :: "u64 list \<Rightarrow> u32" where
  "busy us = ucast (us ! 0 + us ! 2 - us ! 8)"

lemma read_pass_busy:
  assumes "read_process_stats ev kb pf cr sy t = Inr (sy', t')" and "prints_cpu ev us"
  shows "si_runtime sy' = busy us"
proof -
  obtain a b c d e f g h i where us: "us = [a, b, c, d, e, f, g, h, i]"
    using assms(2) by (auto simp: prints_cpu_def eval_nat_numeral length_Suc_conv)
  obtain more where ev: "ev_cpu ev = Some (''cpu '' @ num_row us @ newline # more)" using assms(2) by (auto simp: prints_cpu_def)
  have "read_stat_cpu (ev_cpu ev) (ev_line ev) sy = Inr sy'"
    using assms(1) by (auto simp: read_process_stats_def bindR_eq_Inr split: option.splits)
  then show ?thesis unfolding ev us stat_cpu_row_read by (auto simp: us busy_def)
qed

lemma iteration_sample:
  assumes "ptop_inv st" and "iteration cf inp st = Inr st'"
  obtains amount s where "sample cf inp st = Inr (amount, s)" and "tree st' = tree s" and "sys_stats st' = sys_stats s"
    and "cur st' = 1 - cur st" and "kb_shift st' = kb_shift st" and "pfs st' = pfs st" and "hz st' = hz st"
    and "tlm_kb st' = tlm_kb st" and "\<exists>es. dbl_log st' = dbl_log s @ es"
proof -
  obtain amount s1 s2 s3 where 1: "sample cf inp st = Inr (amount, s1)"
    and 2: "show_step cf inp amount s1 = Inr s2" and 3: "purge_step cf inp s2 = Inr s3"
    and 4: "st' = s3\<lparr>cyc := cyc s3 + 1, cur := 1 - cur s3\<rparr>"
    by (rule iteration_parts [OF assms(2)])
  obtain scr tr tr' where k: "s3 = (s1\<lparr>screen := scr, dbl_log := tr\<rparr>)\<lparr>dbl_log := tr'\<rparr>"
    using show_step_keeps [OF 2] purge_step_keeps [OF 3] by blast
  have "\<exists>es. dbl_log s3 = dbl_log s1 @ es"
    using show_step_grows [OF 2] purge_step_grows [OF 3] by (auto simp: db_grows_def)
  moreover have "kb_shift s1 = kb_shift st \<and> pfs s1 = pfs st \<and> hz s1 = hz st \<and> tlm_kb s1 = tlm_kb st \<and> cur s1 = cur st"
    using sampleE [OF 1] by fastforce
  ultimately show ?thesis using that [OF 1] by (simp add: 4 k)
qed

lemma iteration_busy:
  assumes "ptop_inv st" and "sample cf inp st = Inr (amount, s)" and "prints_cpu (in_proc inp) us"
  shows "si_runtime (sys_stats s ! cur st) = busy us"
  using sample_pass [OF assms(1,2)] read_pass_busy [OF _ assms(3)] by metis

lemma no_jitter_ahead:
  assumes "utime b \<le> utime a" and "stime b \<le> stime a"
  shows "utime (no_jitter b a) = utime a" and "stime (no_jitter b a) = stime a" and "comm (no_jitter b a) = comm a"
  using assms by (auto simp: no_jitter_def Let_def dest: leD)

text \<open>Two iterations: the record of a process whose times have moved.\<close>

lemma two_iterations:
  assumes "ptop_inv st" and "iteration cf inp st = Inr st1" and "iteration cf' inp' st1 = Inr st2" and "always_connects (c_db cf')"
    and "ev_dir (in_proc inp) = Some ds" and "ev_dir (in_proc inp') = Some ds'" and "q \<in> set (pids_of ds) \<inter> set (pids_of ds')"
    and "lookup (tree st) (sint q) = None" and "0 < q"
    and "prints (in_proc inp) q nm s ns" and "prints (in_proc inp') q nm s' ns'"
    and "ns ! 10 \<le> ns' ! 10" and "ns ! 11 \<le> ns' ! 11" and "ns ! 10 \<noteq> ns' ! 10 \<or> ns ! 11 \<noteq> ns' ! 11"
    and "prints_cpu (in_proc inp) us" and "prints_cpu (in_proc inp') us'"
  shows "\<exists>r news. sent (dbl_log st2) = sent (dbl_log st1) @ news \<and> ps_statement r \<in> set news \<and>
    pi_pid r = q \<and> pi_cmdline r = Some nm \<and> pi_time r = ucast (in_ctime inp') \<and>
    pi_cpu r = fmul f32 (u64f ((ns' ! 10 - ns ! 10) + (ns' ! 11 - ns ! 11)))
      (fdiv f32 (Fin 100) (u64f (u64_subcount (ucast (busy us')) (ucast (busy us)))))"
proof -
  obtain am s1 where i1: "sample cf inp st = Inr (am, s1)" and e1: "tree st1 = tree s1" "sys_stats st1 = sys_stats s1"
    "cur st1 = 1 - cur st"
    using iteration_sample [OF assms(1,2)] by metis
  have inv1: "ptop_inv st1" and c: "cur st \<le> 1" using iteration_inv [OF assms(1,2)] assms(1) by (auto simp: ptop_inv_def)
  obtain am' s2 where i2: "sample cf' inp' st1 = Inr (am', s2)" and e2: "\<exists>es. dbl_log st2 = dbl_log s2 @ es"
    using iteration_sample [OF inv1 assms(3)] by metis
  have z: "previous (cur st) (tree st) (sint q) = zero_pid_stats" using assms(8) by (simp add: previous_def)
  have q: "q \<in> set (pids_of ds)" "q \<in> set (pids_of ds')" using assms(7) by simp_all
  obtain b f p where b: "reading (in_proc inp) (kb_shift st) (pfs st) q zero_pid_stats b"
    and p: "lookup (tree s1) (sint q) = Some (f, p)"
      "pst_get (cur st) p = Some (if 0 < pid b \<and> \<not> same_sample b zero_pid_stats then no_jitter zero_pid_stats b else b)"
    using sample_process [OF assms(1) i1 assms(5) q(1) z [symmetric]] by metis
  have "no_jitter zero_pid_stats b = b" by (simp add: no_jitter_def zero_pid_stats_def Let_def)
  then have "pst_get (cur st) p = Some b" using p(2) by simp
  moreover have "1 - cur st1 = cur st" using e1(3) c by simp
  ultimately have pv: "previous (cur st1) (tree st1) (sint q) = b" using p(1) by (simp add: previous_def e1(1))
  obtain a f' p' where a: "reading (in_proc inp') (kb_shift st1) (pfs st1) q b a"
    and "lookup (tree s2) (sint q) = Some (f', p')" "pst_get (1 - cur st1) p' = Some b"
      "pst_get (cur st1) p' = Some (if 0 < pid a \<and> \<not> same_sample a b then no_jitter b a else a)"
    and rep: "always_connects (c_db cf') \<and> 0 < pid a \<and> \<not> same_sample a b \<longrightarrow> (\<exists>news. sent (dbl_log s2) = sent (dbl_log st1) @ news \<and>
      ps_statement (rates_of (pass_params cf' inp' st1 s2) (a, b)) \<in> set news)"
    by (rule sample_process [OF inv1 i2 assms(6) q(2) pv [symmetric]])
  have fb: "utime b = ns ! 10" "stime b = ns ! 11" using reading_prints [OF b assms(10)] by simp_all
  have fa: "utime a = ns' ! 10" "stime a = ns' ! 11" "comm a = nm" "pid a = q" using reading_prints [OF a assms(11)] by simp_all
  have "\<not> same_sample a b" using assms(14) fa fb by (auto simp: same_sample_def)
  then obtain news where news: "sent (dbl_log s2) = sent (dbl_log st1) @ news"
    "ps_statement (rates_of (pass_params cf' inp' st1 s2) (a, b)) \<in> set news"
    using rep assms(4,9) fa(4) by blast
  let ?r = "rates_of (pass_params cf' inp' st1 s2) (a, b)"
  have "wp_itv (pass_params cf' inp' st1 s2) = u64_subcount (ucast (busy us')) (ucast (busy us))"
    using iteration_busy [OF inv1 i2 assms(16)] iteration_busy [OF assms(1) i1 assms(15)] e1(2,3) \<open>1 - cur st1 = cur st\<close>
    by (simp add: pass_params_def)
  moreover have "utime b \<le> utime a" "stime b \<le> stime a" using assms(12,13) fa fb by simp_all
  ultimately have "pi_pid ?r = q \<and> pi_cmdline ?r = Some nm \<and> pi_time ?r = ucast (in_ctime inp') \<and>
    pi_cpu ?r = fmul f32 (u64f ((ns' ! 10 - ns ! 10) + (ns' ! 11 - ns ! 11)))
      (fdiv f32 (Fin 100) (u64f (u64_subcount (ucast (busy us')) (ucast (busy us)))))"
    using fa fb by (simp add: rates_of_def process_rates_def no_jitter_ahead u64c.sub_ge Let_def) (simp add: pass_params_def)
  moreover obtain es where "dbl_log st2 = dbl_log s2 @ es" using e2 by blast
  ultimately show ?thesis using news by (intro exI [of _ ?r] exI [of _ "news @ sent es"]) simp
qed

section \<open>A concrete machine\<close>

text \<open>One process, number 7, with its \<^verbatim>\<open>stat\<close> values and those of the system; no terminal; the database
  answers.  The witnesses of the properties run on it.\<close>

definition one_process :: "inputs \<Rightarrow> u64 list \<Rightarrow> u64 list \<Rightarrow> inputs" where
  "one_process inp ns us = inp\<lparr>in_proc := (in_proc inp)\<lparr>ev_dir := Some [''7''], ev_malloc := \<lambda>_. True,
     ev_cpu := Some (''cpu '' @ num_row us @ newline # []), ev_smaps := \<lambda>_. Some [],
     ev_meminfo := \<lambda>_. Some (unlines (map field_line [(''Active:'', '' '', 5, '' kB'')])),
     ev_stat1 := \<lambda>_. Some (stat_text 7 ''bash'' (CHR ''S'') ns @ [newline]),
     ev_stat2 := \<lambda>_. Some (stat_text 7 ''bash'' (CHR ''S'') ns @ [newline]),
     ev_status := \<lambda>_. Some [], ev_io := \<lambda>_. Some []\<rparr>,
     in_wireless := None, in_ui := (in_ui inp)\<lparr>ui_tty := False\<rparr>\<rparr>"

definition answering :: mysql where
  "answering = \<lparr>mysql_real_connect = \<lambda>l. True, mysql_real_query = \<lambda>l q. 0\<rparr>"

definition one_config :: config where
  "one_config = \<lparr>c_db = answering, c_fetch = \<lambda>_. [], c_usable = \<lambda>n. n, c_room = 24, c_localtime = \<lambda>_. None\<rparr>"

lemma active_field_ok: "has_active (Some (unlines (map field_line [(''Active:'', '' '', 5, '' kB'')])))"
proof -
  have "field_ok 128 (''Active:'', '' '', 5, '' kB'')"
    by (simp add: field_ok.simps field_key_def plain_def is_space_def isdigit_def show_unsigned_def show_nat.simps)
  then show ?thesis
    unfolding has_active_def by (intro exI [of _ "[(''Active:'', '' '', 5, '' kB'')]"]) simp
qed

lemma atoi_7: "atoi ''7'' = 7"
  by (simp add: atoi_def atol_def scan_int_def scan_num_def skip_ws_def is_space_def isdigit_def digit_val_def strtol_val_def)

lemma one_process_facts:
  shows "ready one_config (one_process inp ns us)" and "always_connects (c_db one_config)"
    and "ev_dir (in_proc (one_process inp ns us)) = Some [''7'']" and "(7 :: u32) \<in> set (pids_of [''7''])"
    and "length ns = 41 \<Longrightarrow> prints (in_proc (one_process inp ns us)) 7 ''bash'' (CHR ''S'') ns"
    and "length us = 9 \<Longrightarrow> prints_cpu (in_proc (one_process inp ns us)) us"
proof -
  show "ready one_config (one_process inp ns us)"
    using active_field_ok
    by (simp add: ready_def proc_ready_def wireless_ok_def screen_ready_def one_process_def pids_of_def isdigit_def del: list.map)
  show "always_connects (c_db one_config)" by (simp add: always_connects_def one_config_def answering_def)
  have "pids_of [''7''] = [7]" by (simp add: pids_of_def isdigit_def atoi_7)
  then show "(7 :: u32) \<in> set (pids_of [''7''])" by simp
  show "ev_dir (in_proc (one_process inp ns us)) = Some [''7'']" by (simp add: one_process_def)
  show "prints (in_proc (one_process inp ns us)) 7 ''bash'' (CHR ''S'') ns" if "length ns = 41"
    unfolding prints_def one_process_def using that by (simp add: is_space_def)
  show "prints_cpu (in_proc (one_process inp ns us)) us" if "length us = 9"
    unfolding prints_cpu_def one_process_def using that by simp
qed

section \<open>Properties\<close>

text \<open>C7: what a sample sends: with a database that can be reached, exactly one insertion for every active
  process of the tree just read, in preorder, with the rates of its two samples, and then one record
  of the system, whose disk totals are the sums over these processes.\<close>

theorem sample_statements:
  assumes "ptop_inv st" and "sample cf inp st = Inr (amount, st')" and "always_connects (c_db cf)"
    and "wp = pass_params cf inp st st'"
  shows "\<exists>sy t1. read_process_stats (in_proc inp) (kb_shift st) (pfs st) (cur st) zero_sys_info (tree st) = Inr (sy, t1) \<and>
    sent (dbl_log st') = sent (dbl_log st) @ map (ps_statement \<circ> rates_of wp) (active_pairs (cur st) t1) @
      [sys_query (sys_stats st' ! 2)] \<and>
    si_totaldiskread (sys_stats st' ! 2) = sum_list (map disk_read (active_pairs (cur st) t1)) \<and>
    si_totaldiskwrite (sys_stats st' ! 2) = sum_list (map disk_write (active_pairs (cur st) t1))"
  by (rule sample_sent [OF assms])


text \<open>C6: from \<^verbatim>\<open>/proc\<close> to the database: a process that appears in one iteration and is listed again in the
  next one with a processor time that has moved is inserted in the second, under its id, its name and
  the time of the iteration, and its CPU share is 100 times the growth of the user and system times of
  its \<^verbatim>\<open>stat\<close> line divided by the growth of the busy time of the first line of \<^verbatim>\<open>/proc/stat\<close>, in \<^verbatim>\<open>float\<close>
  arithmetic.\<close>

theorem cpu_share_end_to_end:
  assumes "ptop_inv st" and "iteration cf inp st = Inr st1" and "iteration cf' inp' st1 = Inr st2" and "always_connects (c_db cf')"
    and "ev_dir (in_proc inp) = Some ds" and "ev_dir (in_proc inp') = Some ds'" and "q \<in> set (pids_of ds) \<inter> set (pids_of ds')"
    and "lookup (tree st) (sint q) = None" and "0 < q"
    and "prints (in_proc inp) q nm s ns" and "prints (in_proc inp') q nm s' ns'"
    and "ns ! 10 \<le> ns' ! 10" and "ns ! 11 \<le> ns' ! 11" and "ns ! 10 \<noteq> ns' ! 10 \<or> ns ! 11 \<noteq> ns' ! 11"
    and "prints_cpu (in_proc inp) us" and "prints_cpu (in_proc inp') us'"
  shows "\<exists>r news. sent (dbl_log st2) = sent (dbl_log st1) @ news \<and> ps_statement r \<in> set news \<and>
    pi_pid r = q \<and> pi_cmdline r = Some nm \<and> pi_time r = ucast (in_ctime inp') \<and>
    pi_cpu r = fmul f32 (u64f ((ns' ! 10 - ns ! 10) + (ns' ! 11 - ns ! 11)))
      (fdiv f32 (Fin 100) (u64f (u64_subcount (ucast (busy us')) (ucast (busy us)))))"
  by (rule two_iterations [OF assms])

theorem cpu_share_end_to_end_witness:
  "\<forall>inp :: inputs. \<exists>st1 st2 r news. iteration one_config (one_process inp (replicate 41 0) (replicate 9 0)) (globals0 1 []) = Inr st1 \<and>
    iteration one_config (one_process inp ((replicate 41 0)[10 := 30, 11 := 10]) ((replicate 9 0)[0 := 150, 2 := 50])) st1 = Inr st2 \<and>
    sent (dbl_log st2) = sent (dbl_log st1) @ news \<and> ps_statement r \<in> set news \<and>
    pi_pid r = 7 \<and> pi_cmdline r = Some ''bash'' \<and> pi_cpu r = fmul f32 (u64f 40) (fdiv f32 (Fin 100) (u64f 200))"
proof
  fix inp :: inputs
  let ?ns = "replicate 41 0 :: u64 list" and ?us = "replicate 9 0 :: u64 list"
  let ?ns' = "?ns[10 := 30, 11 := 10]" and ?us' = "?us[0 := 150, 2 := 50]"
  let ?i = "one_process inp ?ns ?us" and ?i' = "one_process inp ?ns' ?us'"
  have g: "loop_inv (globals0 1 [])" using globals0_inv [of 1 "[]"] by (simp add: loop_inv_def globals0_def)
  obtain st1 where 1: "iteration one_config ?i (globals0 1 []) = Inr st1" "loop_inv st1"
    using iteration_comes_back [OF g one_process_facts(1)] by blast
  obtain st2 where 2: "iteration one_config ?i' st1 = Inr st2"
    using iteration_comes_back [OF 1(2) one_process_facts(1)] by blast
  have t: "lookup (tree (globals0 1 [])) (sint (7 :: u32)) = None" by (simp add: globals0_def)
  have p: "prints (in_proc ?i) 7 ''bash'' (CHR ''S'') ?ns" "prints (in_proc ?i') 7 ''bash'' (CHR ''S'') ?ns'"
    "prints_cpu (in_proc ?i) ?us" "prints_cpu (in_proc ?i') ?us'"
    by (rule one_process_facts; simp)+
  have n: "?ns ! 10 = 0" "?ns ! 11 = 0" "?ns' ! 10 = 30" "?ns' ! 11 = 10" by simp_all
  have b: "u64_subcount (ucast (busy ?us')) (ucast (busy ?us)) = 200" by (simp add: busy_def u64_subcount_def)
  have q: "(7 :: u32) \<in> set (pids_of [''7'']) \<inter> set (pids_of [''7''])" using one_process_facts(4) by simp
  have i: "ptop_inv (globals0 1 [])" by (rule globals0_inv)
  have ord: "?ns ! 10 \<le> ?ns' ! 10" "?ns ! 11 \<le> ?ns' ! 11" "?ns ! 10 \<noteq> ?ns' ! 10 \<or> ?ns ! 11 \<noteq> ?ns' ! 11" "(0 :: u32) < 7"
    unfolding n by simp_all
  obtain r news where r: "sent (dbl_log st2) = sent (dbl_log st1) @ news" "ps_statement r \<in> set news"
    "pi_pid r = 7" "pi_cmdline r = Some ''bash''"
    "pi_cpu r = fmul f32 (u64f ((?ns' ! 10 - ?ns ! 10) + (?ns' ! 11 - ?ns ! 11)))
      (fdiv f32 (Fin 100) (u64f (u64_subcount (ucast (busy ?us')) (ucast (busy ?us)))))"
    using cpu_share_end_to_end [OF i 1(1) 2 one_process_facts(2) one_process_facts(3) one_process_facts(3) q t ord(4)
        p(1,2) ord(1-3) p(3,4)] by blast
  have "pi_cpu r = fmul f32 (u64f 40) (fdiv f32 (Fin 100) (u64f 200))" using r(5) unfolding n b by simp
  then show "\<exists>st1 st2 r news. iteration one_config ?i (globals0 1 []) = Inr st1 \<and> iteration one_config ?i' st1 = Inr st2 \<and>
    sent (dbl_log st2) = sent (dbl_log st1) @ news \<and> ps_statement r \<in> set news \<and>
    pi_pid r = 7 \<and> pi_cmdline r = Some ''bash'' \<and> pi_cpu r = fmul f32 (u64f 40) (fdiv f32 (Fin 100) (u64f 200))"
    using 1(1) 2 r(1-4) by blast
qed

theorem sample_statements_witness:
  "\<forall>inp :: inputs. \<exists>amount st'. sample one_config (one_process inp (replicate 41 5) (replicate 9 0)) (globals0 1 []) = Inr (amount, st') \<and>
    (\<exists>qs. sent (dbl_log st') = qs @ [sys_query (sys_stats st' ! 2)])"
proof
  fix inp :: inputs
  let ?i = "one_process inp (replicate 41 5) (replicate 9 0)"
  have g: "loop_inv (globals0 1 [])" using globals0_inv [of 1 "[]"] by (simp add: loop_inv_def globals0_def)
  then obtain st1 where "iteration one_config ?i (globals0 1 []) = Inr st1"
    using iteration_comes_back [OF _ one_process_facts(1)] by blast
  then obtain amount st' where s: "sample one_config ?i (globals0 1 []) = Inr (amount, st')"
    using iteration_sample [OF globals0_inv] by metis
  from sample_statements [OF globals0_inv s one_process_facts(2) refl] s
  show "\<exists>amount st'. sample one_config ?i (globals0 1 []) = Inr (amount, st') \<and>
    (\<exists>qs. sent (dbl_log st') = qs @ [sys_query (sys_stats st' ! 2)])" by (metis append.assoc)
qed

end
